(* ===== verification/Prelude.thy ===== *)
theory Prelude
  imports Main "HOL-Library.Sublist"
begin

text \<open>
  What every component shares: the outcome of a Go computation (\<open>comp\<close>: a value, a
  run-time panic, or fuel exhausted), byte strings, the string functions of Go's standard
  library the sources call, the values of the IPLD data model, Go's \<open>any\<close> as far as caveats
  use it, and the \<open>failure.Failure\<close> interface. A Go string is a sequence of bytes and a HOL
  \<^typ>\<open>char\<close> is a byte, so \<open>string(b)\<close> and \<open>[]byte(s)\<close> are the identity here.
\<close>

named_theorems go_simps "rewrite rules for the Go run-time functions of the prelude"
named_theorems comp_split "case rules of outcomes"

section \<open>Names of types\<close>

type_synonym bytes = string
type_synonym link = string
  \<comment> \<open>an IPLD link, by the canonical string of its CID; the sources compare links by \<open>String()\<close>\<close>
type_synonym err = string
  \<comment> \<open>an error made by \<open>errors.New\<close> or \<open>fmt.Errorf\<close>, by its message: the fixed text, strings and
     wrapped errors it formats; numbers, Go type names and hashes it formats are left out\<close>

definition squote :: string where "squote = [CHR 0x27]"
definition dquote :: string where "dquote = [CHR 0x22]"
definition newline :: char where "newline = CHR 0x0A"

section \<open>Outcomes: a value, a panic, fuel exhausted\<close>

datatype 'a comp = Ret 'a | Panic string | Fuel

fun cbind :: "'a comp \<Rightarrow> ('a \<Rightarrow> 'b comp) \<Rightarrow> 'b comp" where
  "cbind (Ret x) f = f x"
| "cbind (Panic s) f = Panic s"
| "cbind Fuel f = Fuel"

fun cmap :: "('a \<Rightarrow> 'b) \<Rightarrow> 'a comp \<Rightarrow> 'b comp" where
  "cmap f (Ret x) = Ret (f x)"
| "cmap f (Panic s) = Panic s"
| "cmap f Fuel = Fuel"

definition returns :: "'a comp \<Rightarrow> bool" where
  "returns m \<longleftrightarrow> (case m of Ret _ \<Rightarrow> True | _ \<Rightarrow> False)"

lemma cbind_eq_Ret [simp]: "cbind m f = Ret y \<longleftrightarrow> (\<exists>x. m = Ret x \<and> f x = Ret y)"
  by (cases m) auto

lemma cbind_eq_Fuel: "cbind m f = Fuel \<longleftrightarrow> m = Fuel \<or> (\<exists>x. m = Ret x \<and> f x = Fuel)"
  by (cases m) auto

lemma cbind_eq_Panic:
  "cbind m f = Panic s \<longleftrightarrow> m = Panic s \<or> (\<exists>x. m = Ret x \<and> f x = Panic s)"
  by (cases m) auto

lemma cbind_assoc [simp]: "cbind (cbind m f) g = cbind m (\<lambda>x. cbind (f x) g)"
  by (cases m) auto

lemma cbind_Ret_right [simp]: "cbind m Ret = m"
  by (cases m) auto

lemma cbind_cong [fundef_cong]:
  "m = m' \<Longrightarrow> (\<And>x. m' = Ret x \<Longrightarrow> f x = f' x) \<Longrightarrow> cbind m f = cbind m' f'"
  by (cases m') auto

lemma cmap_eq_Ret [simp]: "cmap f m = Ret y \<longleftrightarrow> (\<exists>x. m = Ret x \<and> y = f x)"
  by (cases m) auto

lemma cmap_eq_Fuel [simp]: "cmap f m = Fuel \<longleftrightarrow> m = Fuel"
  by (cases m) auto

lemma returns_Ret [simp]: "returns (Ret x)"
  by (simp add: returns_def)

lemma returns_not [simp]: "\<not> returns (Panic s)" "\<not> returns Fuel"
  by (simp_all add: returns_def)

lemma returns_iff: "returns m \<longleftrightarrow> (\<exists>x. m = Ret x)"
  by (cases m) auto

lemma returns_cbind [simp]: "returns (cbind m f) \<longleftrightarrow> (\<exists>x. m = Ret x \<and> returns (f x))"
  by (cases m) auto

lemma returns_cmap [simp]: "returns (cmap f m) = returns m"
  by (cases m) auto

text \<open>A loop over a slice whose body may panic; the results are appended in order.\<close>

fun cmapM :: "('a \<Rightarrow> 'b comp) \<Rightarrow> 'a list \<Rightarrow> 'b list comp" where
  "cmapM f [] = Ret []"
| "cmapM f (x # xs) = cbind (f x) (\<lambda>y. cbind (cmapM f xs) (\<lambda>ys. Ret (y # ys)))"

lemma cmapM_eq_Ret: "cmapM f xs = Ret ys \<longleftrightarrow> list_all2 (\<lambda>x y. f x = Ret y) xs ys"
  by (induction xs arbitrary: ys) (auto simp: list_all2_Cons1)

lemma cmapM_cong [fundef_cong]:
  "xs = ys \<Longrightarrow> (\<And>x. x \<in> set ys \<Longrightarrow> f x = g x) \<Longrightarrow> cmapM f xs = cmapM g ys"
proof (induction ys arbitrary: xs)
  case (Cons y ys)
  then have "f y = g y" "cmapM f ys = cmapM g ys" by auto
  with Cons.prems(1) show ?case by simp
qed simp

lemma cmapM_Ret: "(\<And>x. x \<in> set xs \<Longrightarrow> f x = Ret (g x)) \<Longrightarrow> cmapM f xs = Ret (map g xs)"
  by (induction xs) auto

lemma cmapM_length: "cmapM f xs = Ret ys \<Longrightarrow> length ys = length xs"
  by (auto simp: cmapM_eq_Ret dest: list_all2_lengthD)

lemma cmapM_in: "cmapM f xs = Ret ys \<Longrightarrow> y \<in> set ys \<Longrightarrow> \<exists>x \<in> set xs. f x = Ret y"
  by (induction xs arbitrary: ys) auto

lemma cmapM_from: "cmapM f xs = Ret ys \<Longrightarrow> x \<in> set xs \<Longrightarrow> \<exists>y \<in> set ys. f x = Ret y"
  by (induction xs arbitrary: ys) auto

lemma returns_cmapM: "returns (cmapM f xs) \<longleftrightarrow> (\<forall>x \<in> set xs. returns (f x))"
  by (induction xs) (auto simp: returns_iff)

text \<open>A loop over a slice whose body may return an error, which ends the loop.\<close>

fun emapM :: "('a \<Rightarrow> 'e + 'b) \<Rightarrow> 'a list \<Rightarrow> 'e + 'b list" where
  "emapM f [] = Inr []"
| "emapM f (x # xs) =
     (case f x of
        Inl e \<Rightarrow> Inl e
      | Inr y \<Rightarrow> (case emapM f xs of Inl e \<Rightarrow> Inl e | Inr ys \<Rightarrow> Inr (y # ys)))"

lemma emapM_Inr: "emapM f xs = Inr ys \<longleftrightarrow> list_all2 (\<lambda>x y. f x = Inr y) xs ys"
proof (induction xs arbitrary: ys)
  case (Cons x xs)
  then show ?case
    by (cases "f x"; cases "emapM f xs") (auto simp: list_all2_Cons1)
qed auto

lemma emapM_all: "(\<And>x. x \<in> set xs \<Longrightarrow> f x = Inr (g x)) \<Longrightarrow> emapM f xs = Inr (map g xs)"
  by (induction xs) auto

lemma emapM_Inl: "emapM f xs = Inl e \<Longrightarrow> \<exists>x \<in> set xs. f x = Inl e"
  by (induction xs) (auto split: sum.splits)

section \<open>Strings and slices of the Go standard library\<close>

definition HasPrefix :: "string \<Rightarrow> string \<Rightarrow> bool" where
  "HasPrefix s p \<longleftrightarrow> take (length p) s = p"

definition HasSuffix :: "string \<Rightarrow> string \<Rightarrow> bool" where
  "HasSuffix s p \<longleftrightarrow> length p \<le> length s \<and> drop (length s - length p) s = p"

fun Join :: "string list \<Rightarrow> string \<Rightarrow> string" where
  "Join [] sep = []"
| "Join [s] sep = s"
| "Join (s # t # ts) sep = s @ sep @ Join (t # ts) sep"

text \<open>\<open>strings.Split\<close> at a one-byte separator (the sources only split at a newline).\<close>

fun Split :: "string \<Rightarrow> char \<Rightarrow> string list" where
  "Split [] c = [[]]"
| "Split (x # xs) c =
     (if x = c then [] # Split xs c
      else (case Split xs c of [] \<Rightarrow> [[x]] | y # ys \<Rightarrow> (x # y) # ys))"

text \<open>\<open>b[n:]\<close>, which panics when \<open>n\<close> is past the length, and \<open>b[lo:hi]\<close> likewise.\<close>

definition slice_from :: "nat \<Rightarrow> 'a list \<Rightarrow> 'a list comp" where
  "slice_from n b =
     (if n \<le> length b then Ret (drop n b) else Panic ''slice bounds out of range'')"

definition slice_range :: "nat \<Rightarrow> nat \<Rightarrow> 'a list \<Rightarrow> 'a list comp" where
  "slice_range lo hi b =
     (if lo \<le> hi \<and> hi \<le> length b then Ret (take (hi - lo) (drop lo b))
      else Panic ''slice bounds out of range'')"

text \<open>\<open>xs[0]\<close> of a slice.\<close>

definition first_of :: "'a list \<Rightarrow> 'a comp" where
  "first_of xs = (case xs of [] \<Rightarrow> Panic ''index out of range'' | x # _ \<Rightarrow> Ret x)"

text \<open>
  \<open>make([]byte, n)\<close>; \<open>copy(dst[off:], src)\<close>, which copies as much as fits. Writing past the
  end by \<open>PutUvarint\<close> panics.
\<close>

definition go_make :: "nat \<Rightarrow> bytes" where
  "go_make n = replicate n (CHR 0x00)"

definition go_copy :: "nat \<Rightarrow> bytes \<Rightarrow> bytes \<Rightarrow> bytes" where
  "go_copy off src dst =
     take off dst @ take (length dst - off) src @ drop (off + length src) dst"

lemma HasPrefix_append [simp]: "HasPrefix (p @ s) p"
  by (simp add: HasPrefix_def)

lemma HasPrefix_iff: "HasPrefix s p \<longleftrightarrow> (\<exists>t. s = p @ t)"
  by (metis HasPrefix_def HasPrefix_append append_take_drop_id)

lemma HasPrefix_prefix: "HasPrefix s p \<longleftrightarrow> prefix p s"
  by (auto simp: HasPrefix_iff prefix_def)

lemma HasSuffix_iff: "HasSuffix s p \<longleftrightarrow> (\<exists>t. s = t @ p)"
proof
  assume "HasSuffix s p"
  then have "s = take (length s - length p) s @ p"
    by (metis HasSuffix_def append_take_drop_id)
  then show "\<exists>t. s = t @ p" by blast
qed (auto simp: HasSuffix_def)

lemma HasPrefix_refl [simp]: "HasPrefix s s"
  by (simp add: HasPrefix_def)

lemma HasPrefix_drop: "HasPrefix s p \<Longrightarrow> p @ drop (length p) s = s"
  by (metis HasPrefix_def append_take_drop_id)

lemma slice_from_Ret [simp]: "n \<le> length b \<Longrightarrow> slice_from n b = Ret (drop n b)"
  by (simp add: slice_from_def)

lemma slice_from_Panic: "length b < n \<Longrightarrow> slice_from n b = Panic ''slice bounds out of range''"
  by (simp add: slice_from_def)

lemma slice_from_append [simp]: "slice_from (length a) (a @ b) = Ret b"
  by simp

lemma slice_range_append [simp]:
  "lo = length a \<Longrightarrow> hi = length a + length b \<Longrightarrow> slice_range lo hi (a @ b @ c) = Ret b"
  by (simp add: slice_range_def)

lemma first_of_simps [simp]:
  "first_of [] = Panic ''index out of range''" "first_of (x # xs) = Ret x"
  by (simp_all add: first_of_def)

lemma first_of_eq_Ret: "first_of xs = Ret x \<longleftrightarrow> (\<exists>ys. xs = x # ys)"
  by (cases xs) auto

lemma length_go_make [simp]: "length (go_make n) = n"
  by (simp add: go_make_def)

lemma length_go_copy [simp]: "off \<le> length dst \<Longrightarrow> length (go_copy off src dst) = length dst"
  by (simp add: go_copy_def)

lemma go_copy_fits:
  "off + length src \<le> length dst \<Longrightarrow>
     go_copy off src dst = take off dst @ src @ drop (off + length src) dst"
  by (simp add: go_copy_def)

lemma go_copy_append:
  assumes "length a = off" and "length m = length src"
  shows "go_copy off src (a @ m @ z) = a @ src @ z"
  using assms by (simp add: go_copy_def)

text \<open>Filling a zeroed buffer from left to right.\<close>

lemma go_copy_fill:
  assumes "length a = off"
  shows "go_copy off src (a @ go_make (length src + m)) = (a @ src) @ go_make m"
  using assms by (simp add: go_copy_def go_make_def)

lemma go_copy_fill0: "go_copy 0 src (go_make (length src + m)) = src @ go_make m"
  using go_copy_fill [of "[]" 0 src m] by simp

lemma go_copy_fill_all:
  assumes "length a = off"
  shows "go_copy off src (a @ go_make (length src)) = a @ src"
  using go_copy_fill [OF assms, of src 0] by (simp add: go_make_def)

lemma Split_nonempty [simp]: "Split s c \<noteq> []"
  by (induction s) (auto split: list.splits)

lemma Join_Cons: "ts \<noteq> [] \<Longrightarrow> Join (s # ts) sep = s @ sep @ Join ts sep"
  by (cases ts) auto

text \<open>Joining the lines of a text gives the text back.\<close>

lemma Join_Split: "Join (Split s c) [c] = s"
proof (induction s)
  case (Cons x xs)
  show ?case
  proof (cases "Split xs c")
    case (Cons y ys)
    with Cons.IH show ?thesis by (cases ys) (auto simp: Join_Cons)
  qed simp
qed simp

lemma Split_no_sep: "t \<in> set (Split s c) \<Longrightarrow> c \<notin> set t"
  by (induction s arbitrary: t) (auto split: list.splits if_splits)

lemma split_at_sep:
  "c \<notin> set xs \<Longrightarrow> c \<notin> set ys \<Longrightarrow> xs @ c # zs = ys @ c # ws \<longleftrightarrow> xs = ys \<and> zs = ws"
proof (induction xs arbitrary: ys)
  case Nil
  then show ?case by (cases ys) auto
next
  case (Cons x xs)
  then show ?case by (cases ys) auto
qed

section \<open>Values of the IPLD data model and Go's \<open>any\<close>\<close>

datatype node =
    NNull | NBool bool | NInt int | NString string | NBytes bytes | NLink link
  | NList "node list" | NMap "(string \<times> node) list"

text \<open>
  \<open>failure.Failure\<close> (core/result/failure/faillure.go): an error with a name. The sources only
  read \<open>Name()\<close> and \<open>Error()\<close> of one.
\<close>

datatype failure = Failure (fail_name: string) (fail_msg: string)

text \<open>
  A caveats value held as \<open>any\<close>: nil, an IPLD node, a link, a \<open>vdm.AttestationModel\<close>, another Go
  value that is an \<open>ipld.Builder\<close> (its type and what its \<open>ToIPLD\<close> returns), or a value of a
  type that is neither. A generic \<open>Caveats\<close> value is one of these: the dynamic type is kept,
  the static type parameter is erased.
\<close>

datatype gany =
    GNil | GNode node | GLink link | GAttestation link | GBuilder string "err + node"
  | GOpaque string

section \<open>Helper lemmas on lists and sums\<close>
lemma cmap_split: "P (cmap f m) \<longleftrightarrow>
    (\<forall>x. m = Ret x \<longrightarrow> P (Ret (f x))) \<and> (\<forall>s. m = Panic s \<longrightarrow> P (Panic s)) \<and> (m = Fuel \<longrightarrow> P Fuel)"
  by (cases m) auto

text \<open>Inverting a result: which branch of a case on an error-or-value, or on an option, it is.\<close>

lemma case_sum_eq [comp_split]:
  "(case r of Inl e \<Rightarrow> f e | Inr x \<Rightarrow> g x) = y \<longleftrightarrow>
     (\<exists>e. r = Inl e \<and> f e = y) \<or> (\<exists>x. r = Inr x \<and> g x = y)"
  by (cases r) auto

lemma case_option_eq [comp_split]:
  "(case r of None \<Rightarrow> f | Some x \<Rightarrow> g x) = y \<longleftrightarrow>
     (r = None \<and> f = y) \<or> (\<exists>x. r = Some x \<and> g x = y)"
  by (cases r) auto

lemma case_sum_eq' [comp_split]:
  "y = (case r of Inl e \<Rightarrow> f e | Inr x \<Rightarrow> g x) \<longleftrightarrow>
     (\<exists>e. r = Inl e \<and> y = f e) \<or> (\<exists>x. r = Inr x \<and> y = g x)"
  by (cases r) auto

lemma case_option_eq' [comp_split]:
  "y = (case r of None \<Rightarrow> f | Some x \<Rightarrow> g x) \<longleftrightarrow>
     (r = None \<and> y = f) \<or> (\<exists>x. r = Some x \<and> y = g x)"
  by (cases r) auto

lemma sum_case_Inr_iff: "(case s of Inl e \<Rightarrow> False | Inr x \<Rightarrow> P x) \<longleftrightarrow> (\<exists>x. s = Inr x \<and> P x)"
  by (cases s) auto

lemma last_in_set_append [simp]: "last (xs @ [x]) \<in> set (xs @ [x])"
  by simp

lemma map_upd_dom_in: "k \<in> dom m \<Longrightarrow> \<exists>v. m k = Some v"
  by auto

end
