(* ===== verification/External.thy ===== *)
theory External
  imports Prelude
begin

text \<open>
  Functions of packages that are not part of the repository, as a record of parameters: the
  multibase, varint, CID and codec libraries and the cryptographic primitives. Every
  definition that reaches one of them takes the record \<open>L\<close>. What the code relies on is
  stated as predicates on the record (\<open>varint_ok\<close>, \<open>multibase_ok\<close>), each in the words of the
  library's documentation. The last section holds one concrete record, used by the witnesses.
\<close>

section \<open>The record of parameters\<close>

record extlib =
  mb_encode58 :: "bytes \<Rightarrow> string"
    \<comment> \<open>\<open>multibase.Encode(Base58BTC, b)\<close>, with its multibase prefix\<close>
  mb_decode :: "string \<Rightarrow> err + (char \<times> bytes)"
    \<comment> \<open>\<open>multibase.Decode\<close>: the encoding's code and the bytes\<close>
  uv_size :: "nat \<Rightarrow> nat"
    \<comment> \<open>\<open>varint.UvarintSize\<close>\<close>
  uv_put :: "nat \<Rightarrow> bytes"
    \<comment> \<open>the bytes \<open>varint.PutUvarint\<close> writes\<close>
  uv_read :: "bytes \<Rightarrow> nat \<times> err option"
    \<comment> \<open>\<open>varint.ReadUvarint\<close> on a reader of the bytes: the value, and the error if any\<close>
  uv_from :: "bytes \<Rightarrow> (nat \<times> nat) \<times> err option"
    \<comment> \<open>\<open>varint.FromUvarint\<close>: the value, the bytes consumed, and the error if any\<close>
  b64url :: "bytes \<Rightarrow> string"
    \<comment> \<open>\<open>base64.RawURLEncoding.EncodeToString\<close>\<close>
  sha256sum :: "bytes \<Rightarrow> bytes"
    \<comment> \<open>\<open>sha256.New\<close>, \<open>Write\<close>, \<open>Sum\<close>\<close>
  ed_sign :: "bytes \<Rightarrow> bytes \<Rightarrow> bytes"
    \<comment> \<open>\<open>ed25519.Sign\<close>: private key, message\<close>
  ed_verify :: "bytes \<Rightarrow> bytes \<Rightarrow> bytes \<Rightarrow> bool"
    \<comment> \<open>\<open>ed25519.Verify\<close> on a key of the right length: public key, message, signature\<close>
  pkcs1_parse_priv :: "bytes \<Rightarrow> err + bytes"
  pkcs1_parse_pub :: "bytes \<Rightarrow> err + bytes"
    \<comment> \<open>\<open>x509.ParsePKCS1PrivateKey\<close> and \<open>ParsePKCS1PublicKey\<close>; a key is an opaque byte string\<close>
  pkcs1_marshal_pub :: "bytes \<Rightarrow> bytes"
    \<comment> \<open>\<open>x509.MarshalPKCS1PublicKey\<close> of the public half of a private key\<close>
  rsa_sign :: "bytes \<Rightarrow> bytes \<Rightarrow> bytes"
    \<comment> \<open>\<open>rsa.SignPKCS1v15\<close> with SHA-256: private key, digest\<close>
  rsa_verify :: "bytes \<Rightarrow> bytes \<Rightarrow> bytes \<Rightarrow> bool"
    \<comment> \<open>\<open>rsa.VerifyPKCS1v15\<close> with SHA-256 returned nil: public key, digest, signature\<close>
  wrap_failure :: "string option \<Rightarrow> string \<Rightarrow> string option \<Rightarrow> err + node"
    \<comment> \<open>\<open>bindnode.Wrap\<close> of a \<open>FailureModel\<close> under failure.ipldsch\<close>
  wrap_attestation :: "link \<Rightarrow> err + node"
  rebind_attestation :: "node \<Rightarrow> err + link"
    \<comment> \<open>\<open>bindnode\<close> of an \<open>AttestationModel\<close> under attestation.ipldsch, to a node and back\<close>
  policy_proof_equal :: "link \<Rightarrow> node \<Rightarrow> bool"
    \<comment> \<open>\<open>policy.Match\<close> of the policy \<open>Equal(".proof", link)\<close>\<close>
  url_parse :: "string \<Rightarrow> err + (string \<times> string)"
    \<comment> \<open>\<open>url.ParseRequestURI\<close>: the scheme and the text of the URL\<close>
  mh_encode :: "bytes \<Rightarrow> nat \<Rightarrow> bytes"
    \<comment> \<open>\<open>multihash.Encode\<close>: digest, hash code\<close>
  cid_v1 :: "nat \<Rightarrow> bytes \<Rightarrow> link"
    \<comment> \<open>\<open>cid.NewCidV1\<close>: codec code, multihash\<close>
  cid_codec :: "link \<Rightarrow> nat"
  cid_version :: "link \<Rightarrow> nat"
  cid_mhtype :: "link \<Rightarrow> nat"
  cid_digest :: "link \<Rightarrow> err + bytes"
    \<comment> \<open>the prefix of the link's CID and its decoded multihash\<close>

definition Base58BTC :: char where
  "Base58BTC = CHR ''z''"

text \<open>Values \<open>varint\<close> accepts: at most nine bytes, so below \<open>2^63\<close>.\<close>

definition MaxUvarint :: nat where
  "MaxUvarint = 9223372036854775808"

text \<open>
  go-varint: a value below \<open>2^63\<close> is written in \<open>UvarintSize\<close> bytes, and reading what was
  written, whatever follows it, gives the value back.
\<close>

definition varint_ok :: "extlib \<Rightarrow> bool" where
  "varint_ok L \<longleftrightarrow>
     (\<forall>n < MaxUvarint. length (uv_put L n) = uv_size L n \<and> 0 < uv_size L n \<and>
        (\<forall>rest. uv_read L (uv_put L n @ rest) = (n, None) \<and>
                uv_from L (uv_put L n @ rest) = ((n, uv_size L n), None)))"

text \<open>\<open>FromUvarint\<close> accepts minimal encodings only: what it reads a value from is what \<open>PutUvarint\<close> writes.\<close>

definition varint_minimal :: "extlib \<Rightarrow> bool" where
  "varint_minimal L \<longleftrightarrow>
     (\<forall>b n k. uv_from L b = ((n, k), None) \<longrightarrow> take k b = uv_put L n)"

text \<open>Reading from an exhausted reader is an error, with value 0; 0 takes one byte.\<close>

definition varint_eof :: "extlib \<Rightarrow> bool" where
  "varint_eof L \<longleftrightarrow> fst (uv_read L []) = 0 \<and> snd (uv_read L []) \<noteq> None \<and> uv_size L 0 = 1"

text \<open>
  crypto/ed25519: a 64-byte private key is the seed and the 32-byte public key; a signature
  is 64 bytes and verifies under the public half. crypto/rsa and crypto/x509: the marshalled
  public half of a key that parses is parsed back to a key under which its signatures verify.
\<close>

definition ed25519_ok :: "extlib \<Rightarrow> bool" where
  "ed25519_ok L \<longleftrightarrow>
     (\<forall>seed pub m. length seed = 32 \<and> length pub = 32 \<longrightarrow>
        length (ed_sign L (seed @ pub) m) = 64 \<and> ed_verify L pub m (ed_sign L (seed @ pub) m))"

definition rsa_ok :: "extlib \<Rightarrow> bool" where
  "rsa_ok L \<longleftrightarrow>
     (\<forall>b k. pkcs1_parse_priv L b = Inr k \<longrightarrow>
        (\<exists>p. pkcs1_parse_pub L (pkcs1_marshal_pub L k) = Inr p \<and>
             (\<forall>d. length (rsa_sign L k d) < MaxUvarint \<and> rsa_verify L p d (rsa_sign L k d))))"

text \<open>
  go-ipld-prime bindnode: a failure is the map of its present fields, an attestation the map
  with its proof; binding that map back gives the link. go-ucan policies: \<open>Equal\<close> on a selector
  holds where the selected value is the literal.
\<close>

definition failure_node :: "string option \<Rightarrow> string \<Rightarrow> string option \<Rightarrow> node" where
  "failure_node name msg stack =
     NMap ((case name of None \<Rightarrow> [] | Some s \<Rightarrow> [(''name'', NString s)]) @ [(''message'', NString msg)] @
           (case stack of None \<Rightarrow> [] | Some s \<Rightarrow> [(''stack'', NString s)]))"

definition bindnode_ok :: "extlib \<Rightarrow> bool" where
  "bindnode_ok L \<longleftrightarrow>
     (\<forall>n m s. wrap_failure L n m s = Inr (failure_node n m s)) \<and>
     (\<forall>l. wrap_attestation L l = Inr (NMap [(''proof'', NLink l)])) \<and>
     (\<forall>n l. rebind_attestation L n = Inr l \<longleftrightarrow> n = NMap [(''proof'', NLink l)]) \<and>
     (\<forall>l l'. policy_proof_equal L l (NMap [(''proof'', NLink l')]) \<longleftrightarrow> l' = l)"

text \<open>go-multibase: decoding an encoding gives the encoding's code and the bytes back.\<close>

definition multibase_ok :: "extlib \<Rightarrow> bool" where
  "multibase_ok L \<longleftrightarrow> (\<forall>b. mb_decode L (mb_encode58 L b) = Inr (Base58BTC, b))"

text \<open>encoding/base64: distinct bytes have distinct encodings, and none has a full stop.\<close>

definition base64_ok :: "extlib \<Rightarrow> bool" where
  "base64_ok L \<longleftrightarrow> inj (b64url L) \<and> (\<forall>b. CHR ''.'' \<notin> set (b64url L b))"

lemma varint_length [simp]: "varint_ok L \<Longrightarrow> n < MaxUvarint \<Longrightarrow> length (uv_put L n) = uv_size L n"
  by (simp add: varint_ok_def)

lemma varint_size_pos: "varint_ok L \<Longrightarrow> n < MaxUvarint \<Longrightarrow> 0 < uv_size L n"
  by (simp add: varint_ok_def)

lemma varint_read [simp]:
  "varint_ok L \<Longrightarrow> n < MaxUvarint \<Longrightarrow> uv_read L (uv_put L n @ rest) = (n, None)"
  unfolding varint_ok_def by blast

lemma varint_from [simp]:
  "varint_ok L \<Longrightarrow> n < MaxUvarint \<Longrightarrow>
     uv_from L (uv_put L n @ rest) = ((n, uv_size L n), None)"
  unfolding varint_ok_def by blast

lemma multibase_decode [simp]:
  "multibase_ok L \<Longrightarrow> mb_decode L (mb_encode58 L b) = Inr (Base58BTC, b)"
  by (simp add: multibase_ok_def)

lemma multibase_inj [simp]: "multibase_ok L \<Longrightarrow> mb_encode58 L a = mb_encode58 L b \<longleftrightarrow> a = b"
  by (metis multibase_decode Pair_inject sum.inject(2))

section \<open>A concrete record for the witnesses\<close>

text \<open>
  Unsigned LEB128 for the varints, and the plain bytes behind the multibase prefix for the
  base encoding; the signature of a message is the public key and the message's first bytes.
  Only the witnesses use it.
\<close>

fun leb_put :: "nat \<Rightarrow> bytes" where
  "leb_put n = (if n < 128 then [char_of n] else char_of (n mod 128 + 128) # leb_put (n div 128))"

fun leb_take :: "bytes \<Rightarrow> (nat \<times> nat) option" where
  "leb_take [] = None"
| "leb_take (b # bs) =
     (if of_char b < (128::nat) then Some (of_char b, 1)
      else (case leb_take bs of
              None \<Rightarrow> None
            | Some (v, k) \<Rightarrow> Some (of_char b - 128 + 128 * v, Suc k)))"

declare leb_put.simps [simp del]

definition leb_read :: "bytes \<Rightarrow> nat \<times> err option" where
  "leb_read b = (case leb_take b of None \<Rightarrow> (0, Some ''EOF'') | Some (v, k) \<Rightarrow> (v, None))"

definition leb_from :: "bytes \<Rightarrow> (nat \<times> nat) \<times> err option" where
  "leb_from b =
     (case leb_take b of
        None \<Rightarrow> ((0, 0), Some ''EOF'')
      | Some (v, k) \<Rightarrow> if take k b = leb_put v then ((v, k), None) else ((0, 0), Some ''varint not minimally encoded''))"

definition attestation_link :: "node \<Rightarrow> err + link" where
  "attestation_link n =
     (case n of
        NMap kvs \<Rightarrow>
          (case kvs of
             [(k, v)] \<Rightarrow>
               (case v of NLink l \<Rightarrow> if k = ''proof'' then Inr l else Inl ''invalid key'' | _ \<Rightarrow> Inl ''not a link'')
           | _ \<Rightarrow> Inl ''wrong number of fields'')
      | _ \<Rightarrow> Inl ''not a map'')"

lemma attestation_link_iff: "attestation_link n = Inr l \<longleftrightarrow> n = NMap [(''proof'', NLink l)]"
  by (auto simp: attestation_link_def split: node.splits list.splits if_splits)

fun esc_dot :: "bytes \<Rightarrow> string" where
  "esc_dot [] = []"
| "esc_dot (c # cs) =
     (if c = CHR ''.'' then CHR ''b'' # esc_dot cs else CHR ''a'' # c # esc_dot cs)"

lemma esc_dot_inj: "esc_dot a = esc_dot b \<Longrightarrow> a = b"
proof (induction a arbitrary: b)
  case Nil
  then show ?case by (cases b) (auto split: if_splits)
next
  case (Cons c cs)
  then show ?case by (cases b) (auto split: if_splits)
qed

lemma esc_dot_no_dot: "CHR ''.'' \<notin> set (esc_dot b)"
  by (induction b) auto

definition z_encode :: "bytes \<Rightarrow> string" where
  "z_encode b = CHR ''z'' # b"

definition z_decode :: "string \<Rightarrow> err + (char \<times> bytes)" where
  "z_decode s = (case s of [] \<Rightarrow> Inl ''cannot decode multibase for zero length string''
                 | c # b \<Rightarrow> Inr (c, b))"

definition lib0 :: extlib where
  "lib0 = \<lparr> mb_encode58 = z_encode, mb_decode = z_decode, uv_size = (\<lambda>n. length (leb_put n)),
            uv_put = leb_put, uv_read = leb_read, uv_from = leb_from,
            b64url = esc_dot,
            sha256sum = (\<lambda>b. take 32 (b @ replicate 32 (CHR 0x00))),
            ed_sign = (\<lambda>k m. drop 32 k @ take 32 (m @ replicate 32 (CHR 0x00))),
            ed_verify = (\<lambda>p m s. s = p @ take 32 (m @ replicate 32 (CHR 0x00))),
            pkcs1_parse_priv = Inr, pkcs1_parse_pub = Inr, pkcs1_marshal_pub = (\<lambda>k. k),
            rsa_sign = (\<lambda>k d. take 256 (k @ d)), rsa_verify = (\<lambda>p d s. s = take 256 (p @ d)),
            wrap_failure = (\<lambda>n m s. Inr (failure_node n m s)),
            wrap_attestation = (\<lambda>l. Inr (NMap [(''proof'', NLink l)])),
            rebind_attestation = attestation_link,
            policy_proof_equal = (\<lambda>l n. n = NMap [(''proof'', NLink l)]),
            url_parse = (\<lambda>s. Inl ''invalid URI''),
            mh_encode = (\<lambda>d c. char_of c # d), cid_v1 = (\<lambda>c m. char_of c # m),
            cid_codec = (\<lambda>_. 113), cid_version = (\<lambda>_. 1), cid_mhtype = (\<lambda>_. 18),
            cid_digest = Inr \<rparr>"

lemma leb_take_put: "leb_take (leb_put n @ rest) = Some (n, length (leb_put n))"
proof (induction n rule: leb_put.induct)
  case (1 n)
  show ?case
  proof (cases "n < 128")
    case True
    then show ?thesis by (simp add: leb_put.simps [of n] of_char_of)
  next
    case False
    with 1 have "leb_take (leb_put (n div 128) @ rest)
        = Some (n div 128, length (leb_put (n div 128)))" by simp
    moreover have "of_char (char_of (n mod 128 + 128) :: char) = n mod 128 + 128"
      by (simp add: of_char_of)
    ultimately show ?thesis using False by (simp add: leb_put.simps [of n])
  qed
qed

lemma leb_put_nonempty: "leb_put n \<noteq> []"
  by (subst leb_put.simps) simp

lemma small_uvarint [simp]: "n < 9223372036854775808 \<Longrightarrow> n < MaxUvarint"
  by (simp add: MaxUvarint_def)

theorem lib0_varint_ok: "varint_ok lib0"
  by (simp add: varint_ok_def lib0_def leb_read_def leb_from_def leb_take_put leb_put_nonempty)

theorem lib0_varint_minimal: "varint_minimal lib0"
  by (auto simp: varint_minimal_def lib0_def leb_from_def split: option.splits if_splits)

theorem lib0_ed25519_ok: "ed25519_ok lib0"
  by (auto simp: ed25519_ok_def lib0_def min_def)

theorem lib0_rsa_ok: "rsa_ok lib0"
  by (auto simp: rsa_ok_def lib0_def MaxUvarint_def)

theorem lib0_bindnode_ok: "bindnode_ok lib0"
  by (simp add: bindnode_ok_def lib0_def attestation_link_iff)

theorem lib0_varint_eof: "varint_eof lib0"
  by (simp add: varint_eof_def lib0_def leb_read_def leb_put.simps)

theorem lib0_base64_ok: "base64_ok lib0"
  by (auto simp: base64_ok_def lib0_def inj_def esc_dot_no_dot dest: esc_dot_inj)

theorem lib0_multibase_ok: "multibase_ok lib0"
  by (simp add: multibase_ok_def lib0_def z_encode_def z_decode_def Base58BTC_def)

end
