(* ===== verification/Did.thy ===== *)
theory Did
  imports External
begin

text \<open>
  did/did.go: decentralized identifiers. A DID is its multicodec-tagged byte string and a flag
  that says whether it is a did:key. \<open>did_Decode\<close> reads the tagged bytes, \<open>did_Parse\<close> the
  textual form, \<open>did_String\<close> prints it. Printing slices off the two tag bytes, so it panics on
  the undefined DID, whose byte string is empty. The lemmas show that printing and parsing are
  inverse on the well-formed DIDs (\<open>wf_did\<close>), and where two different DIDs print alike.
\<close>

section \<open>Data and constants\<close>

definition Prefix :: string where "Prefix = ''did:''"
definition KeyPrefix :: string where "KeyPrefix = ''did:key:''"

definition DIDCore :: nat where "DIDCore = 0x0d1d"
definition Ed25519 :: nat where "Ed25519 = 0xed"
definition RSA :: nat where "RSA = 0x1205"

definition MethodOffset :: "extlib \<Rightarrow> nat" where
  "MethodOffset L = uv_size L DIDCore"

datatype did = DID (did_key: bool) (did_str: bytes)

definition Undef :: did where
  "Undef = DID False []"

definition did_Defined :: "did \<Rightarrow> bool" where
  "did_Defined d \<longleftrightarrow> did_str d \<noteq> []"

definition did_Bytes :: "did \<Rightarrow> bytes" where
  "did_Bytes d = (if \<not> did_Defined d then [] else did_str d)"

section \<open>Operations\<close>

definition did_String :: "extlib \<Rightarrow> did \<Rightarrow> string comp" where
  "did_String L d =
     (if did_key d then Ret (''did:key:'' @ mb_encode58 L (did_str d))
      else cmap (\<lambda>s. ''did:'' @ s) (slice_from (MethodOffset L) (did_str d)))"

text \<open>The JSON value: null (\<open>None\<close>) or a string.\<close>

definition did_MarshalJSON :: "extlib \<Rightarrow> did \<Rightarrow> string option comp" where
  "did_MarshalJSON L d = (if d = Undef then Ret None else cmap Some (did_String L d))"

definition did_Decode :: "extlib \<Rightarrow> bytes \<Rightarrow> err + did" where
  "did_Decode L b =
     (case uv_from L b of
        (_, Some e) \<Rightarrow> Inl e
      | ((code, _), None) \<Rightarrow>
          if code = Ed25519 \<or> code = RSA then Inr (DID True b)
          else if code = DIDCore then Inr (DID False b)
          else Inl ''unsupported DID encoding'')"

definition did_Parse :: "extlib \<Rightarrow> string \<Rightarrow> err + did" where
  "did_Parse L str =
     (if \<not> HasPrefix str Prefix then Inl (''must start with '' @ squote @ ''did:'' @ squote)
      else if HasPrefix str KeyPrefix then
        (case mb_decode L (drop (length KeyPrefix) str) of
           Inl e \<Rightarrow> Inl e
         | Inr (code, bs) \<Rightarrow>
             if code \<noteq> Base58BTC then Inl ''not Base58BTC encoded'' else did_Decode L bs)
      else Inr (DID False
             (go_copy 0 (uv_put L DIDCore) (go_make (MethodOffset L)) @ drop (length Prefix) str)))"

text \<open>
  \<open>UnmarshalJSON\<close>: the argument is what \<open>json.Unmarshal\<close> into a string gave (null leaves the
  empty string); the result is the new value of the receiver.
\<close>

definition did_UnmarshalJSON :: "extlib \<Rightarrow> did \<Rightarrow> err + string option \<Rightarrow> err + did" where
  "did_UnmarshalJSON L d json =
     (case json of
        Inl e \<Rightarrow> Inl (''parsing string: '' @ e)
      | Inr v \<Rightarrow>
          (case v of
             None \<Rightarrow> Inr d
           | Some [] \<Rightarrow> Inr d
           | Some str \<Rightarrow>
               (case did_Parse L str of
                  Inl e \<Rightarrow> Inl (''parsing DID: '' @ e)
                | Inr parsed \<Rightarrow> Inr parsed)))"

section \<open>Well-formed DIDs\<close>

text \<open>
  A DID is well formed when its bytes carry the tag its flag promises, and a DID of another
  method does not claim to be a did:key in its text.
\<close>

definition wf_did :: "extlib \<Rightarrow> did \<Rightarrow> bool" where
  "wf_did L d \<longleftrightarrow>
     (if did_key d then \<exists>rest. did_str d = uv_put L Ed25519 @ rest \<or> did_str d = uv_put L RSA @ rest
      else \<exists>rest. did_str d = uv_put L DIDCore @ rest \<and> \<not> HasPrefix rest ''key:'')"

lemma codes_small [simp]:
  "DIDCore < MaxUvarint" "Ed25519 < MaxUvarint" "RSA < MaxUvarint"
  by (simp_all add: DIDCore_def Ed25519_def RSA_def MaxUvarint_def)

lemma codes_distinct [simp]:
  "DIDCore \<noteq> Ed25519" "DIDCore \<noteq> RSA" "Ed25519 \<noteq> RSA"
  by (simp_all add: DIDCore_def Ed25519_def RSA_def)

lemma key_prefix_prefix: "HasPrefix s KeyPrefix \<Longrightarrow> HasPrefix s Prefix"
  by (auto simp: HasPrefix_iff KeyPrefix_def Prefix_def)

lemma tag_written:
  assumes "varint_ok L"
  shows "go_copy 0 (uv_put L DIDCore) (go_make (MethodOffset L)) = uv_put L DIDCore"
  using assms by (simp add: go_copy_def MethodOffset_def)

lemma decode_tagged:
  assumes "varint_ok L"
  shows "did_Decode L (uv_put L Ed25519 @ r) = Inr (DID True (uv_put L Ed25519 @ r))"
    and "did_Decode L (uv_put L RSA @ r) = Inr (DID True (uv_put L RSA @ r))"
    and "did_Decode L (uv_put L DIDCore @ r) = Inr (DID False (uv_put L DIDCore @ r))"
  using assms by (simp_all add: did_Decode_def)

lemma string_core [simp]:
  assumes "varint_ok L"
  shows "did_String L (DID False (uv_put L DIDCore @ r)) = Ret (''did:'' @ r)"
proof -
  have "length (uv_put L DIDCore) = MethodOffset L"
    using assms by (simp add: MethodOffset_def)
  then have "slice_from (MethodOffset L) (uv_put L DIDCore @ r) = Ret r"
    by (metis slice_from_append)
  then show ?thesis by (simp add: did_String_def)
qed

lemma string_key [simp]: "did_String L (DID True b) = Ret (''did:key:'' @ mb_encode58 L b)"
  by (simp add: did_String_def)

lemma wf_did_cases:
  assumes "wf_did L d"
  obtains (key) b r where "d = DID True b" "b = uv_put L Ed25519 @ r \<or> b = uv_put L RSA @ r"
    | (other) r where "d = DID False (uv_put L DIDCore @ r)" "\<not> HasPrefix r ''key:''"
  using assms by (cases d) (auto simp: wf_did_def split: if_splits)

lemma parse_core:
  assumes "varint_ok L" and "\<not> HasPrefix r ''key:''"
  shows "did_Parse L (''did:'' @ r) = Inr (DID False (uv_put L DIDCore @ r))"
proof -
  have "HasPrefix (''did:'' @ r) Prefix" by (simp add: Prefix_def HasPrefix_def)
  moreover have "\<not> HasPrefix (''did:'' @ r) KeyPrefix"
    using assms(2) by (simp add: KeyPrefix_def HasPrefix_def)
  moreover have "drop (length Prefix) (''did:'' @ r) = r" by (simp add: Prefix_def)
  ultimately show ?thesis using assms(1) by (simp add: did_Parse_def tag_written)
qed

lemma parse_key:
  assumes "multibase_ok L"
  shows "did_Parse L (''did:key:'' @ mb_encode58 L b) = did_Decode L b"
proof -
  have "HasPrefix (''did:key:'' @ mb_encode58 L b) KeyPrefix" by (simp add: KeyPrefix_def HasPrefix_def)
  moreover have "drop (length KeyPrefix) (''did:key:'' @ mb_encode58 L b) = mb_encode58 L b"
    by (simp add: KeyPrefix_def)
  ultimately show ?thesis
    using assms key_prefix_prefix by (simp add: did_Parse_def)
qed

lemma parse_of_string:
  assumes "varint_ok L" and "multibase_ok L" and "wf_did L d"
  shows "\<exists>s. did_String L d = Ret s \<and> did_Parse L s = Inr d"
  using assms(3)
proof (cases rule: wf_did_cases)
  case (key b r)
  then show ?thesis using assms(1,2) by (auto simp: parse_key decode_tagged simp del: append.simps)
next
  case (other r)
  then show ?thesis using assms(1) by (simp add: parse_core del: append.simps)
qed

lemma did_string_inj:
  assumes "varint_ok L" "multibase_ok L" "wf_did L d" "wf_did L d'" "did_String L d = did_String L d'"
  shows "d = d'"
  using parse_of_string [OF assms(1-3)] parse_of_string [OF assms(1,2,4)] assms(5) by auto

text \<open>
  Printing and parsing are inverse on the well-formed DIDs: \<open>String\<close> does not panic, \<open>Parse\<close> of its
  result is the same DID, flag and bytes, and no other well-formed DID prints the same text.
\<close>

lemma did_string_parse:
  assumes "varint_ok L" and "multibase_ok L" and "wf_did L d"
  shows "\<exists>s. did_String L d = Ret s \<and> did_Parse L s = Inr d \<and>
             (\<forall>d'. wf_did L d' \<and> did_String L d' = Ret s \<longrightarrow> d' = d)"
  using parse_of_string [OF assms] did_string_inj [OF assms(1,2) _ assms(3)] by metis

section \<open>The DIDs the package makes\<close>

text \<open>
  The values of the type that leave the package: the undefined DID, and what \<open>Decode\<close>, \<open>Parse\<close> and
  \<open>UnmarshalJSON\<close> of such a value give.
\<close>

inductive did_made :: "extlib \<Rightarrow> did \<Rightarrow> bool" for L where
  undef: "did_made L Undef"
| decoded: "did_Decode L b = Inr d \<Longrightarrow> did_made L d"
| parsed: "did_Parse L s = Inr d \<Longrightarrow> did_made L d"
| unmarshalled: "did_made L d0 \<Longrightarrow> did_UnmarshalJSON L d0 json = Inr d \<Longrightarrow> did_made L d"

text \<open>The type of a defined DID: its bytes carry the tag its flag promises.\<close>

definition did_tagged :: "extlib \<Rightarrow> did \<Rightarrow> bool" where
  "did_tagged L d \<longleftrightarrow>
     (\<exists>code rest. did_str d = uv_put L code @ rest \<and>
        (if did_key d then code = Ed25519 \<or> code = RSA else code = DIDCore))"

lemma decode_tags:
  assumes "varint_minimal L" "did_Decode L b = Inr d"
  shows "did_tagged L d"
proof -
  obtain code k where u: "uv_from L b = ((code, k), None)"
    using assms(2) by (auto simp: did_Decode_def split: prod.splits option.splits)
  then have "b = uv_put L code @ drop k b"
    using assms(1) by (metis append_take_drop_id varint_minimal_def)
  with u show ?thesis
    using assms(2) unfolding did_Decode_def did_tagged_def by (auto split: if_splits intro!: exI [of _ code])
qed

lemma core_tagged: "did_tagged L (DID False (uv_put L DIDCore @ r))"
  by (auto simp: did_tagged_def)

lemma parse_tags:
  assumes "varint_ok L" "varint_minimal L" "did_Parse L s = Inr d"
  shows "did_tagged L d"
  using assms decode_tags [OF assms(2)] core_tagged
  by (auto simp: did_Parse_def tag_written split: if_splits sum.splits)

lemma made_tagged:
  assumes "varint_ok L" "varint_minimal L" "did_made L d"
  shows "d = Undef \<or> did_tagged L d"
  using assms(3)
proof induction
  case (unmarshalled d0 json d)
  then show ?case
    using parse_tags [OF assms(1,2)]
    by (auto simp: did_UnmarshalJSON_def split: sum.splits option.splits list.splits)
qed (use decode_tags [OF assms(2)] parse_tags [OF assms(1,2)] in auto)

lemma tagged_cases:
  assumes "did_tagged L d"
  obtains (key) b r where "d = DID True b" "b = uv_put L Ed25519 @ r \<or> b = uv_put L RSA @ r"
    | (other) r where "d = DID False (uv_put L DIDCore @ r)"
  using assms by (cases d) (auto simp: did_tagged_def split: if_splits)

lemma tag_nonempty: "varint_ok L \<Longrightarrow> n < MaxUvarint \<Longrightarrow> uv_put L n \<noteq> []"
  using varint_size_pos [of L n] varint_length [of L n] by (metis length_0_conv less_nat_zero_code)

lemma tagged_defined: "varint_ok L \<Longrightarrow> did_tagged L d \<Longrightarrow> did_Defined d"
  by (erule tagged_cases) (auto simp: did_Defined_def tag_nonempty)

text \<open>
  C39. The type of a DID. Every DID the package makes is the undefined one or carries the tag its flag
  promises. A defined one prints; reading its text gives the same DID back, unless it is a DID of
  another method whose text passes for a did:key; and of two DIDs of the same flag that print the same
  text, both are the same.
\<close>

theorem dids_typed:
  assumes "varint_ok L" "varint_minimal L" "multibase_ok L" and "did_made L d"
  shows "(did_Defined d \<longleftrightarrow> did_tagged L d) \<and> (\<not> did_Defined d \<longrightarrow> d = Undef) \<and>
         (did_Defined d \<longrightarrow>
            (\<exists>s. did_String L d = Ret s \<and> HasPrefix s Prefix \<and>
                 (did_Parse L s = Inr d \<or> \<not> did_key d \<and> HasPrefix s KeyPrefix) \<and>
                 (\<forall>d'. did_made L d' \<and> did_key d' = did_key d \<and> did_String L d' = Ret s \<longrightarrow> d' = d)))"
proof -
  have t: "did_Defined x \<longleftrightarrow> did_tagged L x" "\<not> did_Defined x \<longrightarrow> x = Undef" if "did_made L x" for x
    using made_tagged [OF assms(1,2) that] tagged_defined [OF assms(1), of x]
    by (auto simp: did_Defined_def Undef_def)
  have str: "\<exists>s. did_String L x = Ret s \<and> HasPrefix s Prefix \<and> (did_Parse L s = Inr x \<or> \<not> did_key x \<and> HasPrefix s KeyPrefix)"
    if "did_tagged L x" for x
    using that
  proof (cases rule: tagged_cases)
    case (key b r)
    then show ?thesis
      using assms(1,3) by (auto simp: parse_key decode_tagged Prefix_def HasPrefix_def simp del: append.simps)
  next
    case (other r)
    show ?thesis
    proof (cases "HasPrefix r ''key:''")
      case True
      then show ?thesis using assms(1) other by (auto simp: Prefix_def KeyPrefix_def HasPrefix_def)
    next
      case False
      from parse_core [OF assms(1) this] show ?thesis using assms(1) other by (simp add: Prefix_def HasPrefix_def)
    qed
  qed
  have inj: "y = x" if "did_tagged L x" "did_tagged L y" "did_key y = did_key x" "did_String L x = Ret s" "did_String L y = Ret s" for x y s
    using that assms(1,3) by (elim tagged_cases) auto
  have undef: "did_String L Undef \<noteq> Ret s" for s
    using varint_size_pos [OF assms(1) codes_small(1)] by (simp add: did_String_def Undef_def MethodOffset_def slice_from_Panic)
  show ?thesis using t [OF assms(4)] t str inj undef assms(4) by metis
qed

theorem dids_typed_witness:
  "\<exists>d s. did_Parse lib0 ''did:web:a'' = Inr d \<and> did_Defined d \<and> did_tagged lib0 d \<and> did_String lib0 d = Ret s \<and> did_Parse lib0 s = Inr d"
proof -
  have p: "did_Parse lib0 ''did:web:a'' = Inr (DID False (uv_put lib0 DIDCore @ ''web:a''))"
    using parse_core [OF lib0_varint_ok, of "''web:a''"] by (simp add: HasPrefix_def)
  from dids_typed [OF lib0_varint_ok lib0_varint_minimal lib0_multibase_ok parsed [OF p]]
  have "did_Defined (DID False (uv_put lib0 DIDCore @ ''web:a'')) \<Longrightarrow> ?thesis"
    using p parse_core [OF lib0_varint_ok, of "''web:a''"] string_core [OF lib0_varint_ok, of "''web:a''"]
    by (auto simp: HasPrefix_def)
  then show ?thesis by (simp add: did_Defined_def)
qed

text \<open>
  Off the well-formed DIDs the text does not determine the DID: bytes tagged as another
  method whose text starts with \<open>key:\<close> decode to a DID that prints exactly like a did:key, and
  the two are different values of the struct the code compares with \<open>==\<close>.
\<close>

theorem did_string_confusion:
  assumes "varint_ok L"
  shows "\<exists>d d'. did_Decode L (uv_put L Ed25519 @ k) = Inr d \<and>
           did_Decode L (uv_put L DIDCore @ ''key:'' @ mb_encode58 L (uv_put L Ed25519 @ k)) = Inr d' \<and>
           did_String L d = did_String L d' \<and> d \<noteq> d'"
  using assms by (simp add: decode_tagged)

theorem did_string_confusion_witness:
  "\<exists>d d'. did_Decode lib0 (uv_put lib0 Ed25519 @ ''k'') = Inr d \<and>
     did_Decode lib0 (uv_put lib0 DIDCore @ ''key:'' @ mb_encode58 lib0 (uv_put lib0 Ed25519 @ ''k'')) = Inr d' \<and>
     did_String lib0 d = did_String lib0 d' \<and> d \<noteq> d'"
  by (rule did_string_confusion [OF lib0_varint_ok])

lemma decode_flag: "did_Decode L b = Inr d \<Longrightarrow> did_str d = b"
  by (auto simp: did_Decode_def split: prod.splits option.splits if_splits)

end
