(* ===== verification/Signature.thy ===== *)
theory Signature
  imports Did
begin

text \<open>
  ucan/crypto/signature/signature.go: a signature is one byte string, the varint code of its
  algorithm, the varint length of the raw signature, the raw signature and, for non-standard
  signatures, the algorithm's name. \<open>Code\<close>, \<open>Size\<close> and \<open>Raw\<close> read it back by slicing, so on a
  truncated signature \<open>Size\<close> and \<open>Raw\<close> panic. Buffers are allocated from the same
  \<open>UvarintSize\<close> the writes use, so the writes fit.
\<close>

type_synonym signature = bytes

section \<open>Algorithm codes\<close>

definition NON_STANDARD :: nat where "NON_STANDARD = 0xd000"
definition ES256K :: nat where "ES256K = 0xd0e7"
definition BLS12381G1 :: nat where "BLS12381G1 = 0xd0ea"
definition BLS12381G2 :: nat where "BLS12381G2 = 0xd0eb"
definition EdDSA :: nat where "EdDSA = 0xd0ed"
definition ES256 :: nat where "ES256 = 0xd01200"
definition ES384 :: nat where "ES384 = 0xd01201"
definition ES512 :: nat where "ES512 = 0xd01202"
definition RS256 :: nat where "RS256 = 0xd01205"
definition EIP191 :: nat where "EIP191 = 0xd191"

lemmas code_defs = NON_STANDARD_def ES256K_def BLS12381G1_def BLS12381G2_def EdDSA_def
  ES256_def ES384_def ES512_def RS256_def EIP191_def

definition CodeName :: "nat \<Rightarrow> err + string" where
  "CodeName code =
     (if code = ES256K then Inr ''ES256K''
      else if code = BLS12381G1 then Inr ''BLS12381G1''
      else if code = BLS12381G2 then Inr ''BLS12381G2''
      else if code = EdDSA then Inr ''EdDSA''
      else if code = ES256 then Inr ''ES256''
      else if code = ES384 then Inr ''ES384''
      else if code = ES512 then Inr ''ES512''
      else if code = RS256 then Inr ''RS256''
      else if code = EIP191 then Inr ''EIP191''
      else Inl ''unknown signature algorithm code'')"

definition NameCode :: "string \<Rightarrow> err + nat" where
  "NameCode name =
     (if name = ''ES256K'' then Inr ES256K
      else if name = ''BLS12381G1'' then Inr BLS12381G1
      else if name = ''BLS12381G2'' then Inr BLS12381G2
      else if name = ''EdDSA'' then Inr EdDSA
      else if name = ''ES256'' then Inr ES256
      else if name = ''ES384'' then Inr ES384
      else if name = ''ES512'' then Inr ES512
      else if name = ''RS256'' then Inr RS256
      else if name = ''EIP191'' then Inr EIP191
      else Inr NON_STANDARD)"

section \<open>Writing\<close>

definition NewSignature :: "extlib \<Rightarrow> nat \<Rightarrow> bytes \<Rightarrow> signature" where
  "NewSignature L code raw =
     (let cl = uv_size L code;
          rl = uv_size L (length raw);
          sig = go_make (cl + rl + length raw);
          sig = go_copy 0 (uv_put L code) sig;
          sig = go_copy cl (uv_put L (length raw)) sig
      in go_copy (cl + rl) raw sig)"

definition NewNonStandard :: "extlib \<Rightarrow> string \<Rightarrow> bytes \<Rightarrow> signature" where
  "NewNonStandard L name raw =
     (let code = NON_STANDARD;
          cl = uv_size L code;
          rl = uv_size L (length raw);
          sig = go_make (cl + rl + length raw + length name);
          sig = go_copy 0 (uv_put L code) sig;
          sig = go_copy cl (uv_put L (length raw)) sig;
          sig = go_copy (cl + rl) raw sig
      in go_copy (cl + rl + length raw) name sig)"

section \<open>Reading\<close>

definition sig_Code :: "extlib \<Rightarrow> signature \<Rightarrow> nat" where
  "sig_Code L s = fst (uv_read L s)"

definition sig_Size :: "extlib \<Rightarrow> signature \<Rightarrow> nat comp" where
  "sig_Size L s = cmap (\<lambda>r. fst (uv_read L r)) (slice_from (uv_size L (sig_Code L s)) s)"

definition sig_Raw :: "extlib \<Rightarrow> signature \<Rightarrow> bytes comp" where
  "sig_Raw L s =
     (let cl = uv_size L (sig_Code L s)
      in cbind (sig_Size L s) (\<lambda>n. slice_from (cl + uv_size L n) s))"

definition sig_Bytes :: "signature \<Rightarrow> bytes" where
  "sig_Bytes s = s"

text \<open>\<open>NewSignatureView\<close> converts the type and keeps the bytes; \<open>Encode\<close> and \<open>Decode\<close> too.\<close>

definition NewSignatureView :: "signature \<Rightarrow> signature" where
  "NewSignatureView s = sig_Bytes s"

definition sig_Decode :: "bytes \<Rightarrow> signature" where
  "sig_Decode b = b"

text \<open>\<open>signatureView.Verify\<close> hands the message and the signature to the verifier.\<close>

definition sigview_Verify :: "signature \<Rightarrow> bytes \<Rightarrow> (bytes \<Rightarrow> signature \<Rightarrow> bool comp) \<Rightarrow> bool comp" where
  "sigview_Verify v msg signer = signer msg v"

section \<open>What the bytes are\<close>

lemma codes_bounded [simp]:
  "NON_STANDARD < MaxUvarint" "EdDSA < MaxUvarint" "RS256 < MaxUvarint"
  by (simp_all add: code_defs MaxUvarint_def)

lemma new_nonstandard_bytes:
  assumes "varint_ok L" "length raw < MaxUvarint"
  shows "NewNonStandard L name raw = uv_put L NON_STANDARD @ uv_put L (length raw) @ raw @ name"
proof -
  let ?c = "uv_put L NON_STANDARD" and ?n = "uv_put L (length raw)"
  have l: "length ?c = uv_size L NON_STANDARD" "length ?n = uv_size L (length raw)"
    using assms by simp_all
  have "NewNonStandard L name raw =
      go_copy (length ((?c @ ?n) @ raw)) name
        (go_copy (length (?c @ ?n)) raw
          (go_copy (length ?c) ?n
            (go_copy 0 ?c (go_make (length ?c + (length ?n + (length raw + length name)))))))"
    by (simp only: NewNonStandard_def Let_def l length_append add.assoc)
  also have "\<dots> = ((?c @ ?n) @ raw) @ name"
    by (simp only: go_copy_fill0 go_copy_fill [OF refl] go_copy_fill_all [OF refl])
  finally show ?thesis by simp
qed

lemma new_signature_bytes:
  assumes "varint_ok L" "code < MaxUvarint" "length raw < MaxUvarint"
  shows "NewSignature L code raw = uv_put L code @ uv_put L (length raw) @ raw"
proof -
  let ?c = "uv_put L code" and ?n = "uv_put L (length raw)"
  have l: "length ?c = uv_size L code" "length ?n = uv_size L (length raw)"
    using assms by simp_all
  have "NewSignature L code raw =
      go_copy (length (?c @ ?n)) raw
        (go_copy (length ?c) ?n (go_copy 0 ?c (go_make (length ?c + (length ?n + length raw)))))"
    by (simp only: NewSignature_def Let_def l length_append add.assoc)
  also have "\<dots> = (?c @ ?n) @ raw"
    by (simp only: go_copy_fill0 go_copy_fill [OF refl] go_copy_fill_all [OF refl])
  finally show ?thesis by simp
qed

lemma sig_read:
  assumes "varint_ok L" "code < MaxUvarint" "n < MaxUvarint"
  shows "sig_Code L (uv_put L code @ uv_put L n @ r) = code"
    and "sig_Size L (uv_put L code @ uv_put L n @ r) = Ret n"
    and "sig_Raw L (uv_put L code @ uv_put L n @ r) = Ret r"
proof -
  show 1: "sig_Code L (uv_put L code @ uv_put L n @ r) = code"
    using assms by (simp add: sig_Code_def)
  show 2: "sig_Size L (uv_put L code @ uv_put L n @ r) = Ret n"
    using assms by (simp add: sig_Size_def 1)
  show "sig_Raw L (uv_put L code @ uv_put L n @ r) = Ret r"
    using assms by (simp add: sig_Raw_def 1 2)
qed

text \<open>
  A signature reads back what it was built from: the code, the size and the raw bytes, and
  it is as long as its three parts.
\<close>

theorem signature_roundtrip:
  assumes "varint_ok L" "code < MaxUvarint" "length raw < MaxUvarint"
  shows "sig_Code L (NewSignature L code raw) = code \<and>
         sig_Size L (NewSignature L code raw) = Ret (length raw) \<and>
         sig_Raw L (NewSignature L code raw) = Ret raw \<and>
         length (NewSignature L code raw) = uv_size L code + uv_size L (length raw) + length raw"
  using assms by (simp add: new_signature_bytes sig_read)

theorem signature_roundtrip_witness:
  "sig_Code lib0 (NewSignature lib0 EdDSA ''abc'') = EdDSA \<and>
   sig_Size lib0 (NewSignature lib0 EdDSA ''abc'') = Ret (length ''abc'') \<and>
   sig_Raw lib0 (NewSignature lib0 EdDSA ''abc'') = Ret ''abc'' \<and>
   length (NewSignature lib0 EdDSA ''abc'')
     = uv_size lib0 EdDSA + uv_size lib0 (length ''abc'') + length ''abc''"
  by (rule signature_roundtrip [OF lib0_varint_ok]) simp_all

text \<open>
  \<open>Raw\<close> of a non-standard signature is the raw signature followed by the algorithm's name:
  the recorded size is the length of the raw part only, and \<open>Raw\<close> does not use it to stop.
\<close>

theorem nonstandard_raw_has_name:
  assumes "varint_ok L" "length raw < MaxUvarint"
  shows "sig_Code L (NewNonStandard L name raw) = NON_STANDARD \<and>
         sig_Size L (NewNonStandard L name raw) = Ret (length raw) \<and>
         sig_Raw L (NewNonStandard L name raw) = Ret (raw @ name)"
  using assms by (simp add: new_nonstandard_bytes sig_read)

theorem nonstandard_raw_has_name_witness:
  "sig_Code lib0 (NewNonStandard lib0 ''n'' ''abc'') = NON_STANDARD \<and>
   sig_Size lib0 (NewNonStandard lib0 ''n'' ''abc'') = Ret (length ''abc'') \<and>
   sig_Raw lib0 (NewNonStandard lib0 ''n'' ''abc'') = Ret (''abc'' @ ''n'')"
  by (rule nonstandard_raw_has_name [OF lib0_varint_ok]) simp

text \<open>
  A signature that ends right after its algorithm code: the code reads as usual, \<open>Size\<close> is 0,
  and \<open>Raw\<close> slices one byte past the end.
\<close>

lemma truncated_raw_panics:
  assumes "varint_ok L" "varint_eof L" "code < MaxUvarint"
  shows "sig_Code L (uv_put L code) = code \<and>
         sig_Raw L (uv_put L code) = Panic ''slice bounds out of range''"
proof -
  have code: "sig_Code L (uv_put L code) = code"
    using assms varint_read [of L code "[]"] by (simp add: sig_Code_def)
  moreover have "sig_Size L (uv_put L code) = Ret 0"
    using assms by (simp add: sig_Size_def code varint_eof_def)
  ultimately show ?thesis
    using assms by (simp add: sig_Raw_def slice_from_Panic varint_eof_def)
qed

text \<open>The names of the standard codes read back, and the non-standard code has no name.\<close>

lemma name_code_name: "CodeName c = Inr n \<Longrightarrow> NameCode n = Inr c"
  by (auto simp: CodeName_def NameCode_def split: if_splits)

lemma nonstandard_no_name: "\<exists>e. CodeName NON_STANDARD = Inl e"
  by (simp add: CodeName_def code_defs)

lemma name_code_total: "\<exists>c. NameCode n = Inr c"
  by (simp add: NameCode_def)

end
