(* ===== verification/Principal.thy ===== *)
theory Principal
  imports Signature
begin

text \<open>
  principal/: signers and verifiers. \<open>TagWith\<close> and \<open>UntagWith\<close> (multiformat) put the multicodec
  tag before key bytes and take it off; an Ed25519 signer is one tagged byte string with both
  keys, a verifier the tagged public key; RSA keeps the parsed key beside the bytes; \<open>Wrap\<close>
  gives a did:key principal another DID; the absentee signer signs nothing. The interface
  \<open>principal.Verifier\<close> is the record \<open>verifier\<close>. The locale \<open>signature_scheme\<close> is the contract
  of a signer and its verifier, interpreted on the Ed25519 and the RSA implementation.
\<close>

section \<open>multiformat\<close>

definition TagWith :: "extlib \<Rightarrow> nat \<Rightarrow> bytes \<Rightarrow> bytes" where
  "TagWith L code bs =
     (let offset = uv_size L code;
          tagged = go_make (length bs + offset);
          tagged = go_copy 0 (uv_put L code) tagged
      in go_copy offset bs tagged)"

definition UntagWith :: "extlib \<Rightarrow> nat \<Rightarrow> bytes \<Rightarrow> nat \<Rightarrow> (err + bytes) comp" where
  "UntagWith L code source offset =
     cbind (if offset \<noteq> 0 then slice_from offset source else Ret source)
       (\<lambda>b. case uv_read L b of
              (_, Some e) \<Rightarrow> Ret (Inl e)
            | (tag, None) \<Rightarrow>
                if tag \<noteq> code then Ret (Inl ''expected multiformat tag'')
                else cmap Inr (slice_from (uv_size L code) b))"

lemma tag_with_bytes:
  assumes "varint_ok L" "code < MaxUvarint"
  shows "TagWith L code b = uv_put L code @ b"
proof -
  let ?c = "uv_put L code"
  have l: "length ?c = uv_size L code" using assms by simp
  have "TagWith L code b = go_copy (length ?c) b (go_copy 0 ?c (go_make (length ?c + length b)))"
    by (simp only: TagWith_def Let_def l add.commute)
  then show ?thesis by (simp only: go_copy_fill0 go_copy_fill_all [OF refl])
qed

lemma untag_tagged:
  assumes "varint_ok L" "code < MaxUvarint"
  shows "UntagWith L code (uv_put L code @ b) 0 = Ret (Inr b)"
proof -
  have "slice_from (uv_size L code) (uv_put L code @ b) = Ret b"
    by (metis assms slice_from_append varint_length)
  then show ?thesis using assms by (simp add: UntagWith_def)
qed

lemma untag_other:
  assumes "varint_ok L" "code' < MaxUvarint" "code' \<noteq> code"
  shows "UntagWith L code (uv_put L code' @ b) 0 = Ret (Inl ''expected multiformat tag'')"
  using assms by (simp add: UntagWith_def)

section \<open>The verifier interface\<close>

text \<open>\<open>principal.Verifier\<close>: the DID, the key's code and encodings, and signature verification.\<close>

record verifier =
  vf_Code :: nat
  vf_DID :: did
  vf_Encode :: bytes
  vf_Raw :: "bytes comp"
  vf_Verify :: "bytes \<Rightarrow> signature \<Rightarrow> bool comp"

text \<open>\<open>ucan.Signer\<close>: the DID, the signature algorithm and its name, and signing.\<close>

record signer =
  sg_DID :: did
  sg_SignatureCode :: nat
  sg_SignatureAlgorithm :: string
  sg_Sign :: "bytes \<Rightarrow> signature comp"

section \<open>Ed25519\<close>

definition edv_Code :: nat where "edv_Code = 0xed"
definition eds_Code :: nat where "eds_Code = 0x1300"
definition ed_SignatureAlgorithm :: string where "ed_SignatureAlgorithm = ''EdDSA''"
definition ed_keySize :: nat where "ed_keySize = 32"

definition edv_size :: "extlib \<Rightarrow> nat" where
  "edv_size L = uv_size L edv_Code + ed_keySize"

definition ed_pubKeyOffset :: "extlib \<Rightarrow> nat" where
  "ed_pubKeyOffset L = uv_size L eds_Code + ed_keySize"

definition eds_size :: "extlib \<Rightarrow> nat" where
  "eds_size L = uv_size L eds_Code + ed_keySize + uv_size L edv_Code + ed_keySize"

text \<open>A \<open>did.Decode\<close> whose error is dropped gives the undefined DID.\<close>

definition decode_or_undef :: "extlib \<Rightarrow> bytes \<Rightarrow> did" where
  "decode_or_undef L b = (case did_Decode L b of Inl _ \<Rightarrow> Undef | Inr d \<Rightarrow> d)"

subsection \<open>The verifier\<close>

definition edv_Decode :: "extlib \<Rightarrow> bytes \<Rightarrow> err + bytes" where
  "edv_Decode L b =
     (if length b \<noteq> edv_size L then Inl ''invalid length''
      else (case uv_read L b of
              (_, Some e) \<Rightarrow> Inl (''reading public key codec: '' @ e)
            | (puc, None) \<Rightarrow>
                if puc \<noteq> edv_Code then Inl ''invalid public key codec''
                else Inr (go_copy 0 b (go_make (edv_size L)))))"

definition edv_Parse :: "extlib \<Rightarrow> string \<Rightarrow> err + bytes" where
  "edv_Parse L str =
     (case did_Parse L str of
        Inl e \<Rightarrow> Inl (''parsing DID: '' @ e)
      | Inr d \<Rightarrow> edv_Decode L (did_Bytes d))"

definition edv_FromRaw :: "extlib \<Rightarrow> bytes \<Rightarrow> err + bytes" where
  "edv_FromRaw L b = (if length b \<noteq> 32 then Inl ''invalid length'' else Inr (TagWith L edv_Code b))"

definition edv_Verify :: "extlib \<Rightarrow> bytes \<Rightarrow> bytes \<Rightarrow> signature \<Rightarrow> bool comp" where
  "edv_Verify L v msg sig =
     (if sig_Code L sig \<noteq> EdDSA then Ret False
      else cbind (slice_from (uv_size L edv_Code) v) (\<lambda>pub.
           cbind (sig_Raw L sig) (\<lambda>raw.
             if length pub \<noteq> 32 then Panic ''ed25519: bad public key length''
             else Ret (ed_verify L pub msg raw))))"

definition edv_DID :: "extlib \<Rightarrow> bytes \<Rightarrow> did" where
  "edv_DID L v = decode_or_undef L v"

definition edv_Raw :: "extlib \<Rightarrow> bytes \<Rightarrow> bytes comp" where
  "edv_Raw L v = cmap (\<lambda>k. go_copy 0 k (go_make 32)) (slice_from (uv_size L edv_Code) v)"

definition edv_verifier :: "extlib \<Rightarrow> bytes \<Rightarrow> verifier" where
  "edv_verifier L v = \<lparr> vf_Code = edv_Code, vf_DID = edv_DID L v, vf_Encode = v,
                        vf_Raw = edv_Raw L v, vf_Verify = edv_Verify L v \<rparr>"

subsection \<open>The signer\<close>

text \<open>\<open>Generate\<close> is \<open>FromRaw\<close> on a key pair from the random source.\<close>

definition eds_Generate :: "extlib \<Rightarrow> bytes \<Rightarrow> bytes \<Rightarrow> bytes" where
  "eds_Generate L pub priv =
     (let s = go_make (eds_size L);
          s = go_copy 0 (uv_put L eds_Code) s;
          s = go_copy (uv_size L eds_Code) priv s;
          s = go_copy (ed_pubKeyOffset L) (uv_put L edv_Code) s
      in go_copy (ed_pubKeyOffset L + uv_size L edv_Code) pub s)"

definition eds_FromRaw :: "extlib \<Rightarrow> bytes \<Rightarrow> err + bytes" where
  "eds_FromRaw L b =
     (if length b \<noteq> 64 then Inl ''invalid length''
      else (let s = go_make (eds_size L);
                s = go_copy 0 (uv_put L eds_Code) s;
                s = go_copy (uv_size L eds_Code) (take 32 b) s;
                s = go_copy (ed_pubKeyOffset L) (uv_put L edv_Code) s
            in Inr (go_copy (ed_pubKeyOffset L + uv_size L edv_Code) (take 32 (drop 32 b)) s)))"

definition eds_Decode :: "extlib \<Rightarrow> bytes \<Rightarrow> (err + bytes) comp" where
  "eds_Decode L b =
     (if length b \<noteq> eds_size L then Ret (Inl ''invalid length'')
      else (case uv_read L b of
              (_, Some e) \<Rightarrow> Ret (Inl (''reading private key codec: '' @ e))
            | (prc, None) \<Rightarrow>
                if prc \<noteq> eds_Code then Ret (Inl ''invalid private key codec'')
                else cbind (slice_from (ed_pubKeyOffset L) b) (\<lambda>pb.
                  case uv_read L pb of
                    (_, Some e) \<Rightarrow> Ret (Inl (''reading public key codec: '' @ e))
                  | (puc, None) \<Rightarrow>
                      if puc \<noteq> edv_Code then Ret (Inl ''invalid public key codec'')
                      else (case edv_Decode L pb of
                              Inl e \<Rightarrow> Ret (Inl (''decoding public key: '' @ e))
                            | Inr _ \<Rightarrow> Ret (Inr (go_copy 0 b (go_make (eds_size L))))))))"

definition eds_Verifier :: "extlib \<Rightarrow> bytes \<Rightarrow> verifier comp" where
  "eds_Verifier L s = cmap (edv_verifier L) (slice_from (ed_pubKeyOffset L) s)"

definition eds_DID :: "extlib \<Rightarrow> bytes \<Rightarrow> did comp" where
  "eds_DID L s = cmap (decode_or_undef L) (slice_from (ed_pubKeyOffset L) s)"

definition eds_Raw :: "extlib \<Rightarrow> bytes \<Rightarrow> bytes comp" where
  "eds_Raw L s =
     (let pk = go_make 64; pto = ed_pubKeyOffset L + uv_size L edv_Code
      in cbind (slice_range (uv_size L eds_Code) (ed_pubKeyOffset L) s) (\<lambda>a.
         cbind (slice_range pto (pto + ed_keySize) s) (\<lambda>b.
           Ret (go_copy 32 (take 32 b) (go_copy 0 (take 32 a) pk)))))"

definition eds_Sign :: "extlib \<Rightarrow> bytes \<Rightarrow> bytes \<Rightarrow> signature comp" where
  "eds_Sign L s msg =
     cmap (\<lambda>k. NewSignatureView (NewSignature L EdDSA (ed_sign L k msg))) (eds_Raw L s)"

definition eds_signer :: "extlib \<Rightarrow> bytes \<Rightarrow> signer comp" where
  "eds_signer L s =
     cmap (\<lambda>d. \<lparr> sg_DID = d, sg_SignatureCode = EdDSA,
                   sg_SignatureAlgorithm = ed_SignatureAlgorithm, sg_Sign = eds_Sign L s \<rparr>)
          (eds_DID L s)"

section \<open>RSA\<close>

definition rsav_Code :: nat where "rsav_Code = 0x1205"
definition rsas_Code :: nat where "rsas_Code = 0x1305"

record rsa_verifier =
  rv_bytes :: bytes
  rv_pubKey :: bytes

record rsa_signer =
  rs_bytes :: bytes
  rs_privKey :: bytes
  rs_verifier :: rsa_verifier

definition rsav_Decode :: "extlib \<Rightarrow> bytes \<Rightarrow> (err + rsa_verifier) comp" where
  "rsav_Decode L b =
     cmap (\<lambda>u. case u of
                 Inl e \<Rightarrow> Inl e
               | Inr utb \<Rightarrow>
                   (case pkcs1_parse_pub L utb of
                      Inl e \<Rightarrow> Inl (''parsing public key: '' @ e)
                    | Inr pub \<Rightarrow> Inr \<lparr> rv_bytes = b, rv_pubKey = pub \<rparr>))
          (UntagWith L rsav_Code b 0)"

definition rsav_Parse :: "extlib \<Rightarrow> string \<Rightarrow> (err + rsa_verifier) comp" where
  "rsav_Parse L str =
     (case did_Parse L str of
        Inl e \<Rightarrow> Ret (Inl (''parsing DID: '' @ e))
      | Inr d \<Rightarrow> rsav_Decode L (did_Bytes d))"

definition rsav_FromRaw :: "extlib \<Rightarrow> bytes \<Rightarrow> err + rsa_verifier" where
  "rsav_FromRaw L b =
     (let tb = TagWith L rsav_Code b
      in case pkcs1_parse_pub L b of
           Inl e \<Rightarrow> Inl (''parsing public key: '' @ e)
         | Inr pub \<Rightarrow> Inr \<lparr> rv_bytes = tb, rv_pubKey = pub \<rparr>)"

definition rsav_Verify :: "extlib \<Rightarrow> rsa_verifier \<Rightarrow> bytes \<Rightarrow> signature \<Rightarrow> bool comp" where
  "rsav_Verify L v msg sig =
     (if sig_Code L sig \<noteq> RS256 then Ret False
      else (let digest = sha256sum L msg
            in cmap (\<lambda>raw. rsa_verify L (rv_pubKey v) digest raw) (sig_Raw L sig)))"

definition rsav_DID :: "extlib \<Rightarrow> rsa_verifier \<Rightarrow> did" where
  "rsav_DID L v = decode_or_undef L (rv_bytes v)"

text \<open>\<open>Raw\<close> drops the error of \<open>UntagWith\<close>, which returns nil bytes with it.\<close>

definition rsav_Raw :: "extlib \<Rightarrow> rsa_verifier \<Rightarrow> bytes comp" where
  "rsav_Raw L v = cmap (case_sum (\<lambda>_. []) (\<lambda>b. b)) (UntagWith L rsav_Code (rv_bytes v) 0)"

definition rsav_verifier :: "extlib \<Rightarrow> rsa_verifier \<Rightarrow> verifier" where
  "rsav_verifier L v = \<lparr> vf_Code = rsav_Code, vf_DID = rsav_DID L v, vf_Encode = rv_bytes v,
                         vf_Raw = rsav_Raw L v, vf_Verify = rsav_Verify L v \<rparr>"

definition rsas_Decode :: "extlib \<Rightarrow> bytes \<Rightarrow> (err + rsa_signer) comp" where
  "rsas_Decode L b =
     cbind (UntagWith L rsas_Code b 0) (\<lambda>u.
       case u of
         Inl e \<Rightarrow> Ret (Inl e)
       | Inr utb \<Rightarrow>
           (case pkcs1_parse_priv L utb of
              Inl e \<Rightarrow> Ret (Inl (''parsing private key: '' @ e))
            | Inr priv \<Rightarrow>
                (let pubbytes = TagWith L rsav_Code (pkcs1_marshal_pub L priv)
                 in cmap (\<lambda>r. case r of
                                 Inl e \<Rightarrow> Inl (''decoding public bytes: '' @ e)
                               | Inr verif \<Rightarrow>
                                   Inr \<lparr> rs_bytes = b, rs_privKey = priv, rs_verifier = verif \<rparr>)
                         (rsav_Decode L pubbytes))))"

definition rsas_FromRaw :: "extlib \<Rightarrow> bytes \<Rightarrow> err + rsa_signer" where
  "rsas_FromRaw L b =
     (let tb = TagWith L rsas_Code b
      in case pkcs1_parse_priv L b of
           Inl e \<Rightarrow> Inl (''parsing private key: '' @ e)
         | Inr priv \<Rightarrow>
             (case rsav_FromRaw L (pkcs1_marshal_pub L priv) of
                Inl e \<Rightarrow> Inl (''decoding public bytes: '' @ e)
              | Inr verif \<Rightarrow> Inr \<lparr> rs_bytes = tb, rs_privKey = priv, rs_verifier = verif \<rparr>))"

definition rsas_Sign :: "extlib \<Rightarrow> rsa_signer \<Rightarrow> bytes \<Rightarrow> signature" where
  "rsas_Sign L s msg =
     (let digest = sha256sum L msg;
          sig = rsa_sign L (rs_privKey s) digest
      in NewSignatureView (NewSignature L RS256 sig))"

definition rsas_signer :: "extlib \<Rightarrow> rsa_signer \<Rightarrow> signer" where
  "rsas_signer L s =
     \<lparr> sg_DID = rsav_DID L (rs_verifier s), sg_SignatureCode = RS256,
       sg_SignatureAlgorithm = ''RS256'', sg_Sign = (\<lambda>m. Ret (rsas_Sign L s m)) \<rparr>"

section \<open>Wrapped principals and the absentee\<close>

definition wrap_verifier :: "extlib \<Rightarrow> verifier \<Rightarrow> did \<Rightarrow> (err + verifier) comp" where
  "wrap_verifier L key ident =
     cmap (\<lambda>s. if \<not> HasPrefix s ''did:key:'' then Inl ''verifier is not a did:key''
                else Inr (key\<lparr>vf_DID := ident\<rparr>))
          (did_String L (vf_DID key))"

definition absentee_SignatureAlgorithm :: string where
  "absentee_SignatureAlgorithm = []"

definition absentee_Sign :: "extlib \<Rightarrow> bytes \<Rightarrow> signature" where
  "absentee_Sign L msg = NewSignatureView (NewNonStandard L absentee_SignatureAlgorithm [])"

definition absentee_From :: "extlib \<Rightarrow> did \<Rightarrow> signer" where
  "absentee_From L ident =
     \<lparr> sg_DID = ident, sg_SignatureCode = NON_STANDARD,
       sg_SignatureAlgorithm = absentee_SignatureAlgorithm,
       sg_Sign = (\<lambda>m. Ret (absentee_Sign L m)) \<rparr>"

text \<open>
  \<open>signer.Wrap\<close>: the signer and its verifier under another DID; the key itself is kept.
\<close>

definition wrap_signer :: "extlib \<Rightarrow> signer \<Rightarrow> verifier \<Rightarrow> did \<Rightarrow> (err + signer \<times> verifier) comp" where
  "wrap_signer L key keyvf ident =
     cbind (did_String L (sg_DID key)) (\<lambda>s.
       if \<not> HasPrefix s ''did:key:'' then Ret (Inl ''verifier is not a did:key'')
       else cmap (\<lambda>r. case r of
                         Inl e \<Rightarrow> Inl e
                       | Inr vrf \<Rightarrow> Inr (key\<lparr>sg_DID := vf_DID vrf\<rparr>, vrf))
                 (wrap_verifier L keyvf ident))"

section \<open>What the key bytes are\<close>

lemma key_codes_small [simp]:
  "edv_Code < MaxUvarint" "eds_Code < MaxUvarint" "rsav_Code < MaxUvarint" "rsas_Code < MaxUvarint"
  by (simp_all add: edv_Code_def eds_Code_def rsav_Code_def rsas_Code_def MaxUvarint_def)

lemma signature_codes_differ [simp]:
  "NON_STANDARD \<noteq> EdDSA" "NON_STANDARD \<noteq> RS256" "EdDSA \<noteq> RS256" "RS256 \<noteq> EdDSA"
  by (simp_all add: code_defs)

definition eds_bytes :: "extlib \<Rightarrow> bytes \<Rightarrow> bytes \<Rightarrow> bytes" where
  "eds_bytes L seed pub = uv_put L eds_Code @ seed @ uv_put L edv_Code @ pub"

lemma eds_offsets:
  assumes "varint_ok L" "length seed = 32"
  shows "length (uv_put L eds_Code @ seed) = ed_pubKeyOffset L"
    and "length (uv_put L eds_Code) = uv_size L eds_Code"
    and "length (uv_put L edv_Code) = uv_size L edv_Code"
  using assms by (simp_all add: ed_pubKeyOffset_def ed_keySize_def)

lemma eds_from_raw:
  assumes "varint_ok L" "length seed = 32" "length pub = 32"
  shows "eds_FromRaw L (seed @ pub) = Inr (eds_bytes L seed pub)"
proof -
  let ?p = "uv_put L eds_Code" and ?v = "uv_put L edv_Code"
  note l = eds_offsets [OF assms(1,2), symmetric]
  have sz: "eds_size L = length ?p + (length seed + (length ?v + length pub))"
    using assms by (simp add: eds_size_def ed_keySize_def)
  have p2: "length (?p @ seed) + length ?v = length ((?p @ seed) @ ?v)" by simp
  have "eds_FromRaw L (seed @ pub) =
      Inr (go_copy (length ((?p @ seed) @ ?v)) pub
        (go_copy (length (?p @ seed)) ?v
          (go_copy (length ?p) seed (go_copy 0 ?p (go_make (eds_size L))))))"
    using assms by (simp only: eds_FromRaw_def l p2 [symmetric]) (simp add: Let_def)
  then show ?thesis
    by (simp only: sz go_copy_fill0 go_copy_fill [OF refl] go_copy_fill_all [OF refl])
       (simp add: eds_bytes_def)
qed

lemma eds_pub_slice:
  assumes "varint_ok L" "length seed = 32"
  shows "slice_from (ed_pubKeyOffset L) (eds_bytes L seed pub) = Ret (uv_put L edv_Code @ pub)"
  using assms eds_offsets(1) [OF assms] slice_from_append [of "uv_put L eds_Code @ seed"]
  by (simp add: eds_bytes_def)

lemma eds_raw_bytes:
  assumes "varint_ok L" "length seed = 32" "length pub = 32"
  shows "eds_Raw L (eds_bytes L seed pub) = Ret (seed @ pub)"
proof -
  let ?p = "uv_put L eds_Code" and ?v = "uv_put L edv_Code"
  have a: "slice_range (uv_size L eds_Code) (ed_pubKeyOffset L) (eds_bytes L seed pub) = Ret seed"
    using assms by (simp add: eds_bytes_def ed_pubKeyOffset_def ed_keySize_def)
  have b: "slice_range (ed_pubKeyOffset L + uv_size L edv_Code)
        (ed_pubKeyOffset L + uv_size L edv_Code + ed_keySize) (eds_bytes L seed pub) = Ret pub"
    using assms slice_range_append [of _ "?p @ seed @ ?v" _ pub "[]"]
    by (simp add: eds_bytes_def ed_pubKeyOffset_def ed_keySize_def add.assoc)
  show ?thesis using assms by (simp add: eds_Raw_def a b Let_def go_copy_def go_make_def)
qed

section \<open>The contract of a signer and its verifier\<close>

text \<open>
  A key \<open>k\<close> signs and verifies. Signing returns a signature tagged with the scheme's code, the
  verifier accepts it for the same message, and refuses every other code before it looks at
  the raw bytes.
\<close>

locale signature_scheme =
  fixes usable :: "'k \<Rightarrow> bool"
    and libs :: "'k \<Rightarrow> extlib"
    and alg :: nat
    and sign :: "'k \<Rightarrow> bytes \<Rightarrow> signature comp"
    and verify :: "'k \<Rightarrow> bytes \<Rightarrow> signature \<Rightarrow> bool comp"
  assumes sign_tagged: "usable k \<Longrightarrow> \<exists>s. sign k m = Ret s \<and> sig_Code (libs k) s = alg"
    and sign_verifies: "usable k \<Longrightarrow> sign k m = Ret s \<Longrightarrow> verify k m s = Ret True"
    and other_alg: "sig_Code (libs k) s \<noteq> alg \<Longrightarrow> verify k m s = Ret False"
    and usable_libs: "usable k \<Longrightarrow> varint_ok (libs k)"
    and alg_standard: "alg \<noteq> NON_STANDARD"
begin

lemma sign_then_verify: "usable k \<Longrightarrow> \<exists>s. sign k m = Ret s \<and> verify k m s = Ret True"
  using sign_tagged sign_verifies by blast

lemma nonstandard_rejected:
  "usable k \<Longrightarrow> length raw < MaxUvarint \<Longrightarrow>
     verify k m (NewNonStandard (libs k) name raw) = Ret False"
  using usable_libs alg_standard by (intro other_alg) (simp add: new_nonstandard_bytes sig_read)

lemma absentee_rejected: "usable k \<Longrightarrow> verify k m (absentee_Sign (libs k) m') = Ret False"
  using nonstandard_rejected [of k "[]"]
  by (simp add: absentee_Sign_def NewSignatureView_def sig_Bytes_def MaxUvarint_def)

end

definition ed_usable :: "extlib \<times> bytes \<times> bytes \<Rightarrow> bool" where
  "ed_usable k =
     (case k of (L, seed, pub) \<Rightarrow>
        varint_ok L \<and> ed25519_ok L \<and> length seed = 32 \<and> length pub = 32)"

definition ed_key_sign :: "extlib \<times> bytes \<times> bytes \<Rightarrow> bytes \<Rightarrow> signature comp" where
  "ed_key_sign k m = (case k of (L, seed, pub) \<Rightarrow> eds_Sign L (eds_bytes L seed pub) m)"

definition ed_key_verify :: "extlib \<times> bytes \<times> bytes \<Rightarrow> bytes \<Rightarrow> signature \<Rightarrow> bool comp" where
  "ed_key_verify k m s =
     (case k of (L, seed, pub) \<Rightarrow> edv_Verify L (uv_put L edv_Code @ pub) m s)"

lemma eds_sign_bytes:
  assumes "varint_ok L" "ed25519_ok L" "length seed = 32" "length pub = 32"
  shows "eds_Sign L (eds_bytes L seed pub) m =
           Ret (uv_put L EdDSA @ uv_put L 64 @ ed_sign L (seed @ pub) m)"
proof -
  have "length (ed_sign L (seed @ pub) m) = 64" using assms by (simp add: ed25519_ok_def)
  then show ?thesis using assms
    by (simp add: eds_Sign_def eds_raw_bytes new_signature_bytes NewSignatureView_def
        sig_Bytes_def)
qed

lemma edv_accepts:
  assumes "varint_ok L" "ed25519_ok L" "length seed = 32" "length pub = 32"
  shows "edv_Verify L (uv_put L edv_Code @ pub) m
           (uv_put L EdDSA @ uv_put L 64 @ ed_sign L (seed @ pub) m) = Ret True"
proof -
  have "slice_from (uv_size L edv_Code) (uv_put L edv_Code @ pub) = Ret pub"
    using assms by (metis key_codes_small(1) slice_from_append varint_length)
  moreover have "ed_verify L pub m (ed_sign L (seed @ pub) m)"
    using assms by (simp add: ed25519_ok_def)
  ultimately show ?thesis
    using assms by (simp add: edv_Verify_def sig_read)
qed

interpretation ed: signature_scheme ed_usable fst EdDSA ed_key_sign ed_key_verify
proof (unfold_locales, goal_cases)
  case (1 k m)
  then show ?case
    by (auto simp: ed_usable_def ed_key_sign_def eds_sign_bytes sig_read
        split: prod.splits)
next
  case (2 k m s)
  then show ?case
    by (auto simp: ed_usable_def ed_key_sign_def ed_key_verify_def eds_sign_bytes edv_accepts
        split: prod.splits)
next
  case (3 k s m)
  then show ?case by (auto simp: ed_key_verify_def edv_Verify_def split: prod.splits)
next
  case (4 k)
  then show ?case by (auto simp: ed_usable_def)
next
  case 5
  then show ?case by (metis signature_codes_differ(1))
qed

text \<open>The RSA scheme: the key is a signer that \<open>FromRaw\<close> returned.\<close>

definition rsa_usable :: "extlib \<times> rsa_signer \<Rightarrow> bool" where
  "rsa_usable k =
     (case k of (L, s) \<Rightarrow> varint_ok L \<and> rsa_ok L \<and> (\<exists>b. rsas_FromRaw L b = Inr s))"

definition rsa_key_sign :: "extlib \<times> rsa_signer \<Rightarrow> bytes \<Rightarrow> signature comp" where
  "rsa_key_sign k m = (case k of (L, s) \<Rightarrow> Ret (rsas_Sign L s m))"

definition rsa_key_verify :: "extlib \<times> rsa_signer \<Rightarrow> bytes \<Rightarrow> signature \<Rightarrow> bool comp" where
  "rsa_key_verify k m sg = (case k of (L, s) \<Rightarrow> rsav_Verify L (rs_verifier s) m sg)"

lemma rsas_from_raw_key:
  assumes "rsa_ok L" "rsas_FromRaw L b = Inr s"
  shows "length (rsa_sign L (rs_privKey s) d) < MaxUvarint \<and>
         rsa_verify L (rv_pubKey (rs_verifier s)) d (rsa_sign L (rs_privKey s) d)"
proof -
  obtain k where k: "pkcs1_parse_priv L b = Inr k" "rs_privKey s = k"
    and v: "rsav_FromRaw L (pkcs1_marshal_pub L k) = Inr (rs_verifier s)"
    using assms(2) by (auto simp: rsas_FromRaw_def Let_def split: sum.splits)
  then have "pkcs1_parse_pub L (pkcs1_marshal_pub L k) = Inr (rv_pubKey (rs_verifier s))"
    by (auto simp: rsav_FromRaw_def Let_def dest!: sym [of _ "rs_verifier s"] split: sum.splits)
  with k assms(1) show ?thesis unfolding rsa_ok_def by fastforce
qed

lemma rsas_sign_bytes:
  assumes "varint_ok L" "rsa_ok L" "rsas_FromRaw L b = Inr s"
  defines "raw \<equiv> \<lambda>m. rsa_sign L (rs_privKey s) (sha256sum L m)"
  shows "rsas_Sign L s m = uv_put L RS256 @ uv_put L (length (raw m)) @ raw m"
  using assms(1) rsas_from_raw_key [OF assms(2,3)]
  by (simp add: rsas_Sign_def Let_def NewSignatureView_def sig_Bytes_def new_signature_bytes raw_def)

interpretation rsa: signature_scheme rsa_usable fst RS256 rsa_key_sign rsa_key_verify
proof (unfold_locales, goal_cases)
  case (1 k m)
  then show ?case
    by (auto simp: rsa_usable_def rsa_key_sign_def rsas_sign_bytes sig_read rsas_from_raw_key
        split: prod.splits)
next
  case (2 k m s)
  then show ?case
    by (auto simp: rsa_usable_def rsa_key_sign_def rsa_key_verify_def rsav_Verify_def
        rsas_sign_bytes sig_read rsas_from_raw_key split: prod.splits)
next
  case (3 k s m)
  then show ?case by (auto simp: rsa_key_verify_def rsav_Verify_def split: prod.splits)
next
  case (4 k)
  then show ?case by (auto simp: rsa_usable_def)
next
  case 5
  then show ?case by (metis signature_codes_differ(2))
qed

lemma eds_decode_bytes:
  assumes "varint_ok L" "length seed = 32" "length pub = 32"
  shows "eds_Decode L (eds_bytes L seed pub) = Ret (Inr (eds_bytes L seed pub))"
proof -
  have l: "length (eds_bytes L seed pub) = eds_size L"
    using assms by (simp add: eds_bytes_def eds_size_def ed_keySize_def)
  have r: "uv_read L (eds_bytes L seed pub) = (eds_Code, None)"
    using assms by (simp add: eds_bytes_def)
  have d: "edv_Decode L (uv_put L edv_Code @ pub) = Inr (uv_put L edv_Code @ pub)"
    using assms by (simp add: edv_Decode_def edv_size_def ed_keySize_def go_copy_def)
  show ?thesis
    using assms l by (simp add: eds_Decode_def r eds_pub_slice d go_copy_def)
qed

lemma eds_did_bytes:
  assumes "varint_ok L" "length seed = 32"
  shows "eds_DID L (eds_bytes L seed pub) = Ret (DID True (uv_put L edv_Code @ pub))"
    and "eds_Verifier L (eds_bytes L seed pub) = Ret (edv_verifier L (uv_put L edv_Code @ pub))"
    and "edv_DID L (uv_put L edv_Code @ pub) = DID True (uv_put L edv_Code @ pub)"
proof -
  have "Ed25519 = edv_Code" by (simp add: Ed25519_def edv_Code_def)
  then have "did_Decode L (uv_put L edv_Code @ pub) = Inr (DID True (uv_put L edv_Code @ pub))"
    using decode_tagged(1) [OF assms(1), of pub] by simp
  then show "eds_DID L (eds_bytes L seed pub) = Ret (DID True (uv_put L edv_Code @ pub))"
    and "eds_Verifier L (eds_bytes L seed pub) = Ret (edv_verifier L (uv_put L edv_Code @ pub))"
    and "edv_DID L (uv_put L edv_Code @ pub) = DID True (uv_put L edv_Code @ pub)"
    using assms
    by (simp_all add: eds_DID_def eds_Verifier_def edv_DID_def eds_pub_slice decode_or_undef_def)
qed

text \<open>
  The key bytes an Ed25519 signer is made from come back: \<open>FromRaw\<close> of a 64-byte private key
  gives a signer whose \<open>Raw\<close> is that key, whose own encoding decodes to itself, and whose DID is
  the did:key of the public half, the DID its verifier reports.
\<close>

theorem ed_signer_roundtrip:
  assumes "varint_ok L" "length seed = 32" "length pub = 32"
  shows "\<exists>s v. eds_FromRaw L (seed @ pub) = Inr s \<and> eds_Raw L s = Ret (seed @ pub) \<and>
           eds_Decode L s = Ret (Inr s) \<and>
           eds_DID L s = Ret (DID True (uv_put L edv_Code @ pub)) \<and>
           eds_Verifier L s = Ret v \<and> vf_DID v = DID True (uv_put L edv_Code @ pub)"
  using assms
  by (simp add: eds_from_raw eds_raw_bytes eds_decode_bytes eds_did_bytes edv_verifier_def)

theorem ed_signer_roundtrip_witness:
  "\<exists>s v. eds_FromRaw lib0 (replicate 32 (CHR ''s'') @ replicate 32 (CHR ''p'')) = Inr s \<and>
     eds_Raw lib0 s = Ret (replicate 32 (CHR ''s'') @ replicate 32 (CHR ''p'')) \<and>
     eds_Decode lib0 s = Ret (Inr s) \<and>
     eds_DID lib0 s = Ret (DID True (uv_put lib0 edv_Code @ replicate 32 (CHR ''p''))) \<and>
     eds_Verifier lib0 s = Ret v \<and>
     vf_DID v = DID True (uv_put lib0 edv_Code @ replicate 32 (CHR ''p''))"
  by (rule ed_signer_roundtrip [OF lib0_varint_ok]) simp_all



end
