(* ===== verification/Result.thy ===== *)
theory Result
  imports Principal
begin

text \<open>
  core/result: the generic result type with its combinators, the failure models
  (core/result/failure) and their conversion to and from IPLD. A result is an interface value
  in the code, so it may also be nil, on which every match panics.
\<close>

section \<open>Results\<close>

datatype ('o, 'x) result = okResult 'o | errResult 'x | nilResult

definition MatchResultR1 ::
    "('o, 'x) result \<Rightarrow> ('o \<Rightarrow> 'r comp) \<Rightarrow> ('x \<Rightarrow> 'r comp) \<Rightarrow> 'r comp" where
  "MatchResultR1 r onOk onError =
     (case r of
        okResult v \<Rightarrow> onOk v
      | errResult v \<Rightarrow> onError v
      | nilResult \<Rightarrow> Panic ''unexpected result type'')"

text \<open>The variants differ in how many values the functions return.\<close>

definition MatchResultR0 :: "('o, 'x) result \<Rightarrow> ('o \<Rightarrow> unit comp) \<Rightarrow> ('x \<Rightarrow> unit comp) \<Rightarrow> unit comp" where
  "MatchResultR0 r onOk onError =
     (case r of
        okResult v \<Rightarrow> onOk v
      | errResult v \<Rightarrow> onError v
      | nilResult \<Rightarrow> Panic ''unexpected result type'')"

definition MatchResultR2 ::
    "('o, 'x) result \<Rightarrow> ('o \<Rightarrow> ('a \<times> 'b) comp) \<Rightarrow> ('x \<Rightarrow> ('a \<times> 'b) comp) \<Rightarrow> ('a \<times> 'b) comp" where
  "MatchResultR2 r onOk onError =
     (case r of
        okResult v \<Rightarrow> onOk v
      | errResult v \<Rightarrow> onError v
      | nilResult \<Rightarrow> Panic ''unexpected result type'')"

definition MatchResultR3 ::
    "('o, 'x) result \<Rightarrow> ('o \<Rightarrow> ('a \<times> 'b \<times> 'c) comp) \<Rightarrow> ('x \<Rightarrow> ('a \<times> 'b \<times> 'c) comp)
       \<Rightarrow> ('a \<times> 'b \<times> 'c) comp" where
  "MatchResultR3 r onOk onError =
     (case r of
        okResult v \<Rightarrow> onOk v
      | errResult v \<Rightarrow> onError v
      | nilResult \<Rightarrow> Panic ''unexpected result type'')"

definition MapResultR0 :: "('o, 'x) result \<Rightarrow> ('o \<Rightarrow> 'o2) \<Rightarrow> ('x \<Rightarrow> 'x2) \<Rightarrow> ('o2, 'x2) result comp" where
  "MapResultR0 r f g =
     MatchResultR1 r (\<lambda>ok. Ret (okResult (f ok))) (\<lambda>err. Ret (errResult (g err)))"

definition MapResultR1 ::
    "('o, 'x) result \<Rightarrow> ('o \<Rightarrow> 'o2 \<times> 'r) \<Rightarrow> ('x \<Rightarrow> 'x2 \<times> 'r) \<Rightarrow> (('o2, 'x2) result \<times> 'r) comp" where
  "MapResultR1 r f g =
     MatchResultR2 r
       (\<lambda>ok. let (ok2, r1) = f ok in Ret (okResult ok2, r1))
       (\<lambda>err. let (err2, r1) = g err in Ret (errResult err2, r1))"

definition MapOk :: "('o, 'x) result \<Rightarrow> ('o \<Rightarrow> 'o2) \<Rightarrow> ('o2, 'x) result comp" where
  "MapOk r f = MapResultR0 r f (\<lambda>err. err)"

definition MapError :: "('o, 'x) result \<Rightarrow> ('x \<Rightarrow> 'x2) \<Rightarrow> ('o, 'x2) result comp" where
  "MapError r f = MapResultR0 r (\<lambda>ok. ok) f"

definition AndThen :: "('o, 'x) result \<Rightarrow> ('o \<Rightarrow> ('o2, 'x) result comp) \<Rightarrow> ('o2, 'x) result comp" where
  "AndThen r f = MatchResultR1 r f (\<lambda>err. Ret (errResult err))"

definition res_And :: "('o, 'x) result \<Rightarrow> ('o2, 'x) result \<Rightarrow> ('o2, 'x) result comp" where
  "res_And res1 res2 = AndThen res1 (\<lambda>_. Ret res2)"

definition OrElse :: "('o, 'x) result \<Rightarrow> ('x \<Rightarrow> ('o, 'x2) result comp) \<Rightarrow> ('o, 'x2) result comp" where
  "OrElse r f = MatchResultR1 r (\<lambda>ok. Ret (okResult ok)) f"

definition res_Or :: "('o, 'x) result \<Rightarrow> ('o, 'x2) result \<Rightarrow> ('o, 'x2) result comp" where
  "res_Or res1 res2 = OrElse res1 (\<lambda>_. Ret res2)"

text \<open>\<open>Wrap\<close> and \<open>Unwrap\<close> with the zero values \<open>zo\<close>, \<open>zx\<close> of the two types.\<close>

definition res_Wrap :: "'x \<Rightarrow> 'o \<times> 'x \<Rightarrow> ('o, 'x) result" where
  "res_Wrap zx inner = (let (v, e) = inner in if e \<noteq> zx then errResult e else okResult v)"

definition res_Unwrap :: "'o \<Rightarrow> 'x \<Rightarrow> ('o, 'x) result \<Rightarrow> ('o \<times> 'x) comp" where
  "res_Unwrap zo zx r = MatchResultR2 r (\<lambda>ok. Ret (ok, zx)) (\<lambda>err. Ret (zo, err))"

text \<open>\<open>ok.Unit\<close>, the result of a handler with nothing to return, is the empty map.\<close>

definition Unit_ToIPLD :: "err + node" where
  "Unit_ToIPLD = Inr (NMap [])"

section \<open>Errors and failure models\<close>

text \<open>
  An \<open>error\<close> value as the conversions see it: its text, and whether it is \<open>failure.Named\<close>,
  \<open>failure.WithStackTrace\<close>, \<open>ipld.Builder\<close>.
\<close>

record goerror =
  ge_Error :: string
  ge_Name :: "string option"
  ge_Stack :: "string option"
  ge_ToIPLD :: "(err + node) option"

record failure_model =
  fm_Name :: "string option"
  fm_Message :: string
  fm_Stack :: "string option"

definition FailureModel_ToIPLD :: "extlib \<Rightarrow> failure_model \<Rightarrow> err + node" where
  "FailureModel_ToIPLD L f = wrap_failure L (fm_Name f) (fm_Message f) (fm_Stack f)"

text \<open>The struct \<open>failure\<close>: the model and the error's own conversion, if it had one.\<close>

record failure_struct =
  fs_model :: failure_model
  fs_toIPLD :: "(err + node) option"

definition model_of_error :: "goerror \<Rightarrow> failure_model" where
  "model_of_error e = \<lparr> fm_Name = ge_Name e, fm_Message = ge_Error e, fm_Stack = ge_Stack e \<rparr>"

definition failure_Name :: "failure_struct \<Rightarrow> string" where
  "failure_Name f = (case fm_Name (fs_model f) of None \<Rightarrow> [] | Some n \<Rightarrow> n)"

definition failure_Message :: "failure_struct \<Rightarrow> string" where
  "failure_Message f = fm_Message (fs_model f)"

definition failure_Stack :: "failure_struct \<Rightarrow> string" where
  "failure_Stack f = (case fm_Stack (fs_model f) of None \<Rightarrow> [] | Some n \<Rightarrow> n)"

definition failure_ToIPLD :: "extlib \<Rightarrow> failure_struct \<Rightarrow> err + node" where
  "failure_ToIPLD L f =
     (case fs_toIPLD f of Some n \<Rightarrow> n | None \<Rightarrow> FailureModel_ToIPLD L (fs_model f))"

definition FromError :: "goerror \<Rightarrow> failure_struct" where
  "FromError e = \<lparr> fs_model = model_of_error e, fs_toIPLD = ge_ToIPLD e \<rparr>"

definition FromFailureModel :: "failure_model \<Rightarrow> failure_struct option" where
  "FromFailureModel m =
     (if m = \<lparr> fm_Name = None, fm_Message = [], fm_Stack = None \<rparr> then None
      else Some \<lparr> fs_model = m, fs_toIPLD = None \<rparr>)"

text \<open>
  \<open>NewFailure\<close>: the error itself when it converts to IPLD, else a model of it. The result is
  what the receipt will encode: the conversion of either.
\<close>

definition NewFailure :: "extlib \<Rightarrow> goerror \<Rightarrow> (err + node, err + node) result" where
  "NewFailure L e =
     (case ge_ToIPLD e of
        Some n \<Rightarrow> errResult n
      | None \<Rightarrow> errResult (FailureModel_ToIPLD L (model_of_error e)))"

text \<open>\<open>LookupByString\<close> and \<open>AsString\<close> of the data model: an error unless the kind fits.\<close>

definition LookupByString :: "node \<Rightarrow> string \<Rightarrow> node option" where
  "LookupByString n k = (case n of NMap kvs \<Rightarrow> map_of kvs k | _ \<Rightarrow> None)"

definition AsString :: "node \<Rightarrow> string option" where
  "AsString n = (case n of NString s \<Rightarrow> Some s | _ \<Rightarrow> None)"

definition Bind :: "node \<Rightarrow> failure_model" where
  "Bind n =
     (let str = (\<lambda>k. Option.bind (LookupByString n k) AsString)
      in \<lparr> fm_Name = str ''name'',
           fm_Message = (case str ''message'' of None \<Rightarrow> [] | Some m \<Rightarrow> m),
           fm_Stack = str ''stack'' \<rparr>)"

section \<open>Laws\<close>

lemma match_simps [simp]:
  "MatchResultR1 (okResult v) f g = f v"
  "MatchResultR1 (errResult w) f g = g w"
  "MatchResultR1 nilResult f g = Panic ''unexpected result type''"
  by (simp_all add: MatchResultR1_def)

lemma match2_simps [simp]:
  "MatchResultR2 (okResult v) f' g' = f' v"
  "MatchResultR2 (errResult w) f' g' = g' w"
  "MatchResultR2 nilResult f' g' = Panic ''unexpected result type''"
  by (simp_all add: MatchResultR2_def)

lemma map_result_simps [simp]:
  "MapResultR0 (okResult v) f g = Ret (okResult (f v))"
  "MapResultR0 (errResult w) f g = Ret (errResult (g w))"
  "MapResultR0 nilResult f g = Panic ''unexpected result type''"
  by (simp_all add: MapResultR0_def)

lemma and_or_simps [simp]:
  "AndThen (okResult v) h = h v"
  "AndThen (errResult w) h = Ret (errResult w)"
  "AndThen nilResult h = Panic ''unexpected result type''"
  "OrElse (okResult v) h' = Ret (okResult v)"
  "OrElse (errResult w) h' = h' w"
  "OrElse nilResult h' = Panic ''unexpected result type''"
  by (simp_all add: AndThen_def OrElse_def)

lemma and_then_assoc:
  "cbind (AndThen r f) (\<lambda>s. AndThen s g) = AndThen r (\<lambda>v. cbind (f v) (\<lambda>s. AndThen s g))"
  by (cases r) simp_all

lemma or_else_assoc:
  "cbind (OrElse r f) (\<lambda>s. OrElse s g) = OrElse r (\<lambda>v. cbind (f v) (\<lambda>s. OrElse s g))"
  by (cases r) simp_all

text \<open>
  Fusing two conversions, and unwrapping what was wrapped: the pair of a Go call comes back,
  with the value dropped exactly when there was an error.
\<close>

lemma map_result_fusion:
  "cbind (MapResultR0 r f g) (\<lambda>s. MapResultR0 s f' g') = MapResultR0 r (f' \<circ> f) (g' \<circ> g)"
  by (cases r) simp_all

lemma unwrap_wrap:
  "res_Unwrap zo zx (res_Wrap zx (v, e)) = Ret (if e = zx then (v, zx) else (zo, e))"
  by (simp add: res_Unwrap_def res_Wrap_def)

lemma bind_failure_node:
  "Bind (failure_node n m s) = \<lparr> fm_Name = n, fm_Message = m, fm_Stack = s \<rparr>"
  by (cases n; cases s) (simp_all add: Bind_def failure_node_def LookupByString_def AsString_def)

text \<open>
  A failure survives the trip through IPLD: whatever error without its own conversion is
  turned into a failure result, binding the encoded node gives the error's name, text and
  stack back; and \<open>FromError\<close> and \<open>NewFailure\<close> encode every error the same way.
\<close>

theorem failure_ipld_roundtrip:
  assumes "bindnode_ok L"
  shows "(\<exists>n. NewFailure L e = errResult n \<and> failure_ToIPLD L (FromError e) = n \<and>
              (ge_ToIPLD e = None \<longrightarrow>
                 (\<exists>nd. n = Inr nd \<and>
                    Bind nd = \<lparr> fm_Name = ge_Name e, fm_Message = ge_Error e, fm_Stack = ge_Stack e \<rparr>)))"
proof (cases "ge_ToIPLD e")
  case None
  then show ?thesis using assms
    by (simp add: NewFailure_def failure_ToIPLD_def FromError_def FailureModel_ToIPLD_def
        model_of_error_def bindnode_ok_def bind_failure_node)
qed (simp add: NewFailure_def failure_ToIPLD_def FromError_def)

theorem failure_ipld_roundtrip_witness:
  "(\<exists>n. NewFailure lib0 \<lparr> ge_Error = ''boom'', ge_Name = Some ''E'', ge_Stack = None, ge_ToIPLD = None \<rparr> = errResult n \<and>
     failure_ToIPLD lib0 (FromError \<lparr> ge_Error = ''boom'', ge_Name = Some ''E'', ge_Stack = None, ge_ToIPLD = None \<rparr>) = n \<and>
     (\<exists>nd. n = Inr nd \<and> Bind nd = \<lparr> fm_Name = Some ''E'', fm_Message = ''boom'', fm_Stack = None \<rparr>))"
  using failure_ipld_roundtrip [OF lib0_bindnode_ok,
      of "\<lparr> ge_Error = ''boom'', ge_Name = Some ''E'', ge_Stack = None, ge_ToIPLD = None \<rparr>"] by simp

end
