(* ===== verification/Schema.thy ===== *)
theory Schema
  imports Result
begin

text \<open>
  core/schema: readers that validate an input and return it in its type, or a named failure.
  A reader is a function to a failure or a value; reading may panic where the code does
  (rendering the failures of an empty union, printing a DID). The locale \<open>string_matcher\<close> is
  the contract the validator and the server use a string reader under: it accepts a set of
  strings and returns them unchanged. It is interpreted on \<open>Literal\<close> and on the union of
  literals the two of them build.
\<close>

type_synonym ('i, 'o) reader = "'i \<Rightarrow> (failure + 'o) comp"

definition NewSchemaError :: "string \<Rightarrow> failure" where
  "NewSchemaError message = Failure ''SchemaError'' message"

section \<open>Literals, mapping\<close>

definition Literal :: "string \<Rightarrow> (string, string) reader" where
  "Literal expected input =
     (if input \<noteq> expected
      then Ret (Inl (NewSchemaError (''expected literal '' @ expected @ '' instead got '' @ input)))
      else Ret (Inr input))"

definition Mapped :: "('i, 'o) reader \<Rightarrow> ('o \<Rightarrow> (failure + 'p) comp) \<Rightarrow> ('i, 'p) reader" where
  "Mapped r converter i =
     cbind (r i) (\<lambda>res. case res of Inl err \<Rightarrow> Ret (Inl err) | Inr v \<Rightarrow> converter v)"

section \<open>Unions\<close>

definition indent :: "string \<Rightarrow> string" where
  "indent message = ''  '' @ Join (Split message newline) (newline # ''  '')"

definition li :: "string \<Rightarrow> string" where
  "li message = indent (''- '' @ message)"

text \<open>
  \<open>errors.Join\<close> of no errors is nil, and calling \<open>Error()\<close> on it panics; otherwise its text is
  the texts joined by newlines.
\<close>

definition errors_Join_Error :: "string list \<Rightarrow> string comp" where
  "errors_Join_Error msgs =
     (if msgs = [] then Panic ''nil pointer dereference'' else Ret (Join msgs [newline]))"

definition unionError_Error :: "failure list \<Rightarrow> string comp" where
  "unionError_Error failures =
     cmap (\<lambda>t. ''Value does not match any type of the union:'' @ newline # li t)
          (errors_Join_Error (map fail_msg failures))"

text \<open>\<open>failure.FromError\<close> of a union error: its name and text are kept.\<close>

definition union_failure :: "failure list \<Rightarrow> failure comp" where
  "union_failure failures = cmap (Failure ''Union Error'') (unionError_Error failures)"

fun or_loop :: "('i, 'o) reader list \<Rightarrow> 'i \<Rightarrow> failure list \<Rightarrow> (failure + 'o) comp" where
  "or_loop [] input failures = cmap Inl (union_failure failures)"
| "or_loop (r # rs) input failures =
     cbind (r input) (\<lambda>res. case res of
        Inl err \<Rightarrow> or_loop rs input (failures @ [err])
      | Inr v \<Rightarrow> Ret (Inr v))"

definition schema_Or :: "('i, 'o) reader list \<Rightarrow> ('i, 'o) reader" where
  "schema_Or readers input = or_loop readers input []"

section \<open>DIDs\<close>

definition did_reader_prefix :: "string \<Rightarrow> string" where
  "did_reader_prefix method = (if method \<noteq> [] then ''did:'' @ method @ '':'' else ''did:'')"

definition schema_DID :: "extlib \<Rightarrow> string \<Rightarrow> (string, did) reader" where
  "schema_DID L method input =
     (let pfx = did_reader_prefix method
      in if \<not> HasPrefix input pfx
         then Ret (Inl (NewSchemaError (''Expected a '' @ dquote @ pfx @ dquote @
                                       '' but got '' @ dquote @ input @ dquote @ '' instead'')))
         else (case did_Parse L input of
                 Inl e \<Rightarrow> Ret (Inl (NewSchemaError e))
               | Inr d \<Rightarrow> Ret (Inr d)))"

definition DIDString :: "extlib \<Rightarrow> string \<Rightarrow> (string, string) reader" where
  "DIDString L method input =
     cbind (schema_DID L method input) (\<lambda>res. case res of
        Inl err \<Rightarrow> Ret (Inl err)
      | Inr d \<Rightarrow> cmap Inr (did_String L d))"

section \<open>URIs and links\<close>

text \<open>The input of a URI reader: a string, a \<open>url.URL\<close> (scheme and text), or something else.\<close>

datatype uri_input = UStr string | UUrl "string \<times> string" | UOther

definition schema_URI :: "extlib \<Rightarrow> string option \<Rightarrow> (uri_input, string \<times> string) reader" where
  "schema_URI L protocol input =
     (let check = (\<lambda>u. case protocol of
                          Some p \<Rightarrow>
                            if p \<noteq> fst u @ '':''
                            then Inl (NewSchemaError (''Expected '' @ p @ '' URI instead got '' @ snd u))
                            else Inr u
                        | None \<Rightarrow> Inr u)
      in Ret (case input of
                UOther \<Rightarrow> Inl (NewSchemaError ''Expected URI'')
              | UUrl u \<Rightarrow> check u
              | UStr s \<Rightarrow>
                  (case url_parse L s of
                     Inl e \<Rightarrow> Inl (NewSchemaError ''Invalid URI'')
                   | Inr u \<Rightarrow> check u)))"

record multihashConfig =
  mc_code :: "nat option"
  mc_digest :: "bytes option"

record linkCfg =
  lc_version :: "nat option"
  lc_codec :: "nat option"
  lc_multihash :: "multihashConfig option"

text \<open>\<open>AsLink\<close> of a node, and the node a caveats value is or converts to.\<close>

definition AsLink :: "node \<Rightarrow> err + link" where
  "AsLink n = (case n of NLink l \<Rightarrow> Inr l | _ \<Rightarrow> Inl ''not a link'')"

definition any_node :: "extlib \<Rightarrow> string \<Rightarrow> gany \<Rightarrow> failure + node" where
  "any_node L complaint input =
     (case input of
        GNode n \<Rightarrow> Inr n
      | GAttestation l \<Rightarrow>
          (case wrap_attestation L l of Inl e \<Rightarrow> Inl (NewSchemaError e) | Inr n \<Rightarrow> Inr n)
      | GBuilder T r \<Rightarrow> (case r of Inl e \<Rightarrow> Inl (NewSchemaError e) | Inr n \<Rightarrow> Inr n)
      | GNil \<Rightarrow> Inl (NewSchemaError complaint)
      | GLink _ \<Rightarrow> Inl (NewSchemaError complaint)
      | GOpaque _ \<Rightarrow> Inl (NewSchemaError complaint))"

definition link_matches :: "extlib \<Rightarrow> linkCfg \<Rightarrow> link \<Rightarrow> failure + link" where
  "link_matches L lc l =
     (if (case lc_codec lc of None \<Rightarrow> False | Some c \<Rightarrow> cid_codec L l \<noteq> c)
      then Inl (NewSchemaError ''Expected link to be CID with codec'')
      else if (case lc_version lc of None \<Rightarrow> False | Some v \<Rightarrow> cid_version L l \<noteq> v)
      then Inl (NewSchemaError ''Expected link to be CID version'')
      else (case lc_multihash lc of
              None \<Rightarrow> Inr l
            | Some mh \<Rightarrow>
                if (case mc_code mh of None \<Rightarrow> False | Some c \<Rightarrow> cid_mhtype L l \<noteq> c)
                then Inl (NewSchemaError ''Expected link to be CID with hashing algorithm'')
                else (case mc_digest mh of
                        None \<Rightarrow> Inr l
                      | Some d \<Rightarrow>
                          (case cid_digest L l of
                             Inl e \<Rightarrow> Inl (NewSchemaError e)
                           | Inr decoded \<Rightarrow>
                               if decoded \<noteq> d
                               then Inl (NewSchemaError ''Expected link with hash digest'')
                               else Inr l))))"

definition schema_Link :: "extlib \<Rightarrow> linkCfg \<Rightarrow> (gany, link) reader" where
  "schema_Link L lc input =
     Ret (case input of
            GLink l \<Rightarrow> link_matches L lc l
          | _ \<Rightarrow>
              (case any_node L ''unexpected input: not an IPLD node or link'' input of
                 Inl f \<Rightarrow> Inl f
               | Inr n \<Rightarrow>
                   (case AsLink n of
                      Inl e \<Rightarrow> Inl (NewSchemaError e)
                    | Inr l \<Rightarrow> link_matches L lc l)))"

section \<open>Structs\<close>

text \<open>
  \<open>Struct[T](typ, policy)\<close>: \<open>rebind\<close> is \<open>ipld.Rebind\<close> at the type, \<open>policy\<close> the policy's match,
  if there is one.
\<close>

definition schema_Struct ::
    "extlib \<Rightarrow> (node \<Rightarrow> err + gany) \<Rightarrow> (node \<Rightarrow> bool) option \<Rightarrow> (gany, gany) reader" where
  "schema_Struct L rebind policy input =
     Ret (case any_node L ''unexpected input: not an IPLD node'' input of
            Inl f \<Rightarrow> Inl f
          | Inr n \<Rightarrow>
              if (case policy of None \<Rightarrow> False | Some match \<Rightarrow> \<not> match n)
              then Inl (NewSchemaError ''input did not match policy'')
              else (case rebind n of
                      Inl e \<Rightarrow> Inl (NewSchemaError e)
                    | Inr b \<Rightarrow> Inr b))"

section \<open>Laws of the readers\<close>

lemma or_loop_first_success:
  assumes "\<forall>r \<in> set rs. \<exists>f. r i = Ret (Inl f)" and "r i = Ret (Inr v)"
  shows "or_loop (rs @ r # rs') i fs = Ret (Inr v)"
  using assms by (induction rs arbitrary: fs) auto

lemma or_loop_all_fail:
  assumes "list_all2 (\<lambda>r f. r i = Ret (Inl f)) rs fs"
  shows "or_loop rs i gs = cmap Inl (union_failure (gs @ fs))"
  using assms by (induction rs fs arbitrary: gs rule: list_all2_induct) auto

lemma or_loop_Inr:
  assumes "or_loop rs i fs = Ret (Inr v)"
  shows "\<exists>r \<in> set rs. r i = Ret (Inr v)"
  using assms by (induction rs arbitrary: fs) (auto simp: case_sum_eq)

text \<open>
  The union reader returns what its first succeeding reader returns; when every reader
  fails it fails with all their texts, one per line; and with no readers at all, rendering
  that failure is a nil dereference.
\<close>

theorem or_reader_behaviour:
  "((\<forall>r \<in> set rs. \<exists>f. r i = Ret (Inl f)) \<and> r i = Ret (Inr v) \<longrightarrow>
      schema_Or (rs @ r # rs') i = Ret (Inr v)) \<and>
   (list_all2 (\<lambda>r f. r i = Ret (Inl f)) rs fs \<and> rs \<noteq> [] \<longrightarrow>
      schema_Or rs i = Ret (Inl (Failure ''Union Error''
        (''Value does not match any type of the union:'' @ newline # li (Join (map fail_msg fs) [newline]))))) \<and>
   schema_Or [] i = Panic ''nil pointer dereference''"
  using or_loop_first_success [of rs i r v rs' "[]"] or_loop_all_fail [of i rs fs "[]"]
  by (auto simp: schema_Or_def union_failure_def unionError_Error_def errors_Join_Error_def)

theorem or_reader_behaviour_witness:
  "schema_Or [Literal ''a'', Literal ''b''] ''b'' = Ret (Inr ''b'')"
  using or_reader_behaviour [of "[Literal ''a'']" "''b''" "Literal ''b''" "''b''" "[]" "[]"]
  by (auto simp: Literal_def)

section \<open>The contract of a string matcher\<close>

text \<open>A matcher \<open>m\<close> stands for the set of strings \<open>accepted m\<close>.\<close>

locale string_matcher =
  fixes usable :: "'m \<Rightarrow> bool"
    and accepted :: "'m \<Rightarrow> string set"
    and read :: "'m \<Rightarrow> (string, string) reader"
  assumes read_accepts: "usable m \<Longrightarrow> s \<in> accepted m \<Longrightarrow> read m s = Ret (Inr s)"
    and read_rejects: "usable m \<Longrightarrow> s \<notin> accepted m \<Longrightarrow> \<exists>f. read m s = Ret (Inl f)"
begin

lemma read_iff: "usable m \<Longrightarrow> read m s = Ret (Inr t) \<longleftrightarrow> s \<in> accepted m \<and> t = s"
  using read_accepts read_rejects by (cases "s \<in> accepted m") force+

lemma read_total: "usable m \<Longrightarrow> returns (read m s)"
  using read_accepts read_rejects by (cases "s \<in> accepted m") force+

lemma read_idem: "usable m \<Longrightarrow> read m s = Ret (Inr t) \<Longrightarrow> read m t = Ret (Inr t)"
  by (simp add: read_iff)

end

text \<open>
  The reader the validator and the server build: the literal of the own DID, or, when there
  are others, the union of their literals and the own one.
\<close>

definition literal_union :: "string list \<Rightarrow> (string, string) reader" where
  "literal_union ss =
     (case ss of [s] \<Rightarrow> Literal s | _ \<Rightarrow> schema_Or (map Literal ss))"

lemma or_literals_accept:
  "s \<in> set ss \<Longrightarrow> or_loop (map Literal ss) s fs = Ret (Inr s)"
  by (induction ss arbitrary: fs) (auto simp: Literal_def)

lemma or_literals_reject:
  "s \<notin> set ss \<Longrightarrow> ss \<noteq> [] \<or> fs \<noteq> [] \<Longrightarrow> \<exists>f. or_loop (map Literal ss) s fs = Ret (Inl f)"
  by (induction ss arbitrary: fs)
     (auto simp: Literal_def union_failure_def unionError_Error_def errors_Join_Error_def)

interpretation lit: string_matcher "\<lambda>_. True" "\<lambda>s. {s}" Literal
  by unfold_locales (simp_all add: Literal_def)

interpretation lits: string_matcher "\<lambda>ss. ss \<noteq> []" set literal_union
proof (unfold_locales, goal_cases)
  case (1 ss s)
  then show ?case
    using or_literals_accept [of s ss "[]"]
    by (auto simp: literal_union_def schema_Or_def lit.read_iff
        simp del: or_loop.simps split: list.splits)
next
  case (2 ss s)
  then show ?case
    using or_literals_reject [of s ss "[]"] lit.read_rejects
    by (auto simp: literal_union_def schema_Or_def simp del: or_loop.simps split: list.splits)
qed

text \<open>
  \<open>DIDString\<close> accepts only texts of the asked-for method, and what it returns is the
  printed form of the DID it parsed: reading its own output again returns it unchanged, when
  the DID is well formed.
\<close>

lemma did_reader_ok:
  assumes "schema_DID L method s = Ret (Inr d)"
  shows "HasPrefix s (did_reader_prefix method) \<and> did_Parse L s = Inr d"
  using assms by (auto simp: schema_DID_def Let_def split: if_splits sum.splits)

theorem did_string_reader:
  assumes "varint_ok L" "multibase_ok L" and "DIDString L method s = Ret (Inr t)"
  shows "HasPrefix s (did_reader_prefix method) \<and>
         (\<exists>d. did_Parse L s = Inr d \<and> did_String L d = Ret t \<and>
              (wf_did L d \<longrightarrow> DIDString L [] t = Ret (Inr t)))"
proof -
  obtain d where d: "schema_DID L method s = Ret (Inr d)" "did_String L d = Ret t"
    using assms(3) by (auto simp: DIDString_def case_sum_eq)
  note p = did_reader_ok [OF d(1)]
  moreover have "DIDString L [] t = Ret (Inr t)" if w: "wf_did L d"
  proof -
    have "did_Parse L t = Inr d"
      using parse_of_string [OF assms(1,2) w] d(2) by auto
    moreover from this have "HasPrefix t ''did:''"
      by (auto simp: did_Parse_def Prefix_def split: if_splits)
    ultimately show ?thesis
      using d(2) by (simp add: DIDString_def schema_DID_def did_reader_prefix_def Let_def)
  qed
  ultimately show ?thesis using d(2) by blast
qed

theorem did_string_reader_witness:
  "HasPrefix ''did:web:a'' (did_reader_prefix ''web'') \<and>
   (\<exists>d. did_Parse lib0 ''did:web:a'' = Inr d \<and> did_String lib0 d = Ret ''did:web:a'' \<and>
        (wf_did lib0 d \<longrightarrow> DIDString lib0 [] ''did:web:a'' = Ret (Inr ''did:web:a'')))"
proof (rule did_string_reader [OF lib0_varint_ok lib0_multibase_ok])
  have "did_Parse lib0 (''did:'' @ ''web:a'') = Inr (DID False (uv_put lib0 DIDCore @ ''web:a''))"
    by (rule parse_core [OF lib0_varint_ok]) (simp add: HasPrefix_def)
  moreover have "did_String lib0 (DID False (uv_put lib0 DIDCore @ ''web:a'')) = Ret (''did:'' @ ''web:a'')"
    by (rule string_core [OF lib0_varint_ok])
  ultimately show "DIDString lib0 ''web'' ''did:web:a'' = Ret (Inr ''did:web:a'')"
    by (simp add: DIDString_def schema_DID_def did_reader_prefix_def HasPrefix_def Let_def)
qed

end
