(* ===== verification/Blockstore.thy ===== *)
theory Blockstore
  imports Schema
begin

text \<open>
  core/ipld/block, core/ipld/hash, core/dag/blockstore, core/iterable: blocks, their encoding
  and integrity-checked decoding, and the in-memory store of blocks. A block iterator is the
  list of what it yields, each a block or an error. The locale \<open>block_container\<close> is the contract of
  a container that keeps the first block of every link, in the order they arrive; it is
  interpreted on \<open>Put\<close> of the block store and on the loop body of \<open>NewBlockReader\<close>.
\<close>

section \<open>Blocks\<close>

record block =
  blk_link :: link
  blk_bytes :: bytes

type_synonym block_seq = "(err + block) list"

definition NewBlock :: "link \<Rightarrow> bytes \<Rightarrow> block" where
  "NewBlock l b = \<lparr> blk_link = l, blk_bytes = b \<rparr>"

record hash_digest =
  hd_code :: nat
  hd_size :: nat
  hd_digest :: bytes
  hd_bytes :: bytes

definition digest_Bytes :: "hash_digest \<Rightarrow> bytes" where
  "digest_Bytes d = hd_bytes d"

definition digest_Digest :: "hash_digest \<Rightarrow> bytes" where
  "digest_Digest d = hd_bytes d"

definition sha256_Code :: nat where "sha256_Code = 0x12"
definition sha256_Size :: nat where "sha256_Size = 32"

text \<open>\<open>sha256.Hasher.Sum\<close>: writing to a hash never returns an error.\<close>

definition sha256_Sum :: "extlib \<Rightarrow> bytes \<Rightarrow> hash_digest" where
  "sha256_Sum L b =
     (let sum = sha256sum L b
      in \<lparr> hd_code = sha256_Code, hd_size = sha256_Size, hd_digest = sum,
           hd_bytes = mh_encode L sum sha256_Code \<rparr>)"

text \<open>
  A codec at one schema type: its code, and the encoding and decoding of values of the type
  (\<open>ipld.Marshal\<close> and \<open>ipld.Unmarshal\<close>, with recovered panics as errors).
\<close>

record 'v codec =
  cd_Code :: nat
  cd_Encode :: "'v \<Rightarrow> err + bytes"
  cd_Decode :: "bytes \<Rightarrow> err + 'v"

text \<open>Decoding what was encoded gives the value back, and an encoding stands for one value.\<close>

definition codec_ok :: "'v codec \<Rightarrow> bool" where
  "codec_ok C \<longleftrightarrow> (\<forall>v b. cd_Encode C v = Inr b \<longrightarrow> cd_Decode C b = Inr v)"

definition block_Encode :: "extlib \<Rightarrow> 'v codec \<Rightarrow> 'v \<Rightarrow> err + block" where
  "block_Encode L C v =
     (case cd_Encode C v of
        Inl e \<Rightarrow> Inl e
      | Inr b \<Rightarrow> Inr (NewBlock (cid_v1 L (cd_Code C) (digest_Bytes (sha256_Sum L b))) b))"

definition block_Decode :: "extlib \<Rightarrow> 'v codec \<Rightarrow> block \<Rightarrow> err + 'v" where
  "block_Decode L C blk =
     (case cd_Decode C (blk_bytes blk) of
        Inl e \<Rightarrow> Inl e
      | Inr v \<Rightarrow>
          if cid_v1 L (cd_Code C) (digest_Bytes (sha256_Sum L (blk_bytes blk))) \<noteq> blk_link blk
          then Inl ''data integrity error'' else Inr v)"

text \<open>A block decodes only under the link its content hashes to.\<close>

definition intact :: "extlib \<Rightarrow> nat \<Rightarrow> block \<Rightarrow> bool" where
  "intact L code blk \<longleftrightarrow>
     blk_link blk = cid_v1 L code (mh_encode L (sha256sum L (blk_bytes blk)) sha256_Code)"

lemma block_Encode_Inr:
  "block_Encode L C v = Inr blk \<longleftrightarrow>
     cd_Encode C v = Inr (blk_bytes blk) \<and> intact L (cd_Code C) blk"
  by (cases blk)
     (auto simp: block_Encode_def NewBlock_def intact_def digest_Bytes_def sha256_Sum_def
        Let_def case_sum_eq)

lemma block_Decode_Inr:
  "block_Decode L C blk = Inr v \<longleftrightarrow>
     cd_Decode C (blk_bytes blk) = Inr v \<and> intact L (cd_Code C) blk"
  by (auto simp: block_Decode_def intact_def digest_Bytes_def sha256_Sum_def Let_def case_sum_eq)

lemma block_codec_roundtrip:
  "codec_ok C \<Longrightarrow> block_Encode L C v = Inr blk \<Longrightarrow> block_Decode L C blk = Inr v"
  by (auto simp: block_Encode_Inr block_Decode_Inr codec_ok_def)

lemma block_Encode_ok:
  "cd_Encode C v = Inr b \<Longrightarrow> \<exists>blk. block_Encode L C v = Inr blk \<and> blk_bytes blk = b"
  by (simp add: block_Encode_def NewBlock_def)

text \<open>A codec of finitely many values, for the witnesses.\<close>

definition table_codec :: "nat \<Rightarrow> (bytes \<times> 'v) list \<Rightarrow> 'v codec" where
  "table_codec code tab =
     \<lparr> cd_Code = code,
       cd_Encode = (\<lambda>v. case find (\<lambda>p. snd p = v) tab of
                          Some p \<Rightarrow> Inr (fst p) | None \<Rightarrow> Inl ''unsupported''),
       cd_Decode = (\<lambda>b. case map_of tab b of Some v \<Rightarrow> Inr v | None \<Rightarrow> Inl ''unsupported'') \<rparr>"

lemma table_codec_ok:
  assumes "distinct (map fst tab)"
  shows "codec_ok (table_codec code tab)"
proof -
  have "map_of tab b = Some v" if "find (\<lambda>p. snd p = v) tab = Some (b, w)" for b v w
  proof -
    have "(b, w) \<in> set tab" "w = v" using that by (auto simp: find_Some_iff) (metis snd_conv)
    then show ?thesis using assms by simp
  qed
  then show ?thesis by (fastforce simp: codec_ok_def table_codec_def split: option.splits)
qed

section \<open>Sequences\<close>

definition iter_Map :: "('a \<Rightarrow> 'b) \<Rightarrow> 'a list \<Rightarrow> 'b list" where
  "iter_Map f xs = map f xs"

definition iter_Concat2 :: "'a list list \<Rightarrow> 'a list" where
  "iter_Concat2 seqs = concat seqs"

section \<open>The store\<close>

text \<open>
  \<open>blockreader\<close>: the keys in order of arrival and the map of blocks. A lookup at a link is at
  its string.
\<close>

record blockreader =
  br_keys :: "link list"
  br_blks :: "link \<rightharpoonup> block"

definition br_empty :: blockreader where
  "br_empty = \<lparr> br_keys = [], br_blks = Map.empty \<rparr>"

definition br_Get :: "blockreader \<Rightarrow> link \<Rightarrow> block option" where
  "br_Get br l = br_blks br l"

definition br_Iterator :: "blockreader \<Rightarrow> block_seq" where
  "br_Iterator br =
     map (\<lambda>k. case br_blks br k of
                None \<Rightarrow> Inl (''missing block for key: '' @ k)
              | Some b \<Rightarrow> Inr b) (br_keys br)"

definition bs_Put :: "blockreader \<Rightarrow> block \<Rightarrow> blockreader" where
  "bs_Put bs b =
     (case br_blks bs (blk_link b) of
        Some _ \<Rightarrow> bs
      | None \<Rightarrow> bs\<lparr> br_blks := (br_blks bs)(blk_link b \<mapsto> b),
                   br_keys := br_keys bs @ [blk_link b] \<rparr>)"

text \<open>The loop over the configured iterator: it stops at the first error.\<close>

fun seq_fold :: "('s \<Rightarrow> block \<Rightarrow> 's) \<Rightarrow> 's \<Rightarrow> block_seq \<Rightarrow> err + 's" where
  "seq_fold put s [] = Inr s"
| "seq_fold put s (Inl e # rest) = Inl e"
| "seq_fold put s (Inr b # rest) = seq_fold put (put s b) rest"

definition NewBlockStore :: "block list \<Rightarrow> block_seq \<Rightarrow> err + blockreader" where
  "NewBlockStore blks blksiter = seq_fold bs_Put (foldl bs_Put br_empty blks) blksiter"

text \<open>The loop body of \<open>NewBlockReader\<close>: over the local map and keys.\<close>

definition reader_add :: "(link \<rightharpoonup> block) \<times> link list \<Rightarrow> block \<Rightarrow> (link \<rightharpoonup> block) \<times> link list" where
  "reader_add s b =
     (if blk_link b \<in> dom (fst s) then s
      else ((fst s)(blk_link b \<mapsto> b), snd s @ [blk_link b]))"

definition NewBlockReader :: "block list \<Rightarrow> block_seq \<Rightarrow> err + blockreader" where
  "NewBlockReader blks blksiter =
     (case seq_fold reader_add (foldl reader_add (Map.empty, []) blks) blksiter of
        Inl e \<Rightarrow> Inl e
      | Inr (m, ks) \<Rightarrow> Inr \<lparr> br_keys = ks, br_blks = m \<rparr>)"

text \<open>
  \<open>blockstore.WriteInto\<close>: the error of the iterator is not looked at, and the nil block it comes
  with is dereferenced by \<open>Put\<close>.
\<close>

fun bs_WriteInto :: "block_seq \<Rightarrow> blockreader \<Rightarrow> blockreader comp" where
  "bs_WriteInto [] bs = Ret bs"
| "bs_WriteInto (Inl e # rest) bs = Panic ''nil pointer dereference''"
| "bs_WriteInto (Inr b # rest) bs = bs_WriteInto rest (bs_Put bs b)"

section \<open>The contract of a container\<close>

text \<open>
  The first block of each link, in order: what a container that ignores a block whose link it
  has holds after a list of blocks.
\<close>

fun first_per_link :: "link set \<Rightarrow> block list \<Rightarrow> block list" where
  "first_per_link seen [] = []"
| "first_per_link seen (b # bs) =
     (if blk_link b \<in> seen then first_per_link seen bs
      else b # first_per_link (insert (blk_link b) seen) bs)"

locale block_container =
  fixes empty :: 's
    and put :: "'s \<Rightarrow> block \<Rightarrow> 's"
    and get :: "'s \<Rightarrow> link \<Rightarrow> block option"
    and iter :: "'s \<Rightarrow> block_seq"
    and inv :: "'s \<Rightarrow> bool"
  assumes inv_empty: "inv empty"
    and inv_put: "inv s \<Longrightarrow> inv (put s b)"
    and get_empty: "get empty l = None"
    and get_put: "inv s \<Longrightarrow>
          get (put s b) l = (if get s l = None \<and> l = blk_link b then Some b else get s l)"
    and iter_empty: "iter empty = []"
    and iter_put: "inv s \<Longrightarrow>
          iter (put s b) = iter s @ (if get s (blk_link b) = None then [Inr b] else [])"
begin

lemma inv_puts: "inv s \<Longrightarrow> inv (foldl put s bs)"
  by (induction bs arbitrary: s) (auto intro: inv_put)

lemma get_puts:
  "inv s \<Longrightarrow> get (foldl put s bs) l =
     (case get s l of Some b \<Rightarrow> Some b | None \<Rightarrow> find (\<lambda>b. blk_link b = l) bs)"
  by (induction bs arbitrary: s) (auto simp: inv_put get_put split: option.splits)

lemma iter_puts:
  "inv s \<Longrightarrow> iter (foldl put s bs) =
     iter s @ map Inr (first_per_link {l. get s l \<noteq> None} bs)"
proof (induction bs arbitrary: s)
  case (Cons b bs)
  have "{l. get (put s b) l \<noteq> None} =
        (if get s (blk_link b) = None then insert (blk_link b) {l. get s l \<noteq> None}
         else {l. get s l \<noteq> None})"
    using Cons.prems by (auto simp: get_put)
  with Cons show ?case by (auto simp: inv_put iter_put)
qed simp

lemma contents:
  "get (foldl put empty bs) l = find (\<lambda>b. blk_link b = l) bs"
  "iter (foldl put empty bs) = map Inr (first_per_link {} bs)"
  "inv (foldl put empty bs)"
  using get_puts [OF inv_empty] iter_puts [OF inv_empty] inv_puts [OF inv_empty]
  by (simp_all add: get_empty iter_empty)

end

section \<open>Both containers keep the contract\<close>

definition wf_store :: "blockreader \<Rightarrow> bool" where
  "wf_store br \<longleftrightarrow> distinct (br_keys br) \<and> set (br_keys br) = dom (br_blks br) \<and>
     (\<forall>k b. br_blks br k = Some b \<longrightarrow> blk_link b = k)"

lemma bs_Put_new:
  "br_blks bs (blk_link b) = None \<Longrightarrow>
     bs_Put bs b = \<lparr> br_keys = br_keys bs @ [blk_link b],
                     br_blks = (br_blks bs)(blk_link b \<mapsto> b) \<rparr>"
  by (cases bs) (simp add: bs_Put_def)

lemma bs_Put_old: "br_blks bs (blk_link b) \<noteq> None \<Longrightarrow> bs_Put bs b = bs"
  by (auto simp: bs_Put_def)

lemma wf_store_Put: "wf_store bs \<Longrightarrow> wf_store (bs_Put bs b)"
  by (cases "br_blks bs (blk_link b)")
     (auto simp: wf_store_def bs_Put_new bs_Put_old)

lemma br_Iterator_Put:
  assumes "wf_store bs"
  shows "br_Iterator (bs_Put bs b) =
         br_Iterator bs @ (if br_Get bs (blk_link b) = None then [Inr b] else [])"
proof (cases "br_blks bs (blk_link b)")
  case None
  then have "blk_link b \<notin> set (br_keys bs)" using assms by (auto simp: wf_store_def)
  with None show ?thesis by (auto simp: br_Iterator_def bs_Put_new br_Get_def)
qed (simp add: bs_Put_def br_Get_def)

interpretation store: block_container br_empty bs_Put br_Get br_Iterator wf_store
proof
  show "wf_store br_empty" by (simp add: wf_store_def br_empty_def)
  show "br_Get br_empty l = None" for l by (simp add: br_Get_def br_empty_def)
  show "br_Iterator br_empty = []" by (simp add: br_Iterator_def br_empty_def)
  show "br_Get (bs_Put s b) l = (if br_Get s l = None \<and> l = blk_link b then Some b else br_Get s l)"
    for s b l by (cases "br_blks s (blk_link b)") (auto simp: br_Get_def bs_Put_new bs_Put_old)
qed (auto intro: wf_store_Put simp: br_Iterator_Put)

definition as_reader :: "(link \<rightharpoonup> block) \<times> link list \<Rightarrow> blockreader" where
  "as_reader s = \<lparr> br_keys = snd s, br_blks = fst s \<rparr>"

lemma as_reader_add: "as_reader (reader_add s b) = bs_Put (as_reader s) b"
  by (cases "br_blks (as_reader s) (blk_link b)")
     (auto simp: bs_Put_new bs_Put_old as_reader_def reader_add_def)

interpretation rdr: block_container "(Map.empty, [])" reader_add
  "\<lambda>s. br_Get (as_reader s)" "\<lambda>s. br_Iterator (as_reader s)" "\<lambda>s. wf_store (as_reader s)"
proof -
  have e: "as_reader (Map.empty, []) = br_empty" by (simp add: as_reader_def br_empty_def)
  show "block_container (Map.empty, []) reader_add (\<lambda>s. br_Get (as_reader s))
          (\<lambda>s. br_Iterator (as_reader s)) (\<lambda>s. wf_store (as_reader s))"
    by unfold_locales
       (simp_all add: e as_reader_add store.inv_empty store.inv_put store.get_empty store.get_put
          store.iter_empty store.iter_put)
qed

lemma seq_fold_ok: "seq_fold put s (map Inr bs) = Inr (foldl put s bs)"
  by (induction bs arbitrary: s) auto

lemma seq_fold_Inr:
  "seq_fold put s seq = Inr s' \<longleftrightarrow> (\<exists>bs. seq = map Inr bs \<and> s' = foldl put s bs)"
proof (induction put s seq rule: seq_fold.induct)
  case (2 put s e rest)
  then show ?case by (auto simp: Cons_eq_map_conv)
next
  case (3 put s b rest)
  then show ?case
    by (metis (no_types, opaque_lifting) foldl_Cons list.simps(9) map_eq_Cons_D seq_fold.simps(3)
        seq_fold_ok sum.inject(2))
qed auto

lemma foldl_reader_add: "as_reader (foldl reader_add s bs) = foldl bs_Put (as_reader s) bs"
  by (induction bs arbitrary: s) (auto simp: as_reader_add)

lemma NewBlockStore_Inr:
  "NewBlockStore blks seq = Inr s \<longleftrightarrow>
     (\<exists>bs. seq = map Inr bs \<and> s = foldl bs_Put br_empty (blks @ bs))"
  by (auto simp: NewBlockStore_def seq_fold_Inr)

lemma seq_fold_reader_add:
  "(case seq_fold reader_add s seq of Inl e \<Rightarrow> Inl e | Inr t \<Rightarrow> Inr (as_reader t)) =
   seq_fold bs_Put (as_reader s) seq"
  by (induction reader_add s seq rule: seq_fold.induct) (auto simp: as_reader_add)

lemma NewBlockReader_eq_NewBlockStore: "NewBlockReader blks seq = NewBlockStore blks seq"
proof -
  have "as_reader (foldl reader_add (Map.empty, []) blks) = foldl bs_Put br_empty blks"
    by (simp add: foldl_reader_add) (simp add: as_reader_def br_empty_def)
  then show ?thesis
    using seq_fold_reader_add [of "foldl reader_add (Map.empty, []) blks" seq]
    by (cases "seq_fold reader_add (foldl reader_add (Map.empty, []) blks) seq")
       (auto simp: NewBlockReader_def NewBlockStore_def as_reader_def)
qed

lemma NewBlockReader_contents:
  assumes "NewBlockReader blks (map Inr bs) = Inr s"
  shows "br_Get s l = find (\<lambda>b. blk_link b = l) (blks @ bs)"
    and "br_Iterator s = map Inr (first_per_link {} (blks @ bs))"
    and "wf_store s"
  using assms store.contents [of "blks @ bs"]
  by (auto simp: NewBlockReader_eq_NewBlockStore NewBlockStore_def seq_fold_ok)

lemma NewBlockReader_total: "\<exists>s. NewBlockReader blks (map Inr bs) = Inr s"
  by (simp add: NewBlockReader_eq_NewBlockStore NewBlockStore_def seq_fold_ok)

lemma WriteInto_ok: "bs_WriteInto (map Inr bs) s = Ret (foldl bs_Put s bs)"
  by (induction bs arbitrary: s) auto

lemma WriteInto_error: "Inl e \<in> set seq \<Longrightarrow> \<exists>p. bs_WriteInto seq s = Panic p"
  by (induction seq s rule: bs_WriteInto.induct) auto

lemma find_Some_link: "find (\<lambda>b. blk_link b = l) bs = Some b \<Longrightarrow> b \<in> set bs \<and> blk_link b = l"
  by (auto simp: find_Some_iff)

lemma find_link_None: "find (\<lambda>b. blk_link b = l) bs = None \<longleftrightarrow> l \<notin> blk_link ` set bs"
  by (auto simp: find_None_iff)

lemma first_per_link_subset: "set (first_per_link seen bs) \<subseteq> set bs"
  by (induction bs arbitrary: seen) (auto split: if_splits)

lemma first_per_link_links:
  "blk_link ` set (first_per_link seen bs) = blk_link ` set bs - seen"
  by (induction bs arbitrary: seen) auto

lemma first_per_link_distinct: "distinct (map blk_link (first_per_link seen bs))"
proof (induction bs arbitrary: seen)
  case (Cons b bs)
  have "blk_link b \<notin> blk_link ` set (first_per_link (insert (blk_link b) seen) bs)"
    by (simp add: first_per_link_links)
  with Cons show ?case by simp
qed simp

section \<open>Properties\<close>

text \<open>
  C33. A store built from a slice of blocks and an iterator that yields no error is the reader
  built from the same: looking a link up gives the first of the blocks with that link, and
  iterating gives one block per link, in the order of arrival and without an error.
\<close>

theorem blockstore_contents:
  "NewBlockReader blks (map Inr bs) = NewBlockStore blks (map Inr bs) \<and>
   (\<exists>s. NewBlockStore blks (map Inr bs) = Inr s \<and>
        (\<forall>l. br_Get s l = find (\<lambda>b. blk_link b = l) (blks @ bs)) \<and>
        br_Iterator s = map Inr (first_per_link {} (blks @ bs)) \<and>
        distinct (map blk_link (first_per_link {} (blks @ bs))))"
  using NewBlockReader_contents [of blks bs] NewBlockReader_total [of blks bs]
  by (auto simp: NewBlockReader_eq_NewBlockStore first_per_link_distinct)



text \<open>
  \<open>WriteInto\<close> of a view whose iterator yields an error dereferences the nil block that comes
  with it; without an error every block is put, in order.
\<close>

theorem write_into_outcome:
  "(bs_WriteInto seq s = Ret s' \<longleftrightarrow> (\<exists>bs. seq = map Inr bs \<and> s' = foldl bs_Put s bs)) \<and>
   ((\<exists>p. bs_WriteInto seq s = Panic p) \<longleftrightarrow> (\<exists>e. Inl e \<in> set seq))"
proof (cases "\<exists>e. Inl e \<in> set seq")
  case True
  then obtain p where "bs_WriteInto seq s = Panic p" using WriteInto_error by blast
  with True show ?thesis by auto
next
  case False
  then obtain bs where "seq = map Inr bs" by (metis ex_map_conv obj_sumE)
  then show ?thesis by (auto simp: WriteInto_ok dest: inj_map_eq_map [THEN iffD1, rotated])
qed

end
