(* ===== verification/Ucan.thy ===== *)
theory Ucan
  imports Blockstore
begin

text \<open>
  ucan: the UCAN data model and its view, capabilities, the payload that is signed, issuing,
  signature verification and the time window. The DAG-JSON encodings of the header and the
  payload and the DAG-CBOR codec of the model are the parameter record \<open>ucanlib\<close>; the clock
  reading of \<open>Now()\<close> is the argument \<open>now\<close>.
\<close>

section \<open>Data models\<close>

record capability_model =
  cm_With :: string
  cm_Can :: string
  cm_Nb :: "node option"

record fact_model =
  fct_Keys :: "string list"
  fct_Values :: "string \<rightharpoonup> node"

record ucan_model =
  um_V :: string
  um_Iss :: bytes
  um_Aud :: bytes
  um_S :: bytes
  um_Att :: "capability_model list"
  um_Prf :: "link list"
  um_Exp :: "int option"
  um_Fct :: "fact_model list"
  um_Nnc :: "string option"
  um_Nbf :: "int option"

record payload_model =
  pm_Iss :: string
  pm_Aud :: string
  pm_Att :: "capability_model list"
  pm_Prf :: "string list"
  pm_Exp :: "int option"
  pm_Fct :: "fact_model list"
  pm_Nnc :: "string option"
  pm_Nbf :: "int option"

record header_model =
  hm_Alg :: string
  hm_Ucv :: string
  hm_Typ :: string

record ucanlib =
  ul_header :: "header_model \<Rightarrow> err + bytes"
    \<comment> \<open>\<open>ipld.Marshal\<close> with DAG-JSON at header.ipldsch\<close>
  ul_payload :: "payload_model \<Rightarrow> err + bytes"
    \<comment> \<open>\<open>ipld.Marshal\<close> with DAG-JSON at payload.ipldsch\<close>
  ul_cbor :: "ucan_model codec"
    \<comment> \<open>the DAG-CBOR codec at ucan.ipldsch\<close>
  ul_archive :: "link codec"
    \<comment> \<open>the DAG-CBOR codec of an \<open>ArchiveModel\<close>, which is one link, at archive.ipldsch\<close>

section \<open>Capabilities\<close>

text \<open>\<open>ucan.Capability[C]\<close>: an ability, a resource and caveats of some type.\<close>

record 'c capability =
  cp_Can :: string
  cp_With :: string
  cp_Nb :: 'c

definition NewCapability :: "string \<Rightarrow> string \<Rightarrow> 'c \<Rightarrow> 'c capability" where
  "NewCapability can w nb = \<lparr> cp_Can = can, cp_With = w, cp_Nb = nb \<rparr>"

text \<open>
  \<open>MarshalJSON\<close>: \<open>json.Marshal\<close>, a parameter, of a struct with the caveats as \<open>any\<close> (left out of the text
  when they are nil).
\<close>

record json_model =
  jm_Can :: string
  jm_With :: string
  jm_Nb :: gany

definition capability_MarshalJSON :: "(json_model \<Rightarrow> err + string) \<Rightarrow> gany capability \<Rightarrow> err + string" where
  "capability_MarshalJSON marshal c = marshal \<lparr> jm_Can = cp_Can c, jm_With = cp_With c, jm_Nb = cp_Nb c \<rparr>"

text \<open>
  A value that is an \<open>ipld.Builder\<close>: the name of its dynamic type and what its \<open>ToIPLD\<close> returns.
  The caveats of a capability that is issued are one. \<open>NoCaveats.ToIPLD\<close> is the empty map.
\<close>

datatype builder = Builder (bd_type: string) (bd_ToIPLD: "err + node")

definition NoCaveats_ToIPLD :: "err + node" where
  "NoCaveats_ToIPLD = Inr (NMap [])"

definition NoCaveats :: builder where
  "NoCaveats = Builder ''ucan.NoCaveats'' NoCaveats_ToIPLD"

text \<open>The \<open>Nb\<close> field as \<open>any\<close>: an absent one is a nil interface.\<close>

definition any_of_node :: "node option \<Rightarrow> gany" where
  "any_of_node nb = (case nb of None \<Rightarrow> GNil | Some n \<Rightarrow> GNode n)"

section \<open>The view\<close>

definition ucan_Audience :: "extlib \<Rightarrow> ucan_model \<Rightarrow> did" where
  "ucan_Audience L u = (case did_Decode L (um_Aud u) of Inl _ \<Rightarrow> Undef | Inr d \<Rightarrow> d)"

definition ucan_Issuer :: "extlib \<Rightarrow> ucan_model \<Rightarrow> did" where
  "ucan_Issuer L u = (case did_Decode L (um_Iss u) of Inl _ \<Rightarrow> Undef | Inr d \<Rightarrow> d)"

definition ucan_Capabilities :: "ucan_model \<Rightarrow> gany capability list" where
  "ucan_Capabilities u =
     map (\<lambda>c. NewCapability (cm_Can c) (cm_With c) (any_of_node (cm_Nb c))) (um_Att u)"

definition ucan_Expiration :: "ucan_model \<Rightarrow> int option" where
  "ucan_Expiration u = um_Exp u"

definition ucan_NotBefore :: "ucan_model \<Rightarrow> int" where
  "ucan_NotBefore u = (case um_Nbf u of None \<Rightarrow> 0 | Some n \<Rightarrow> n)"

definition ucan_Nonce :: "ucan_model \<Rightarrow> string" where
  "ucan_Nonce u = (case um_Nnc u of None \<Rightarrow> [] | Some n \<Rightarrow> n)"

definition ucan_Facts :: "ucan_model \<Rightarrow> (string \<rightharpoonup> gany) list" where
  "ucan_Facts u = map (\<lambda>f k. map_option GNode (fct_Values f k)) (um_Fct u)"

definition ucan_Proofs :: "ucan_model \<Rightarrow> link list" where
  "ucan_Proofs u = um_Prf u"

definition ucan_Signature :: "ucan_model \<Rightarrow> signature" where
  "ucan_Signature u = NewSignatureView (sig_Decode (um_S u))"

definition ucan_Version :: "ucan_model \<Rightarrow> string" where
  "ucan_Version u = um_V u"

definition NewUCAN :: "ucan_model \<Rightarrow> err + ucan_model" where
  "NewUCAN m = Inr m"

section \<open>The signed payload\<close>

definition FormatHeader :: "extlib \<Rightarrow> ucanlib \<Rightarrow> string \<Rightarrow> string \<Rightarrow> err + string" where
  "FormatHeader L U ver alg =
     (case ul_header U \<lparr> hm_Alg = alg, hm_Ucv = ver, hm_Typ = ''JWT'' \<rparr> of
        Inl e \<Rightarrow> Inl (''dag-json encoding header: '' @ e)
      | Inr b \<Rightarrow> Inr (b64url L b))"

definition FormatPayload :: "extlib \<Rightarrow> ucanlib \<Rightarrow> payload_model \<Rightarrow> err + string" where
  "FormatPayload L U p =
     (case ul_payload U p of
        Inl e \<Rightarrow> Inl (''dag-json encoding payload: '' @ e)
      | Inr b \<Rightarrow> Inr (b64url L b))"

text \<open>The error of a header is formatted from the (empty) header, not from the error.\<close>

definition FormatSignPayload ::
    "extlib \<Rightarrow> ucanlib \<Rightarrow> payload_model \<Rightarrow> string \<Rightarrow> string \<Rightarrow> err + string" where
  "FormatSignPayload L U p ver alg =
     (case FormatHeader L U ver alg of
        Inl e \<Rightarrow> Inl (''formatting header: '' @ [])
      | Inr hdr \<Rightarrow>
          (case FormatPayload L U p of
             Inl e \<Rightarrow> Inl (''formatting payload: '' @ e)
           | Inr pld \<Rightarrow> Inr (hdr @ ''.'' @ pld)))"

definition FormatSignature :: "extlib \<Rightarrow> signature \<Rightarrow> string comp" where
  "FormatSignature L s = cmap (b64url L) (sig_Raw L s)"

definition encodeSignaturePayload ::
    "extlib \<Rightarrow> ucanlib \<Rightarrow> payload_model \<Rightarrow> string \<Rightarrow> string \<Rightarrow> err + bytes" where
  "encodeSignaturePayload L U p ver alg = FormatSignPayload L U p ver alg"

section \<open>Issuing\<close>

text \<open>\<open>FactBuilder.ToIPLD\<close> gives a map; its pairs are listed in the order Go ranges over it.\<close>

type_synonym fact_builder = "err + (string \<times> node) list"

datatype ucan_option =
    WithExpiration int | WithNoExpiration | WithNotBefore int | WithNonce string
  | WithFacts "fact_builder list" | WithProof "link list"

record ucanConfig =
  uc_exp :: "int option"
  uc_noexp :: bool
  uc_nbf :: int
  uc_nnc :: string
  uc_fct :: "fact_builder list"
  uc_prf :: "link list"

definition ucanConfig0 :: ucanConfig where
  "ucanConfig0 = \<lparr> uc_exp = None, uc_noexp = False, uc_nbf = 0, uc_nnc = [], uc_fct = [],
                   uc_prf = [] \<rparr>"

fun apply_ucan_option :: "ucanConfig \<Rightarrow> ucan_option \<Rightarrow> ucanConfig" where
  "apply_ucan_option cfg (WithExpiration e) = cfg\<lparr> uc_exp := Some e, uc_noexp := False \<rparr>"
| "apply_ucan_option cfg WithNoExpiration = cfg\<lparr> uc_exp := None, uc_noexp := True \<rparr>"
| "apply_ucan_option cfg (WithNotBefore n) = cfg\<lparr> uc_nbf := n \<rparr>"
| "apply_ucan_option cfg (WithNonce s) = cfg\<lparr> uc_nnc := s \<rparr>"
| "apply_ucan_option cfg (WithFacts fs) = cfg\<lparr> uc_fct := fs \<rparr>"
| "apply_ucan_option cfg (WithProof ls) = cfg\<lparr> uc_prf := ls \<rparr>"

definition ucan_version :: string where "ucan_version = ''0.9.1''"

definition build_capability :: "builder capability \<Rightarrow> err + capability_model" where
  "build_capability c =
     (case bd_ToIPLD (cp_Nb c) of
        Inl e \<Rightarrow> Inl (''building caveats: '' @ e)
      | Inr nb \<Rightarrow> Inr \<lparr> cm_With = cp_With c, cm_Can = cp_Can c, cm_Nb = Some nb \<rparr>)"

definition build_fact :: "fact_builder \<Rightarrow> err + fact_model" where
  "build_fact f =
     (case f of
        Inl e \<Rightarrow> Inl (''building fact: '' @ e)
      | Inr vals \<Rightarrow> Inr \<lparr> fct_Keys = map fst vals, fct_Values = map_of vals \<rparr>)"

definition issue_exp :: "int \<Rightarrow> ucanConfig \<Rightarrow> int option" where
  "issue_exp now cfg =
     (if uc_noexp cfg then None
      else (case uc_exp cfg of None \<Rightarrow> Some (now + 30) | Some e \<Rightarrow> Some e))"

definition ucan_Issue ::
    "extlib \<Rightarrow> ucanlib \<Rightarrow> int \<Rightarrow> signer \<Rightarrow> did \<Rightarrow> builder capability list \<Rightarrow> ucan_option list \<Rightarrow>
     (err + ucan_model) comp" where
  "ucan_Issue L U now issuer audience capabilities options =
     (let cfg = foldl apply_ucan_option ucanConfig0 options;
          exp = issue_exp now cfg
      in case emapM build_capability capabilities of
           Inl e \<Rightarrow> Ret (Inl e)
         | Inr capsmdl \<Rightarrow>
             (case emapM build_fact (uc_fct cfg) of
                Inl e \<Rightarrow> Ret (Inl e)
              | Inr fctsmdl \<Rightarrow>
                  cbind (did_String L (sg_DID issuer)) (\<lambda>iss.
                  cbind (did_String L audience) (\<lambda>aud.
                    let nnc = (if uc_nnc cfg \<noteq> [] then Some (uc_nnc cfg) else None);
                        nbf = (if uc_nbf cfg \<noteq> 0 then Some (uc_nbf cfg) else None);
                        payload = \<lparr> pm_Iss = iss, pm_Aud = aud, pm_Att = capsmdl,
                                    pm_Prf = uc_prf cfg, pm_Exp = exp, pm_Fct = fctsmdl,
                                    pm_Nnc = nnc, pm_Nbf = nbf \<rparr>
                    in case encodeSignaturePayload L U payload ucan_version
                              (sg_SignatureAlgorithm issuer) of
                         Inl e \<Rightarrow> Ret (Inl (''encoding signature payload: '' @ e))
                       | Inr bs \<Rightarrow>
                           cbind (sg_Sign issuer bs) (\<lambda>s.
                             Ret (NewUCAN \<lparr> um_V = ucan_version, um_Iss = did_Bytes (sg_DID issuer),
                                            um_Aud = did_Bytes audience, um_S = sig_Bytes s,
                                            um_Att = capsmdl, um_Prf = uc_prf cfg, um_Exp = exp,
                                            um_Fct = fctsmdl, um_Nnc = nnc, um_Nbf = nbf \<rparr>))))))"

section \<open>Verifying\<close>

definition verify_payload :: "extlib \<Rightarrow> ucan_model \<Rightarrow> payload_model comp" where
  "verify_payload L u =
     cbind (did_String L (ucan_Issuer L u)) (\<lambda>iss.
     cbind (did_String L (ucan_Audience L u)) (\<lambda>aud.
       Ret \<lparr> pm_Iss = iss, pm_Aud = aud, pm_Att = um_Att u, pm_Prf = ucan_Proofs u,
             pm_Exp = ucan_Expiration u, pm_Fct = um_Fct u, pm_Nnc = um_Nnc u, pm_Nbf = um_Nbf u \<rparr>))"

definition ucan_VerifySignature ::
    "extlib \<Rightarrow> ucanlib \<Rightarrow> ucan_model \<Rightarrow> verifier \<Rightarrow> (err + bool) comp" where
  "ucan_VerifySignature L U u vrf =
     (case CodeName (sig_Code L (ucan_Signature u)) of
        Inl e \<Rightarrow> Ret (Inl e)
      | Inr alg \<Rightarrow>
          cbind (verify_payload L u) (\<lambda>payload.
            case encodeSignaturePayload L U payload (ucan_Version u) alg of
              Inl e \<Rightarrow> Ret (Inl e)
            | Inr msg \<Rightarrow>
                if ucan_Issuer L u = vf_DID vrf
                then cmap Inr (vf_Verify vrf msg (ucan_Signature u))
                else Ret (Inr False)))"

section \<open>The time window\<close>

definition IsExpired :: "int \<Rightarrow> ucan_model \<Rightarrow> bool" where
  "IsExpired now u = (case ucan_Expiration u of None \<Rightarrow> False | Some e \<Rightarrow> e \<le> now)"

definition IsTooEarly :: "int \<Rightarrow> ucan_model \<Rightarrow> bool" where
  "IsTooEarly now u = (let nbf = ucan_NotBefore u in nbf \<noteq> 0 \<and> now \<le> nbf)"

section \<open>What issuing gives\<close>

lemma uv_put_nonempty: "varint_ok L \<Longrightarrow> n < MaxUvarint \<Longrightarrow> uv_put L n \<noteq> []"
  by (metis length_greater_0_conv varint_length varint_size_pos)

lemma wf_did_defined: "varint_ok L \<Longrightarrow> wf_did L d \<Longrightarrow> did_Defined d"
  by (erule wf_did_cases) (auto simp: did_Defined_def uv_put_nonempty)

lemma did_decode_wf:
  assumes "varint_ok L" "wf_did L d"
  shows "did_Decode L (did_Bytes d) = Inr d"
  using assms(2) wf_did_defined [OF assms]
  by (cases rule: wf_did_cases) (auto simp: did_Bytes_def decode_tagged [OF assms(1)])

lemma did_string_wf:
  assumes "varint_ok L" "wf_did L d"
  shows "\<exists>s. did_String L d = Ret s"
  using assms(2) by (cases rule: wf_did_cases) (auto simp: string_core [OF assms(1)])

text \<open>The fields of an issued UCAN, and the payload that was signed for it.\<close>

lemma issue_inversion:
  assumes "ucan_Issue L U now sg aud caps opts = Ret (Inr u)"
  defines "cfg \<equiv> foldl apply_ucan_option ucanConfig0 opts"
  obtains capsmdl fcts iss audstr msg s where
    "emapM build_capability caps = Inr capsmdl" "emapM build_fact (uc_fct cfg) = Inr fcts"
    "did_String L (sg_DID sg) = Ret iss" "did_String L aud = Ret audstr"
    "encodeSignaturePayload L U
        \<lparr> pm_Iss = iss, pm_Aud = audstr, pm_Att = capsmdl, pm_Prf = uc_prf cfg,
          pm_Exp = issue_exp now cfg, pm_Fct = fcts,
          pm_Nnc = (if uc_nnc cfg \<noteq> [] then Some (uc_nnc cfg) else None),
          pm_Nbf = (if uc_nbf cfg \<noteq> 0 then Some (uc_nbf cfg) else None) \<rparr>
        ucan_version (sg_SignatureAlgorithm sg) = Inr msg"
    "sg_Sign sg msg = Ret s"
    "u = \<lparr> um_V = ucan_version, um_Iss = did_Bytes (sg_DID sg), um_Aud = did_Bytes aud,
           um_S = s, um_Att = capsmdl, um_Prf = uc_prf cfg, um_Exp = issue_exp now cfg,
           um_Fct = fcts, um_Nnc = (if uc_nnc cfg \<noteq> [] then Some (uc_nnc cfg) else None),
           um_Nbf = (if uc_nbf cfg \<noteq> 0 then Some (uc_nbf cfg) else None) \<rparr>"
  using assms
  by (simp add: ucan_Issue_def Let_def case_sum_eq NewUCAN_def sig_Bytes_def) blast

lemma built_capability: "build_capability c = Inr m \<Longrightarrow>
    cm_Can m = cp_Can c \<and> cm_With m = cp_With c \<and> (\<exists>n. bd_ToIPLD (cp_Nb c) = Inr n \<and> cm_Nb m = Some n)"
  by (auto simp: build_capability_def case_sum_eq)

lemma issued_capabilities:
  assumes "emapM build_capability caps = Inr ms" "um_Att u = ms"
  shows "list_all2 (\<lambda>c d. cp_Can d = cp_Can c \<and> cp_With d = cp_With c \<and>
           (\<exists>n. bd_ToIPLD (cp_Nb c) = Inr n \<and> cp_Nb d = GNode n)) caps (ucan_Capabilities u)"
proof -
  have "list_all2 (\<lambda>c m. build_capability c = Inr m) caps ms"
    using assms(1) by (simp add: emapM_Inr)
  then have "list_all2 (\<lambda>c m. cm_Can m = cp_Can c \<and> cm_With m = cp_With c \<and>
      (\<exists>n. bd_ToIPLD (cp_Nb c) = Inr n \<and> cm_Nb m = Some n)) caps ms"
    by (rule list_all2_mono) (rule built_capability)
  then have "list_all2 (\<lambda>c m. cp_Can (NewCapability (cm_Can m) (cm_With m) (any_of_node (cm_Nb m))) = cp_Can c \<and>
      cp_With (NewCapability (cm_Can m) (cm_With m) (any_of_node (cm_Nb m))) = cp_With c \<and>
      (\<exists>n. bd_ToIPLD (cp_Nb c) = Inr n \<and> cp_Nb (NewCapability (cm_Can m) (cm_With m) (any_of_node (cm_Nb m))) = GNode n)) caps ms"
    by (rule list_all2_mono) (auto simp: NewCapability_def any_of_node_def)
  then show ?thesis using assms(2) by (simp add: ucan_Capabilities_def list_all2_map2)
qed

section \<open>The contract of a signer of UCANs\<close>

text \<open>
  A signature scheme whose algorithm has the name its signers report: what it issues is
  verified by its verifier, under whatever well-formed DID the two share.
\<close>

locale ucan_scheme = signature_scheme usable libs alg sign verify
  for usable :: "'k \<Rightarrow> bool" and libs :: "'k \<Rightarrow> extlib" and alg :: nat
    and sign :: "'k \<Rightarrow> bytes \<Rightarrow> signature comp"
    and verify :: "'k \<Rightarrow> bytes \<Rightarrow> signature \<Rightarrow> bool comp" +
  fixes algorithm :: string
  assumes alg_name: "CodeName alg = Inr algorithm"
begin

lemma issue_then_verify:
  assumes k: "usable k" and sg: "sg_Sign sg = sign k" "sg_SignatureAlgorithm sg = algorithm"
    and v: "vf_Verify v = verify k" "vf_DID v = sg_DID sg"
    and wf: "wf_did (libs k) (sg_DID sg)" "wf_did (libs k) aud"
    and u: "ucan_Issue (libs k) U now sg aud caps opts = Ret (Inr u)"
  shows "ucan_VerifySignature (libs k) U u v = Ret (Inr True)"
proof -
  let ?L = "libs k" and ?cfg = "foldl apply_ucan_option ucanConfig0 opts"
  note L = usable_libs [OF k]
  from u obtain capsmdl fcts iss audstr msg s where
    a: "did_String ?L (sg_DID sg) = Ret iss" "did_String ?L aud = Ret audstr"
      "encodeSignaturePayload ?L U
        \<lparr> pm_Iss = iss, pm_Aud = audstr, pm_Att = capsmdl, pm_Prf = uc_prf ?cfg,
          pm_Exp = issue_exp now ?cfg, pm_Fct = fcts,
          pm_Nnc = (if uc_nnc ?cfg \<noteq> [] then Some (uc_nnc ?cfg) else None),
          pm_Nbf = (if uc_nbf ?cfg \<noteq> 0 then Some (uc_nbf ?cfg) else None) \<rparr>
        ucan_version (sg_SignatureAlgorithm sg) = Inr msg"
      "sg_Sign sg msg = Ret s"
    and u': "u = \<lparr> um_V = ucan_version, um_Iss = did_Bytes (sg_DID sg), um_Aud = did_Bytes aud,
           um_S = s, um_Att = capsmdl, um_Prf = uc_prf ?cfg, um_Exp = issue_exp now ?cfg,
           um_Fct = fcts, um_Nnc = (if uc_nnc ?cfg \<noteq> [] then Some (uc_nnc ?cfg) else None),
           um_Nbf = (if uc_nbf ?cfg \<noteq> 0 then Some (uc_nbf ?cfg) else None) \<rparr>"
    by (rule issue_inversion)
  have c: "sig_Code ?L s = alg" "verify k msg s = Ret True"
    using sign_tagged [OF k, of msg] sign_verifies [OF k] a(4) sg(1) by auto
  have i: "ucan_Issuer ?L u = sg_DID sg" "ucan_Audience ?L u = aud"
    using did_decode_wf [OF L wf(1)] did_decode_wf [OF L wf(2)]
    by (simp_all add: u' ucan_Issuer_def ucan_Audience_def)
  have "ucan_Signature u = s"
    by (simp add: u' ucan_Signature_def NewSignatureView_def sig_Bytes_def sig_Decode_def)
  then show ?thesis
    using c a i sg(2) v alg_name
    by (simp add: ucan_VerifySignature_def verify_payload_def u' ucan_Proofs_def
        ucan_Expiration_def ucan_Version_def)
qed

end

interpretation ed_ucan: ucan_scheme ed_usable fst EdDSA ed_key_sign ed_key_verify ed_SignatureAlgorithm
  by unfold_locales (simp add: CodeName_def ed_SignatureAlgorithm_def code_defs)

interpretation rsa_ucan: ucan_scheme rsa_usable fst RS256 rsa_key_sign rsa_key_verify "''RS256''"
  by unfold_locales (simp add: CodeName_def code_defs)

section \<open>A concrete encoder, signer and UCAN for the witnesses\<close>

definition ucanlib0 :: ucanlib where
  "ucanlib0 = \<lparr> ul_header = (\<lambda>h. Inr (hm_Alg h)), ul_payload = (\<lambda>p. Inr (pm_Iss p @ pm_Aud p)),
                ul_cbor = \<lparr> cd_Code = 113, cd_Encode = (\<lambda>u. Inr (um_S u)),
                            cd_Decode = (\<lambda>b. Inl ''unsupported'') \<rparr>,
                ul_archive = \<lparr> cd_Code = 113, cd_Encode = (\<lambda>l. Inr l), cd_Decode = (\<lambda>b. Inr b) \<rparr> \<rparr>"

definition did0 :: "string \<Rightarrow> did" where
  "did0 name = DID False (uv_put lib0 DIDCore @ ''web:'' @ name)"

definition key0 :: bytes where
  "key0 = eds_bytes lib0 (replicate 32 (CHR ''s'')) (replicate 32 (CHR ''p''))"

definition pub0 :: bytes where
  "pub0 = uv_put lib0 edv_Code @ replicate 32 (CHR ''p'')"

definition signer0 :: "did \<Rightarrow> signer" where
  "signer0 d = \<lparr> sg_DID = d, sg_SignatureCode = EdDSA, sg_SignatureAlgorithm = ed_SignatureAlgorithm,
                 sg_Sign = eds_Sign lib0 key0 \<rparr>"

definition verifier0 :: "did \<Rightarrow> verifier" where
  "verifier0 d = (edv_verifier lib0 pub0)\<lparr> vf_DID := d \<rparr>"

lemma wf_did0: "wf_did lib0 (did0 name)"
  by (auto simp: wf_did_def did0_def HasPrefix_def)

lemma string_did0: "did_String lib0 (did0 name) = Ret (''did:web:'' @ name)"
  using string_core [OF lib0_varint_ok, of "''web:'' @ name"] by (simp add: did0_def)

lemma signer0_eds: "eds_signer lib0 key0 = Ret (signer0 (DID True pub0))"
  using eds_did_bytes(1) [OF lib0_varint_ok, of "replicate 32 (CHR ''s'')" "replicate 32 (CHR ''p'')"]
  by (simp add: eds_signer_def signer0_def key0_def pub0_def)

lemma signer0_wrap:
  "wrap_signer lib0 (signer0 (DID True pub0)) (edv_verifier lib0 pub0) d =
     Ret (Inr (signer0 d, verifier0 d))"
  using eds_did_bytes(3) [OF lib0_varint_ok, of "replicate 32 (CHR ''s'')" "replicate 32 (CHR ''p'')"]
  by (simp add: wrap_signer_def wrap_verifier_def signer0_def verifier0_def edv_verifier_def
      HasPrefix_def pub0_def)

lemma signer0_DID [simp]: "sg_DID (signer0 d) = d"
  by (simp add: signer0_def)

lemma signer0_signs: "\<exists>s. sg_Sign (signer0 d) m = Ret s"
  using eds_sign_bytes [OF lib0_varint_ok lib0_ed25519_ok, of "replicate 32 (CHR ''s'')"
      "replicate 32 (CHR ''p'')" m]
  by (simp add: signer0_def key0_def)

lemma issue0_wf:
  assumes "wf_did lib0 i" "wf_did lib0 a" "\<And>c. c \<in> set caps \<Longrightarrow> \<exists>n. bd_ToIPLD (cp_Nb c) = Inr n"
    and "uc_fct (foldl apply_ucan_option ucanConfig0 opts) = []"
  shows "\<exists>u. ucan_Issue lib0 ucanlib0 now (signer0 i) a caps opts = Ret (Inr u)"
proof -
  have "\<exists>ms. emapM build_capability caps = Inr ms"
    using assms(3) by (induction caps) (fastforce simp: build_capability_def)+
  moreover obtain sg where "\<And>d m. sg_Sign (signer0 d) m = Ret (sg d m)"
    using signer0_signs by metis
  moreover obtain s t where "did_String lib0 i = Ret s" "did_String lib0 a = Ret t"
    using did_string_wf [OF lib0_varint_ok] assms(1,2) by blast
  ultimately show ?thesis
    using assms(4)
    by (auto simp: ucan_Issue_def Let_def encodeSignaturePayload_def FormatSignPayload_def
        FormatHeader_def FormatPayload_def ucanlib0_def NewUCAN_def)
qed

lemmas issue0 = issue0_wf [OF wf_did0 wf_did0]

section \<open>Properties\<close>

lemma wrapped_ed_signer:
  assumes "varint_ok L" "length seed = 32"
    and "eds_signer L (eds_bytes L seed pub) = Ret sg"
    and "wrap_signer L sg (edv_verifier L (uv_put L edv_Code @ pub)) ident = Ret (Inr (wsg, wv))"
  shows "sg_Sign wsg = eds_Sign L (eds_bytes L seed pub)" "sg_SignatureAlgorithm wsg = ed_SignatureAlgorithm"
    "sg_DID wsg = ident" "vf_DID wv = ident" "vf_Verify wv = edv_Verify L (uv_put L edv_Code @ pub)"
  using assms(3,4) eds_did_bytes [OF assms(1,2)]
  by (auto simp: eds_signer_def wrap_signer_def wrap_verifier_def edv_verifier_def case_sum_eq
      split: if_splits)



text \<open>
  The time window of an issued UCAN: it expires at the configured second, or 30 seconds
  after issuing when none is configured, or never; it is not active before and at its
  not-before second, when that is not zero.
\<close>

theorem issued_time_window:
  assumes "ucan_Issue L U now sg aud caps opts = Ret (Inr u)"
  defines "cfg \<equiv> foldl apply_ucan_option ucanConfig0 opts"
  shows "(IsExpired t u \<longleftrightarrow>
            \<not> uc_noexp cfg \<and> (case uc_exp cfg of None \<Rightarrow> now + 30 | Some e \<Rightarrow> e) \<le> t) \<and>
         (IsTooEarly t u \<longleftrightarrow> uc_nbf cfg \<noteq> 0 \<and> t \<le> uc_nbf cfg)"
  using assms
  by (auto elim!: issue_inversion simp: IsExpired_def IsTooEarly_def ucan_Expiration_def
      ucan_NotBefore_def issue_exp_def Let_def split: option.splits if_splits)

theorem issued_time_window_witness:
  "\<exists>u. ucan_Issue lib0 ucanlib0 1000 (signer0 (did0 ''s'')) (did0 ''a'') [] [WithNotBefore 1005]
           = Ret (Inr u) \<and>
       \<not> IsExpired 1029 u \<and> IsExpired 1030 u \<and> IsTooEarly 1005 u \<and> \<not> IsTooEarly 1006 u"
proof -
  obtain u where u: "ucan_Issue lib0 ucanlib0 1000 (signer0 (did0 ''s'')) (did0 ''a'') []
      [WithNotBefore 1005] = Ret (Inr u)"
    using issue0 [of "[]" "[WithNotBefore 1005]" 1000 "''s''" "''a''"] by (auto simp: ucanConfig0_def)
  show ?thesis
    using issued_time_window [OF u, of 1029] issued_time_window [OF u, of 1030]
      issued_time_window [OF u, of 1005] issued_time_window [OF u, of 1006] u
    by (simp add: ucanConfig0_def)
qed



end
