(* ===== verification/Car.thy ===== *)
theory Car
  imports Ucan
begin

text \<open>
  core/car: writing roots and blocks as a CAR and reading one back with the integrity check and
  the offsets of the blocks. The header's encoding, the length-prefixed sections and the CID
  functions are the parameter record \<open>carlib\<close> (go-car, go-ipld-cbor, go-cid). A stream is the
  bytes it delivers and the error it is closed with, if any.
\<close>

section \<open>Parameters\<close>

text \<open>What \<open>util.ReadNode\<close> gives: the end of the stream, an error, or a CID, its data, and the rest.\<close>

datatype read_node = NodeEOF | NodeErr err | Node link bytes bytes

record carlib =
  cl_cid_bytes :: "link \<Rightarrow> bytes"
    \<comment> \<open>\<open>link.Binary()\<close>\<close>
  cl_cid_from :: "bytes \<Rightarrow> err + link"
    \<comment> \<open>\<open>cid.CidFromBytes\<close>\<close>
  cl_header :: "link list \<Rightarrow> nat \<Rightarrow> err + bytes"
    \<comment> \<open>\<open>cbor.DumpObject\<close> of a header with its roots and version\<close>
  cl_ldwrite :: "bytes \<Rightarrow> bytes"
    \<comment> \<open>the section \<open>util.LdWrite\<close> writes for the concatenation of its arguments\<close>
  cl_read_header :: "bytes \<Rightarrow> err + (nat \<times> link list \<times> bytes)"
    \<comment> \<open>\<open>ipldcar.ReadHeader\<close>: version, roots, the rest of the stream\<close>
  cl_header_size :: "nat \<times> link list \<Rightarrow> err + nat"
    \<comment> \<open>\<open>ipldcar.HeaderSize\<close>\<close>
  cl_read_node :: "bytes \<Rightarrow> read_node"
  cl_sum :: "link \<Rightarrow> bytes \<Rightarrow> err + link"
    \<comment> \<open>\<open>cid.Prefix().Sum\<close>\<close>
  cl_identity :: "bytes \<Rightarrow> err + bytes"
    \<comment> \<open>\<open>multihash.Sum\<close> with the identity code\<close>
  cl_cid_string64 :: "nat \<Rightarrow> bytes \<Rightarrow> err + string"
    \<comment> \<open>\<open>cid.NewCidV1(codec, mh).StringOfBase(multibase.Base64)\<close>\<close>
  cl_cid_decode :: "string \<Rightarrow> err + (nat \<times> bytes)"
    \<comment> \<open>\<open>cid.Decode\<close>: codec and multihash\<close>
  cl_mh_decode :: "bytes \<Rightarrow> err + (nat \<times> bytes)"
    \<comment> \<open>\<open>multihash.Decode\<close>: code and digest\<close>

section \<open>Writing\<close>

text \<open>
  The bytes written before the pipe is closed, and the error it is closed with. Writing into
  the pipe fails only when the reader is closed, which is not modelled.
\<close>

type_synonym stream = "bytes \<times> err option"

fun car_write_blocks :: "carlib \<Rightarrow> block_seq \<Rightarrow> stream" where
  "car_write_blocks K [] = ([], None)"
| "car_write_blocks K (Inl e # rest) = ([], Some (''writing CAR blocks: '' @ e))"
| "car_write_blocks K (Inr b # rest) =
     (let (bs, e) = car_write_blocks K rest
      in (cl_ldwrite K (cl_cid_bytes K (blk_link b) @ blk_bytes b) @ bs, e))"

definition root_cid :: "carlib \<Rightarrow> link \<Rightarrow> err + link" where
  "root_cid K r =
     (case cl_cid_from K (cl_cid_bytes K r) of
        Inl e \<Rightarrow> Inl (''decoding CAR root: '' @ r @ '': '' @ e)
      | Inr c \<Rightarrow> Inr c)"

definition car_Encode :: "carlib \<Rightarrow> link list \<Rightarrow> block_seq \<Rightarrow> stream" where
  "car_Encode K roots blocks =
     (case emapM (root_cid K) roots of
        Inl e \<Rightarrow> ([], Some e)
      | Inr cids \<Rightarrow>
          (case cl_header K cids 1 of
             Inl e \<Rightarrow> ([], Some (''writing CAR header: '' @ e))
           | Inr hb \<Rightarrow>
               (let (bs, e) = car_write_blocks K blocks in (cl_ldwrite K hb @ bs, e))))"

section \<open>Reading\<close>

record car_block = block +
  cb_offset :: nat
  cb_length :: nat

text \<open>\<open>blkReader.next\<close>: the outcome, and the reader's new offset.\<close>

definition car_next :: "extlib \<Rightarrow> carlib \<Rightarrow> bytes \<Rightarrow> nat \<Rightarrow> (err + (car_block \<times> bytes \<times> nat)) option" where
  "car_next L K b offset =
     (case cl_read_node K b of
        NodeEOF \<Rightarrow> None
      | NodeErr e \<Rightarrow> Some (Inl e)
      | Node c data rest \<Rightarrow>
          Some (case cl_sum K c data of
             Inl e \<Rightarrow> Inl e
           | Inr hashed \<Rightarrow>
               if hashed \<noteq> c
               then Inl (''mismatch in content integrity, name: '' @ c @ '', data: '' @ hashed)
               else (let ss = length (cl_cid_bytes K c) + length data;
                         offset' = offset + (uv_size L ss + ss)
                     in Inr (\<lparr> blk_link = c, blk_bytes = data, cb_offset = offset' - length data,
                               cb_length = length data \<rparr>, rest, offset'))))"

text \<open>
  The blocks the iterator yields. Every consumer stops at the first error, so the sequence ends
  there. Reading a section consumes bytes; the guard makes the recursion terminate, and
  \<open>carlib_ok\<close> says it always holds.
\<close>

function car_seq :: "extlib \<Rightarrow> carlib \<Rightarrow> bytes \<Rightarrow> nat \<Rightarrow> (err + car_block) list" where
  "car_seq L K b offset =
     (case car_next L K b offset of
        None \<Rightarrow> []
      | Some (Inl e) \<Rightarrow> [Inl e]
      | Some (Inr (blk, rest, offset')) \<Rightarrow>
          Inr blk # (if length rest < length b then car_seq L K rest offset' else []))"
  by auto
termination by (relation "measure (\<lambda>(L, K, b, n). length b)") auto

declare car_seq.simps [simp del]

definition car_Decode :: "extlib \<Rightarrow> carlib \<Rightarrow> bytes \<Rightarrow> err + (link list \<times> (err + car_block) list)" where
  "car_Decode L K b =
     (case cl_read_header K b of
        Inl e \<Rightarrow> Inl e
      | Inr (version, hroots, rest) \<Rightarrow>
          if version \<noteq> 1 then Inl ''invalid car version''
          else (case cl_header_size K (version, hroots) of
                  Inl e \<Rightarrow> Inl e
                | Inr offset \<Rightarrow> Inr (hroots, car_seq L K rest offset)))"

text \<open>Reading a stream to its end gives its bytes, or the error it was closed with.\<close>

definition read_all :: "stream \<Rightarrow> err + bytes" where
  "read_all s = (case snd s of None \<Rightarrow> Inr (fst s) | Some e \<Rightarrow> Inl e)"

text \<open>A CAR block used as a block.\<close>

definition plain_seq :: "(err + car_block) list \<Rightarrow> block_seq" where
  "plain_seq = map (map_sum (\<lambda>e. e) (\<lambda>b. \<lparr> blk_link = blk_link b, blk_bytes = blk_bytes b \<rparr>))"

section \<open>The laws of the parameters\<close>

text \<open>
  A section is its length as a varint and its content; sections and headers read back what was
  written; the end of the bytes is the end of the stream; no CID is empty.
\<close>

definition carlib_ok :: "extlib \<Rightarrow> carlib \<Rightarrow> bool" where
  "carlib_ok L K \<longleftrightarrow>
     (\<forall>l. cl_cid_from K (cl_cid_bytes K l) = Inr l) \<and>
     (\<forall>b. length (cl_ldwrite K b) = uv_size L (length b) + length b \<and> b = drop (uv_size L (length b)) (cl_ldwrite K b)) \<and>
     (\<forall>rs. \<exists>hb. cl_header K rs 1 = Inr hb \<and> cl_header_size K (1, rs) = Inr (length (cl_ldwrite K hb)) \<and>
            (\<forall>rest. cl_read_header K (cl_ldwrite K hb @ rest) = Inr (1, rs, rest))) \<and>
     cl_read_node K [] = NodeEOF \<and>
     (\<forall>l d rest. cl_read_node K (cl_ldwrite K (cl_cid_bytes K l @ d) @ rest) = Node l d rest) \<and>
     (\<forall>l. cl_cid_bytes K l \<noteq> [])"

text \<open>A block whose link is what its content sums to under the link's own prefix.\<close>

definition car_intact :: "carlib \<Rightarrow> block \<Rightarrow> bool" where
  "car_intact K b \<longleftrightarrow> cl_sum K (blk_link b) (blk_bytes b) = Inr (blk_link b)"

fun car_frames :: "carlib \<Rightarrow> block list \<Rightarrow> bytes" where
  "car_frames K [] = []"
| "car_frames K (b # bs) = cl_ldwrite K (cl_cid_bytes K (blk_link b) @ blk_bytes b) @ car_frames K bs"

lemma write_blocks_ok: "car_write_blocks K (map Inr bs) = (car_frames K bs, None)"
  by (induction bs) auto

lemma write_blocks_error:
  "Inl e \<in> set seq \<Longrightarrow> \<exists>bs e'. car_write_blocks K seq = (bs, Some e')"
  by (induction K seq rule: car_write_blocks.induct) (auto simp: case_prod_unfold)

lemma car_Encode_ok:
  assumes "carlib_ok L K"
  shows "\<exists>hb. cl_header K roots 1 = Inr hb \<and>
           car_Encode K roots (map Inr bs) = (cl_ldwrite K hb @ car_frames K bs, None)"
proof -
  have "emapM (root_cid K) roots = Inr (map (\<lambda>r. r) roots)"
    using assms by (intro emapM_all) (simp add: root_cid_def carlib_ok_def)
  moreover obtain hb where "cl_header K roots 1 = Inr hb"
    using assms unfolding carlib_ok_def by blast
  ultimately show ?thesis by (simp add: car_Encode_def write_blocks_ok)
qed

lemma car_seq_frames:
  assumes K: "carlib_ok L K" and "\<forall>b \<in> set bs. car_intact K b"
  shows "plain_seq (car_seq L K (car_frames K bs) offset) = map Inr bs \<and>
         (\<forall>pre cb. length pre = offset \<and> Inr cb \<in> set (car_seq L K (car_frames K bs) offset) \<longrightarrow>
            take (cb_length cb) (drop (cb_offset cb) (pre @ car_frames K bs)) = blk_bytes cb)"
  using assms(2)
proof (induction bs arbitrary: offset)
  case Nil
  then show ?case
    using K by (simp add: car_seq.simps car_next_def carlib_ok_def plain_seq_def)
next
  case (Cons b bs)
  let ?c = "cl_cid_bytes K (blk_link b)" and ?d = "blk_bytes b"
  let ?f = "cl_ldwrite K (?c @ ?d)" and ?ss = "length (cl_cid_bytes K (blk_link b)) + length (blk_bytes b)"
  let ?off = "offset + (uv_size L ?ss + ?ss)"
  let ?cb = "\<lparr> blk_link = blk_link b, blk_bytes = ?d, cb_offset = ?off - length ?d,
               cb_length = length ?d \<rparr>"
  have len: "length ?f = uv_size L ?ss + ?ss" and tl: "drop (uv_size L ?ss) ?f = ?c @ ?d"
    using K unfolding carlib_ok_def by (metis length_append)+
  have ne: "?c \<noteq> []" using K by (simp add: carlib_ok_def)
  have rd: "cl_read_node K (?f @ car_frames K bs) = Node (blk_link b) ?d (car_frames K bs)"
    using K by (simp add: carlib_ok_def)
  have seq: "car_seq L K (car_frames K (b # bs)) offset
       = Inr ?cb # car_seq L K (car_frames K bs) ?off"
    using Cons.prems rd len ne
    by (subst car_seq.simps) (simp add: car_next_def car_intact_def Let_def)
  have here: "take (length ?d) (drop (?off - length ?d) (pre @ ?f @ car_frames K bs)) = ?d"
    if "length pre = offset" for pre
  proof -
    have "drop (uv_size L ?ss + length ?c) ?f = ?d"
      using tl by (metis append_eq_conv_conj drop_drop add.commute)
    moreover have "?off - length ?d = length pre + (uv_size L ?ss + length ?c)" using that by simp
    moreover have "uv_size L ?ss + length ?c \<le> length ?f" using len by simp
    ultimately show ?thesis by simp
  qed
  have there: "take (cb_length cb) (drop (cb_offset cb) (pre @ ?f @ car_frames K bs)) = blk_bytes cb"
    if "length pre = offset" "Inr cb \<in> set (car_seq L K (car_frames K bs) ?off)" for pre cb
  proof -
    have "length (pre @ ?f) = ?off" using that(1) len by simp
    then show ?thesis using Cons.IH [of ?off] Cons.prems that(2) by (metis append.assoc list.set_intros(2))
  qed
  have ih: "plain_seq (car_seq L K (car_frames K bs) ?off) = map Inr bs"
    using Cons by simp
  show ?case
  proof (intro conjI allI impI)
    show "plain_seq (car_seq L K (car_frames K (b # bs)) offset) = map Inr (b # bs)"
      using ih by (simp only: seq) (simp add: plain_seq_def)
  next
    fix pre :: bytes and cb
    assume a: "length pre = offset \<and> Inr cb \<in> set (car_seq L K (car_frames K (b # bs)) offset)"
    then consider "cb = ?cb" | "Inr cb \<in> set (car_seq L K (car_frames K bs) ?off)"
      unfolding seq by auto
    then show "take (cb_length cb) (drop (cb_offset cb) (pre @ car_frames K (b # bs))) = blk_bytes cb"
      using here there a by cases auto
  qed
qed

text \<open>Encoding and decoding a CAR of intact blocks.\<close>

lemma car_roundtrip_blocks:
  assumes "carlib_ok L K" "\<forall>b \<in> set bs. car_intact K b"
  shows "\<exists>b cbs. read_all (car_Encode K roots (map Inr bs)) = Inr b \<and>
           car_Decode L K b = Inr (roots, cbs) \<and> plain_seq cbs = map Inr bs \<and>
           (\<forall>cb. Inr cb \<in> set cbs \<longrightarrow> take (cb_length cb) (drop (cb_offset cb) b) = blk_bytes cb)"
proof -
  obtain hb where hb: "cl_header K roots 1 = Inr hb"
    and enc: "car_Encode K roots (map Inr bs) = (cl_ldwrite K hb @ car_frames K bs, None)"
    using car_Encode_ok [OF assms(1)] by blast
  have rd: "cl_read_header K (cl_ldwrite K hb @ car_frames K bs) = Inr (1, roots, car_frames K bs)"
    and sz: "cl_header_size K (1, roots) = Inr (length (cl_ldwrite K hb))"
    using assms(1) hb unfolding carlib_ok_def by (metis sum.inject(2))+
  show ?thesis
    using car_seq_frames [OF assms, of "length (cl_ldwrite K hb)"]
    by (simp add: enc read_all_def car_Decode_def rd sz del: One_nat_def take_append drop_append)
qed

section \<open>Concrete parameters for the witnesses\<close>

text \<open>
  A string is its length and its bytes; a section is the string of its content, a CID the string
  of its text, a header the number of its roots and their strings.
\<close>

definition put_str :: "bytes \<Rightarrow> bytes" where
  "put_str b = leb_put (length b) @ b"

definition take_str :: "bytes \<Rightarrow> (bytes \<times> bytes) option" where
  "take_str b = (case leb_take b of None \<Rightarrow> None
                 | Some (n, k) \<Rightarrow> Some (take n (drop k b), drop (n + k) b))"

fun take_strs :: "nat \<Rightarrow> bytes \<Rightarrow> bytes list option" where
  "take_strs 0 b = Some []"
| "take_strs (Suc n) b =
     (case take_str b of None \<Rightarrow> None
      | Some (x, rest) \<Rightarrow> (case take_strs n rest of None \<Rightarrow> None | Some xs \<Rightarrow> Some (x # xs)))"

definition read_header0 :: "bytes \<Rightarrow> err + (nat \<times> link list \<times> bytes)" where
  "read_header0 b =
     (case take_str b of None \<Rightarrow> Inl ''EOF''
      | Some (hb, rest) \<Rightarrow>
          (case leb_take hb of None \<Rightarrow> Inl ''EOF''
           | Some (n, k) \<Rightarrow>
               (case take_strs n (drop k hb) of None \<Rightarrow> Inl ''EOF''
                | Some rs \<Rightarrow> Inr (1, rs, rest))))"

definition read_node0 :: "bytes \<Rightarrow> read_node" where
  "read_node0 b =
     (if b = [] then NodeEOF
      else (case take_str b of None \<Rightarrow> NodeErr ''unexpected EOF''
            | Some (x, rest) \<Rightarrow>
                (case take_str x of None \<Rightarrow> NodeErr ''invalid CID'' | Some (c, d) \<Rightarrow> Node c d rest)))"

definition header0 :: "link list \<Rightarrow> bytes" where
  "header0 rs = leb_put (length rs) @ concat (map put_str rs)"

definition car0 :: carlib where
  "car0 = \<lparr> cl_cid_bytes = put_str,
            cl_cid_from = (\<lambda>b. case take_str b of None \<Rightarrow> Inl ''invalid CID'' | Some (c, _) \<Rightarrow> Inr c),
            cl_header = (\<lambda>rs v. Inr (header0 rs)), cl_ldwrite = put_str,
            cl_read_header = read_header0,
            cl_header_size = (\<lambda>(v, rs). Inr (length (put_str (header0 rs)))),
            cl_read_node = read_node0,
            cl_sum = (\<lambda>c d. Inr (take 1 c @ mh_encode lib0 (sha256sum lib0 d) sha256_Code)),
            cl_identity = (\<lambda>b. Inr (CHR 0x00 # b)),
            cl_cid_string64 = (\<lambda>c m. Inr (leb_put c @ m)),
            cl_cid_decode = (\<lambda>s. case leb_take s of None \<Rightarrow> Inl ''cid too short''
                                 | Some (c, k) \<Rightarrow> Inr (c, drop k s)),
            cl_mh_decode = (\<lambda>m. case m of [] \<Rightarrow> Inl ''multihash too short'' | c # d \<Rightarrow> Inr (of_char c, d)) \<rparr>"

lemma take_str_put [simp]: "take_str (put_str b @ rest) = Some (b, rest)"
  by (simp add: take_str_def put_str_def leb_take_put)

lemma take_str_put' [simp]: "take_str (put_str b) = Some (b, [])"
  using take_str_put [of b "[]"] by simp

lemma put_str_nonempty [simp]: "put_str b \<noteq> []"
  by (simp add: put_str_def leb_put_nonempty)

lemma take_strs_put: "take_strs (length rs) (concat (map put_str rs)) = Some rs"
  by (induction rs) auto

lemma header0_read: "read_header0 (put_str (header0 rs) @ rest) = Inr (1, rs, rest)"
  by (simp add: read_header0_def header0_def leb_take_put take_strs_put)

lemma uv_size_lib0 [simp]: "uv_size lib0 n = length (leb_put n)"
  by (simp add: lib0_def)

lemma car0_ok: "carlib_ok lib0 car0"
  unfolding carlib_ok_def
proof (intro conjI allI)
  fix b :: bytes
  show "length (cl_ldwrite car0 b) = uv_size lib0 (length b) + length b"
    and "b = drop (uv_size lib0 (length b)) (cl_ldwrite car0 b)"
    by (simp_all add: car0_def put_str_def)
next
  fix rs :: "link list"
  show "\<exists>hb. cl_header car0 rs 1 = Inr hb \<and>
          cl_header_size car0 (1, rs) = Inr (length (cl_ldwrite car0 hb)) \<and>
          (\<forall>rest. cl_read_header car0 (cl_ldwrite car0 hb @ rest) = Inr (1, rs, rest))"
    by (simp add: car0_def header0_read)
next
  fix l d rest
  show "cl_read_node car0 (cl_ldwrite car0 (cl_cid_bytes car0 l @ d) @ rest) = Node l d rest"
    by (simp add: car0_def read_node0_def)
qed (simp_all add: car0_def read_node0_def)

text \<open>go-cid and go-multihash: a base64 CID over an identity multihash decodes to its parts.\<close>

definition cid_text_ok :: "carlib \<Rightarrow> bool" where
  "cid_text_ok K \<longleftrightarrow>
     (\<forall>b. \<exists>m. cl_identity K b = Inr m \<and> cl_mh_decode K m = Inr (0, b)) \<and>
     (\<forall>c m. \<exists>s. cl_cid_string64 K c m = Inr s \<and> cl_cid_decode K s = Inr (c, m))"

lemma car0_text_ok: "cid_text_ok car0"
  by (simp add: cid_text_ok_def car0_def leb_take_put)

section \<open>Properties\<close>

text \<open>
  C28. A CAR written from roots and intact blocks reads back to the same roots and the same
  blocks in order, and each block's offset and length locate its data in the bytes. When the
  blocks to write end in an error, reading the stream ends in an error too.
\<close>

theorem car_roundtrip:
  assumes "carlib_ok L K" "\<forall>b \<in> set bs. car_intact K b"
  shows "(\<exists>b cbs. read_all (car_Encode K roots (map Inr bs)) = Inr b \<and>
            car_Decode L K b = Inr (roots, cbs) \<and> plain_seq cbs = map Inr bs \<and>
            (\<forall>cb. Inr cb \<in> set cbs \<longrightarrow> take (cb_length cb) (drop (cb_offset cb) b) = blk_bytes cb)) \<and>
         (\<exists>e'. read_all (car_Encode K roots (map Inr bs @ [Inl e])) = Inl e')"
proof -
  obtain w e' where "car_write_blocks K (map Inr bs @ [Inl e]) = (w, Some e')"
    using write_blocks_error [of e "map Inr bs @ [Inl e]" K] by auto
  then have "\<exists>e'. read_all (car_Encode K roots (map Inr bs @ [Inl e])) = Inl e'"
    by (simp add: read_all_def car_Encode_def split: sum.splits)
  with car_roundtrip_blocks [OF assms, of roots] show ?thesis by blast
qed

theorem car_roundtrip_witness:
  "\<exists>b cbs. read_all (car_Encode car0 [''r''] [Inr \<lparr> blk_link = ''q'' @ mh_encode lib0 (sha256sum lib0 ''data'') sha256_Code,
        blk_bytes = ''data'' \<rparr>]) = Inr b \<and> car_Decode lib0 car0 b = Inr ([''r''], cbs)"
proof -
  let ?b = "\<lparr> blk_link = ''q'' @ mh_encode lib0 (sha256sum lib0 ''data'') sha256_Code, blk_bytes = ''data'' \<rparr>"
  have "\<forall>b \<in> set [?b]. car_intact car0 b" by (simp add: car_intact_def car0_def)
  then show ?thesis using car_roundtrip [OF car0_ok, of "[?b]" "[''r'']" "[]"] by auto
qed

end
