(* ===== verification/Delegation.thy ===== *)
theory Delegation
  imports Car
begin

text \<open>
  core/delegation and core/invocation: a delegation is a root block, the reader its proofs are
  looked up in, the attached blocks, and the decoded UCAN. Exporting walks the proof links, so
  it takes fuel; \<open>export_enough_fuel\<close> bounds it by any ranking of the links by depth.
\<close>

section \<open>Delegations and proofs\<close>

record delegation =
  dl_rt :: block
  dl_blks :: blockreader
  dl_atch :: blockreader
  dl_ucan :: ucan_model

definition dlg_Link :: "delegation \<Rightarrow> link" where
  "dlg_Link d = blk_link (dl_rt d)"

definition dlg_Blocks :: "delegation \<Rightarrow> block_seq" where
  "dlg_Blocks d = iter_Concat2 [br_Iterator (dl_blks d), br_Iterator (dl_atch d)]"

definition dlg_Issuer :: "extlib \<Rightarrow> delegation \<Rightarrow> did" where
  "dlg_Issuer L d = ucan_Issuer L (dl_ucan d)"

definition dlg_Audience :: "extlib \<Rightarrow> delegation \<Rightarrow> did" where
  "dlg_Audience L d = ucan_Audience L (dl_ucan d)"

definition dlg_Version :: "delegation \<Rightarrow> string" where
  "dlg_Version d = ucan_Version (dl_ucan d)"

definition dlg_Capabilities :: "delegation \<Rightarrow> gany capability list" where
  "dlg_Capabilities d = ucan_Capabilities (dl_ucan d)"

definition dlg_Expiration :: "delegation \<Rightarrow> int option" where
  "dlg_Expiration d = ucan_Expiration (dl_ucan d)"

definition dlg_NotBefore :: "delegation \<Rightarrow> int" where
  "dlg_NotBefore d = ucan_NotBefore (dl_ucan d)"

definition dlg_Nonce :: "delegation \<Rightarrow> string" where
  "dlg_Nonce d = ucan_Nonce (dl_ucan d)"

definition dlg_Facts :: "delegation \<Rightarrow> (string \<rightharpoonup> gany) list" where
  "dlg_Facts d = ucan_Facts (dl_ucan d)"

definition dlg_Proofs :: "delegation \<Rightarrow> link list" where
  "dlg_Proofs d = ucan_Proofs (dl_ucan d)"

definition dlg_Signature :: "delegation \<Rightarrow> signature" where
  "dlg_Signature d = ucan_Signature (dl_ucan d)"

definition dlg_Attach :: "delegation \<Rightarrow> block \<Rightarrow> delegation" where
  "dlg_Attach d b = d\<lparr> dl_atch := bs_Put (dl_atch d) b \<rparr>"

definition dlg_decode :: "extlib \<Rightarrow> ucanlib \<Rightarrow> block \<Rightarrow> err + ucan_model" where
  "dlg_decode L U root =
     (case block_Decode L (ul_cbor U) root of
        Inl e \<Rightarrow> Inl (''decoding root block: '' @ e)
      | Inr data \<Rightarrow>
          (case NewUCAN data of
             Inl e \<Rightarrow> Inl (''constructing UCAN view: '' @ e)
           | Inr u \<Rightarrow> Inr u))"

definition NewDelegation :: "extlib \<Rightarrow> ucanlib \<Rightarrow> block \<Rightarrow> blockreader \<Rightarrow> err + delegation" where
  "NewDelegation L U root bs =
     (case dlg_decode L U root of
        Inl e \<Rightarrow> Inl (''decoding UCAN: '' @ e)
      | Inr u \<Rightarrow>
          (case NewBlockStore [] [] of
             Inl e \<Rightarrow> Inl e
           | Inr attachments \<Rightarrow>
               Inr \<lparr> dl_rt = root, dl_blks = bs, dl_atch = attachments, dl_ucan = u \<rparr>))"

definition NewDelegationView :: "extlib \<Rightarrow> ucanlib \<Rightarrow> link \<Rightarrow> blockreader \<Rightarrow> err + delegation" where
  "NewDelegationView L U root bs =
     (case br_Get bs root of
        None \<Rightarrow> Inl (''missing delegation root block: '' @ root)
      | Some blk \<Rightarrow> NewDelegation L U blk bs)"

datatype dproof = PDelegation delegation | PLink link

definition proof_Delegation :: "dproof \<Rightarrow> delegation option" where
  "proof_Delegation p = (case p of PDelegation d \<Rightarrow> Some d | PLink _ \<Rightarrow> None)"

definition proof_Link :: "dproof \<Rightarrow> link" where
  "proof_Link p = (case p of PDelegation d \<Rightarrow> dlg_Link d | PLink l \<Rightarrow> l)"

definition NewProofsView :: "extlib \<Rightarrow> ucanlib \<Rightarrow> link list \<Rightarrow> blockreader \<Rightarrow> dproof list" where
  "NewProofsView L U links bs =
     map (\<lambda>l. case NewDelegationView L U l bs of Inr d \<Rightarrow> PDelegation d | Inl _ \<Rightarrow> PLink l) links"

text \<open>The links of the proofs, and the store after the blocks of the delegations are put.\<close>

fun proofs_WriteInto :: "dproof list \<Rightarrow> blockreader \<Rightarrow> (link list \<times> blockreader) comp" where
  "proofs_WriteInto [] bs = Ret ([], bs)"
| "proofs_WriteInto (p # ps) bs =
     cbind (case proof_Delegation p of
              Some d \<Rightarrow> bs_WriteInto (dlg_Blocks d) bs
            | None \<Rightarrow> Ret bs) (\<lambda>bs'.
     cbind (proofs_WriteInto ps bs') (\<lambda>(links, bs''). Ret (proof_Link p # links, bs'')))"

section \<open>Exporting\<close>

text \<open>A consumer that passes on a sequence stops after its first error.\<close>

fun upto_error :: "block_seq \<Rightarrow> block_seq" where
  "upto_error [] = []"
| "upto_error (Inl e # rest) = [Inl e]"
| "upto_error (Inr b # rest) = Inr b # upto_error rest"

definition error_free :: "block_seq \<Rightarrow> bool" where
  "error_free s \<longleftrightarrow> list_all (\<lambda>x. case x of Inl _ \<Rightarrow> False | Inr _ \<Rightarrow> True) s"

definition seq_then :: "block_seq \<Rightarrow> block_seq \<Rightarrow> block_seq" where
  "seq_then a b = (if error_free a then a @ b else upto_error a)"

fun export_loop :: "(link \<Rightarrow> block_seq comp) \<Rightarrow> link list \<Rightarrow> block_seq comp" where
  "export_loop f [] = Ret []"
| "export_loop f (p # ps) =
     cbind (f p) (\<lambda>a. if error_free a then cmap (\<lambda>rest. a @ rest) (export_loop f ps)
                      else Ret (upto_error a))"

fun export :: "nat \<Rightarrow> extlib \<Rightarrow> ucanlib \<Rightarrow> link list \<Rightarrow> ucan_model \<Rightarrow> block \<Rightarrow> blockreader \<Rightarrow>
    blockreader option \<Rightarrow> block_seq comp" where
  "export 0 L U omit rt rtblk blks atch = Fuel"
| "export (Suc n) L U omit rt rtblk blks atch =
     cbind (export_loop
              (\<lambda>p. if p \<in> set omit then Ret []
                   else (case br_Get blks p of
                           None \<Rightarrow> Ret []
                         | Some proofblk \<Rightarrow>
                             (case dlg_decode L U proofblk of
                                Inl e \<Rightarrow> Ret [Inl e]
                              | Inr prf \<Rightarrow> export n L U omit prf proofblk blks None)))
              (ucan_Proofs rt))
           (\<lambda>a. Ret (seq_then a
              (seq_then (case atch of None \<Rightarrow> [] | Some s \<Rightarrow> br_Iterator s) [Inr rtblk])))"

definition dlg_Export :: "nat \<Rightarrow> extlib \<Rightarrow> ucanlib \<Rightarrow> link list \<Rightarrow> delegation \<Rightarrow> block_seq comp" where
  "dlg_Export n L U omit d =
     export n L U omit (dl_ucan d) (dl_rt d) (dl_blks d) (Some (dl_atch d))"

section \<open>Archives\<close>

text \<open>
  When the descriptor block cannot be encoded the reader half of the pipe is closed, and reading
  from it fails as from any closed pipe.
\<close>

definition dlg_Archive :: "nat \<Rightarrow> extlib \<Rightarrow> ucanlib \<Rightarrow> carlib \<Rightarrow> delegation \<Rightarrow> stream comp" where
  "dlg_Archive n L U K d =
     (case block_Encode L (ul_archive U) (dlg_Link d) of
        Inl e \<Rightarrow> Ret ([], Some ''io: read/write on closed pipe'')
      | Inr variant \<Rightarrow>
          cmap (\<lambda>seq. car_Encode K [blk_link variant] (seq_then seq [Inr variant]))
               (dlg_Export n L U [] d))"

definition dlg_Extract :: "extlib \<Rightarrow> ucanlib \<Rightarrow> carlib \<Rightarrow> bytes \<Rightarrow> err + delegation" where
  "dlg_Extract L U K b =
     (case car_Decode L K b of
        Inl e \<Rightarrow> Inl (''decoding CAR: '' @ e)
      | Inr (roots, blks) \<Rightarrow>
          (case roots of
             [] \<Rightarrow> Inl ''missing root CID in delegation archive''
           | root # others \<Rightarrow>
               if others \<noteq> [] then Inl ''unexpected number of root CIDs in archive''
               else (case NewBlockReader [] (plain_seq blks) of
                       Inl e \<Rightarrow> Inl (''creating block reader: '' @ e)
                     | Inr br \<Rightarrow>
                         (case br_Get br root of
                            None \<Rightarrow> Inl (''missing root block: '' @ root)
                          | Some rt \<Rightarrow>
                              (case block_Decode L (ul_archive U) rt of
                                 Inl e \<Rightarrow> Inl (''decoding root block: '' @ e)
                               | Inr model \<Rightarrow> NewDelegationView L U model br)))))"

definition mc_Car :: nat where "mc_Car = 0x0202"
definition mc_Identity :: nat where "mc_Identity = 0"

definition dlg_Format :: "nat \<Rightarrow> extlib \<Rightarrow> ucanlib \<Rightarrow> carlib \<Rightarrow> delegation \<Rightarrow> (err + string) comp" where
  "dlg_Format n L U K d =
     cmap (\<lambda>s. case read_all s of
                 Inl e \<Rightarrow> Inl (''archiving delegation: '' @ e)
               | Inr bs \<Rightarrow>
                   (case cl_identity K bs of
                      Inl e \<Rightarrow> Inl (''creating multihash: '' @ e)
                    | Inr digest \<Rightarrow> cl_cid_string64 K mc_Car digest))
          (dlg_Archive n L U K d)"

definition dlg_Parse :: "extlib \<Rightarrow> ucanlib \<Rightarrow> carlib \<Rightarrow> string \<Rightarrow> err + delegation" where
  "dlg_Parse L U K input =
     (case cl_cid_decode K input of
        Inl e \<Rightarrow> Inl (''decoding CID: '' @ e)
      | Inr (codec, mhash) \<Rightarrow>
          if codec \<noteq> mc_Car then Inl ''non CAR codec found: ''
          else (case cl_mh_decode K mhash of
                  Inl e \<Rightarrow> Inl (''decoding multihash: '' @ e)
                | Inr (mhcodec, digest) \<Rightarrow>
                    if mhcodec \<noteq> mc_Identity then Inl ''non identity multihash: ''
                    else dlg_Extract L U K digest))"

section \<open>Delegating\<close>

datatype dlg_option =
    DWithExpiration int | DWithNoExpiration | DWithNotBefore int | DWithNonce string
  | DWithFacts "fact_builder list" | DWithProof "dproof list"

type_synonym pruner =
  "signer \<Rightarrow> did \<Rightarrow> builder capability list \<Rightarrow> dlg_option list \<Rightarrow> (err + dproof list) comp"

text \<open>A pruner is never handed a pruner, so its option is kept apart.\<close>

datatype delegate_option = DOption dlg_option | DWithProofPruning pruner

record delegationConfig =
  dc_exp :: "int option"
  dc_noexp :: bool
  dc_nbf :: int
  dc_nnc :: string
  dc_fct :: "fact_builder list"
  dc_prf :: "dproof list"
  dc_pruner :: "pruner option"

definition delegationConfig0 :: delegationConfig where
  "delegationConfig0 = \<lparr> dc_exp = None, dc_noexp = False, dc_nbf = 0, dc_nnc = [], dc_fct = [],
                         dc_prf = [], dc_pruner = None \<rparr>"

fun apply_dlg_option :: "delegationConfig \<Rightarrow> dlg_option \<Rightarrow> delegationConfig" where
  "apply_dlg_option cfg (DWithExpiration e) = cfg\<lparr> dc_exp := Some e, dc_noexp := False \<rparr>"
| "apply_dlg_option cfg DWithNoExpiration = cfg\<lparr> dc_exp := None, dc_noexp := True \<rparr>"
| "apply_dlg_option cfg (DWithNotBefore n) = cfg\<lparr> dc_nbf := n \<rparr>"
| "apply_dlg_option cfg (DWithNonce s) = cfg\<lparr> dc_nnc := s \<rparr>"
| "apply_dlg_option cfg (DWithFacts fs) = cfg\<lparr> dc_fct := fs \<rparr>"
| "apply_dlg_option cfg (DWithProof ps) = cfg\<lparr> dc_prf := ps \<rparr>"

fun apply_delegate_option :: "delegationConfig \<Rightarrow> delegate_option \<Rightarrow> delegationConfig" where
  "apply_delegate_option cfg (DOption opt) = apply_dlg_option cfg opt"
| "apply_delegate_option cfg (DWithProofPruning p) = cfg\<lparr> dc_pruner := Some p \<rparr>"

definition cfgToOptions :: "delegationConfig \<Rightarrow> dlg_option list" where
  "cfgToOptions cfg =
     (if dc_noexp cfg then [DWithNoExpiration]
      else (case dc_exp cfg of Some e \<Rightarrow> [DWithExpiration e] | None \<Rightarrow> [])) @
     (if dc_nbf cfg \<noteq> 0 then [DWithNotBefore (dc_nbf cfg)] else []) @
     (if dc_nnc cfg \<noteq> [] then [DWithNonce (dc_nnc cfg)] else []) @
     (if length (dc_fct cfg) > 0 then [DWithFacts (dc_fct cfg)] else []) @
     (if length (dc_prf cfg) > 0 then [DWithProof (dc_prf cfg)] else [])"

definition issue_options :: "delegationConfig \<Rightarrow> link list \<Rightarrow> ucan_option list" where
  "issue_options cfg links =
     [WithFacts (dc_fct cfg), WithNonce (dc_nnc cfg), WithNotBefore (dc_nbf cfg), WithProof links] @
     (if dc_noexp cfg then [WithNoExpiration] else []) @
     (case dc_exp cfg of Some e \<Rightarrow> [WithExpiration e] | None \<Rightarrow> [])"

definition prune_config ::
    "delegationConfig \<Rightarrow> signer \<Rightarrow> did \<Rightarrow> builder capability list \<Rightarrow> (err + delegationConfig) comp" where
  "prune_config cfg issuer audience capabilities =
     (case dc_pruner cfg of
        None \<Rightarrow> Ret (Inr cfg)
      | Some pruner \<Rightarrow>
          cmap (\<lambda>r. case r of
                      Inl e \<Rightarrow> Inl (''pruning proofs: '' @ e)
                    | Inr prunedPfs \<Rightarrow> Inr (cfg\<lparr> dc_prf := prunedPfs \<rparr>))
               (pruner issuer audience capabilities (cfgToOptions cfg)))"

definition Delegate ::
    "extlib \<Rightarrow> ucanlib \<Rightarrow> int \<Rightarrow> signer \<Rightarrow> did \<Rightarrow> builder capability list \<Rightarrow> delegate_option list \<Rightarrow>
     (err + delegation) comp" where
  "Delegate L U now issuer audience capabilities options =
     cbind (prune_config (foldl apply_delegate_option delegationConfig0 options)
              issuer audience capabilities) (\<lambda>r.
       case r of
         Inl e \<Rightarrow> Ret (Inl e)
       | Inr cfg \<Rightarrow>
           (case NewBlockStore [] [] of
              Inl e \<Rightarrow> Ret (Inl e)
            | Inr bs0 \<Rightarrow>
                cbind (proofs_WriteInto (dc_prf cfg) bs0) (\<lambda>(links, bs).
                cbind (ucan_Issue L U now issuer audience capabilities (issue_options cfg links)) (\<lambda>d.
                  case d of
                    Inl e \<Rightarrow> Ret (Inl (''issuing UCAN: '' @ e))
                  | Inr data \<Rightarrow>
                      (case block_Encode L (ul_cbor U) data of
                         Inl e \<Rightarrow> Ret (Inl (''encoding UCAN: '' @ e))
                       | Inr rt \<Rightarrow> Ret (NewDelegation L U rt (bs_Put bs rt)))))))"

text \<open>core/invocation: an invocation is a delegation of one capability.\<close>

definition Invoke ::
    "extlib \<Rightarrow> ucanlib \<Rightarrow> int \<Rightarrow> signer \<Rightarrow> did \<Rightarrow> builder capability \<Rightarrow> delegate_option list \<Rightarrow>
     (err + delegation) comp" where
  "Invoke L U now issuer audience capability options =
     Delegate L U now issuer audience [capability] options"

definition NewInvocation :: "extlib \<Rightarrow> ucanlib \<Rightarrow> block \<Rightarrow> blockreader \<Rightarrow> err + delegation" where
  "NewInvocation L U root bs = NewDelegation L U root bs"

definition NewInvocationView :: "extlib \<Rightarrow> ucanlib \<Rightarrow> link \<Rightarrow> blockreader \<Rightarrow> err + delegation" where
  "NewInvocationView L U root bs = NewDelegationView L U root bs"

section \<open>Laws of the walk\<close>

lemma error_free_simps [simp]:
  "error_free []" "error_free (Inr b # s) \<longleftrightarrow> error_free s" "\<not> error_free (Inl e # s)"
  "error_free (a @ s) \<longleftrightarrow> error_free a \<and> error_free s" "error_free (map Inr bs)"
  by (auto simp: error_free_def list_all_iff)

lemma error_free_upto [simp]: "error_free (upto_error s) \<longleftrightarrow> error_free s"
  by (induction s rule: upto_error.induct) auto

lemma error_free_iff: "error_free s \<longleftrightarrow> (\<exists>bs. s = map Inr bs)"
proof (induction s)
  case (Cons x s)
  then show ?case by (cases x) (auto simp: Cons_eq_map_conv)
qed simp

lemma seq_then_free [simp]: "error_free (seq_then a b) \<longleftrightarrow> error_free a \<and> error_free b"
  by (simp add: seq_then_def)

lemma seq_then_eq: "error_free a \<Longrightarrow> seq_then a b = a @ b"
  by (simp add: seq_then_def)

lemma export_loop_ok:
  assumes "export_loop f ps = Ret a" "error_free a"
  shows "\<forall>p \<in> set ps. \<exists>s. f p = Ret s \<and> error_free s \<and> set s \<subseteq> set a"
    and "\<forall>x \<in> set a. \<exists>p \<in> set ps. \<exists>s. f p = Ret s \<and> error_free s \<and> x \<in> set s"
  using assms by (induction ps arbitrary: a) (auto split: if_splits; fastforce)+

lemma export_loop_returns:
  "(\<And>p. p \<in> set ps \<Longrightarrow> returns (f p)) \<Longrightarrow> returns (export_loop f ps)"
proof (induction ps)
  case (Cons p ps)
  then obtain a where "f p = Ret a" by (auto simp: returns_iff)
  with Cons show ?case by auto
qed simp

lemma export_loop_free:
  "export_loop f ps = Ret a \<Longrightarrow> \<forall>p \<in> set ps. \<forall>s. f p = Ret s \<longrightarrow> error_free s \<Longrightarrow> error_free a"
proof (induction ps arbitrary: a)
  case (Cons p ps)
  then obtain b where "f p = Ret b" "error_free b" by fastforce
  with Cons show ?case by (auto split: if_splits)
qed simp

text \<open>
  The proof blocks a walk reaches: the ones of the proof links that are not omitted and are in
  the store, and what their UCANs reach.
\<close>

inductive proof_closure :: "extlib \<Rightarrow> ucanlib \<Rightarrow> link list \<Rightarrow> blockreader \<Rightarrow> ucan_model \<Rightarrow> block \<Rightarrow> bool"
  for L U omit blks where
  direct: "p \<in> set (um_Prf u) \<Longrightarrow> p \<notin> set omit \<Longrightarrow> br_Get blks p = Some b \<Longrightarrow>
             dlg_decode L U b = Inr v \<Longrightarrow> proof_closure L U omit blks u b"
| step: "p \<in> set (um_Prf u) \<Longrightarrow> p \<notin> set omit \<Longrightarrow> br_Get blks p = Some b \<Longrightarrow>
             dlg_decode L U b = Inr v \<Longrightarrow> proof_closure L U omit blks v c \<Longrightarrow>
             proof_closure L U omit blks u c"

lemma export_exact:
  assumes "export n L U omit u rtblk blks atch = Ret s" "error_free s"
  shows "(Inr b \<in> set s \<longleftrightarrow> b = rtblk \<or> (\<exists>a. atch = Some a \<and> Inr b \<in> set (br_Iterator a)) \<or>
            proof_closure L U omit blks u b) \<and> last s = Inr rtblk"
  using assms
proof (induction n arbitrary: u rtblk atch s b)
  case (Suc n)
  let ?f = "\<lambda>p. if p \<in> set omit then Ret []
                   else (case br_Get blks p of
                           None \<Rightarrow> Ret []
                         | Some proofblk \<Rightarrow>
                             (case dlg_decode L U proofblk of
                                Inl e \<Rightarrow> Ret [Inl e]
                              | Inr prf \<Rightarrow> export n L U omit prf proofblk blks None))"
  let ?t = "case atch of None \<Rightarrow> [] | Some s \<Rightarrow> br_Iterator s"
  obtain a where a: "export_loop ?f (um_Prf u) = Ret a" "s = a @ ?t @ [Inr rtblk]"
    and fa: "error_free a"
    using Suc.prems by (auto simp: ucan_Proofs_def seq_then_eq)
  have "Inr b \<in> set a \<longleftrightarrow> proof_closure L U omit blks u b"
  proof
    assume "Inr b \<in> set a"
    then obtain p t where p: "p \<in> set (um_Prf u)" "?f p = Ret t" "error_free t" "Inr b \<in> set t"
      using export_loop_ok(2) [OF a(1) fa] by blast
    then obtain pb v where v: "p \<notin> set omit" "br_Get blks p = Some pb" "dlg_decode L U pb = Inr v"
      "export n L U omit v pb blks None = Ret t"
      by (auto split: if_splits simp: case_option_eq case_sum_eq)
    then have "b = pb \<or> proof_closure L U omit blks v b"
      using Suc.IH [OF v(4) p(3)] p(4) by blast
    then show "proof_closure L U omit blks u b"
      using p(1) v by (auto intro: proof_closure.intros)
  next
    assume "proof_closure L U omit blks u b"
    then obtain p pb v where p: "p \<in> set (um_Prf u)" "p \<notin> set omit" "br_Get blks p = Some pb"
      "dlg_decode L U pb = Inr v" "b = pb \<or> proof_closure L U omit blks v b"
      by (cases rule: proof_closure.cases) auto
    then obtain t where "export n L U omit v pb blks None = Ret t" "error_free t" "set t \<subseteq> set a"
      using export_loop_ok(1) [OF a(1) fa] by fastforce
    then show "Inr b \<in> set a" using Suc.IH [of v pb None t b] p(5) by blast
  qed
  then show ?case using a(2) by (auto split: option.splits)
qed simp

text \<open>
  Links ranked so that a proof is below the UCAN that links to it, as content addressing makes
  them: one more step of fuel than the rank is enough.
\<close>

definition ranked_store :: "extlib \<Rightarrow> ucanlib \<Rightarrow> blockreader \<Rightarrow> (link \<Rightarrow> nat) \<Rightarrow> bool" where
  "ranked_store L U blks rank \<longleftrightarrow>
     (\<forall>l b u. br_Get blks l = Some b \<longrightarrow> dlg_decode L U b = Inr u \<longrightarrow> (\<forall>p \<in> set (um_Prf u). rank p < rank l))"

lemma export_enough_fuel:
  assumes "ranked_store L U blks rank" "\<forall>p \<in> set (um_Prf u). rank p < n"
  shows "returns (export (Suc n) L U omit u rtblk blks atch)"
  using assms(2)
proof (induction n arbitrary: u rtblk atch)
  case 0
  then have "um_Prf u = []" by (cases "um_Prf u") auto
  then show ?case by (simp add: ucan_Proofs_def)
next
  case (Suc n)
  have "returns (export (Suc n) L U omit v b blks None)"
    if "p \<in> set (um_Prf u)" "br_Get blks p = Some b" "dlg_decode L U b = Inr v" for p b v
    using Suc that assms(1) unfolding ranked_store_def by (meson less_le_trans less_Suc_eq_le)
  then have "returns (export_loop (\<lambda>p. if p \<in> set omit then Ret []
                   else (case br_Get blks p of
                           None \<Rightarrow> Ret []
                         | Some proofblk \<Rightarrow>
                             (case dlg_decode L U proofblk of
                                Inl e \<Rightarrow> Ret [Inl e]
                              | Inr prf \<Rightarrow> export (Suc n) L U omit prf proofblk blks None)))
              (ucan_Proofs u))"
    by (intro export_loop_returns) (auto simp: ucan_Proofs_def split: option.splits sum.splits
        simp del: export.simps)
  then show ?case by (simp only: export.simps returns_cbind) (auto simp: returns_iff simp del: export.simps)
qed

text \<open>Nothing but a proof block that does not decode, or a broken attachment store, is an error.\<close>

lemma export_error_free:
  assumes "\<forall>p b. br_Get blks p = Some b \<longrightarrow> (\<exists>v. dlg_decode L U b = Inr v)"
    and "export n L U omit u rtblk blks atch = Ret s"
    and "case atch of None \<Rightarrow> True | Some a \<Rightarrow> wf_store a"
  shows "error_free s"
  using assms(2,3)
proof (induction n arbitrary: u rtblk atch s)
  case (Suc n)
  have "error_free (br_Iterator a)" if "wf_store a" for a
  proof -
    have "\<forall>k \<in> set (br_keys a). \<exists>b. br_blks a k = Some b" using that by (auto simp: wf_store_def)
    then show ?thesis by (auto simp: error_free_def list_all_iff br_Iterator_def)
  qed
  then have t: "error_free (case atch of None \<Rightarrow> [] | Some s \<Rightarrow> br_Iterator s)"
    using Suc.prems(2) by (auto split: option.splits)
  have "error_free t" if "export_loop (\<lambda>p. if p \<in> set omit then Ret []
                   else (case br_Get blks p of
                           None \<Rightarrow> Ret []
                         | Some proofblk \<Rightarrow>
                             (case dlg_decode L U proofblk of
                                Inl e \<Rightarrow> Ret [Inl e]
                              | Inr prf \<Rightarrow> export n L U omit prf proofblk blks None)))
              (ucan_Proofs u) = Ret t" for t
    using that
  proof (rule export_loop_free, intro ballI allI impI)
    fix p s'
    assume "(if p \<in> set omit then Ret [] else (case br_Get blks p of None \<Rightarrow> Ret []
        | Some proofblk \<Rightarrow> (case dlg_decode L U proofblk of Inl e \<Rightarrow> Ret [Inl e]
             | Inr prf \<Rightarrow> export n L U omit prf proofblk blks None))) = Ret s'"
    then show "error_free s'"
      using assms(1) Suc.IH by (fastforce split: if_splits option.splits sum.splits)
  qed
  with t Suc.prems(1) show ?case by auto
qed simp

section \<open>Laws of delegating\<close>

lemma NewDelegation_Inr:
  "NewDelegation L U root bs = Inr d \<longleftrightarrow>
     (\<exists>u. dlg_decode L U root = Inr u \<and>
          d = \<lparr> dl_rt = root, dl_blks = bs, dl_atch = br_empty, dl_ucan = u \<rparr>)"
  by (auto simp: NewDelegation_def NewBlockStore_def case_sum_eq)

lemma NewDelegationView_Inr:
  "NewDelegationView L U l bs = Inr d \<longleftrightarrow>
     (\<exists>b u. br_Get bs l = Some b \<and> dlg_decode L U b = Inr u \<and>
          d = \<lparr> dl_rt = b, dl_blks = bs, dl_atch = br_empty, dl_ucan = u \<rparr>)"
  by (auto simp: NewDelegationView_def case_option_eq NewDelegation_Inr)

lemma dlg_decode_Inr: "dlg_decode L U b = Inr u \<longleftrightarrow> block_Decode L (ul_cbor U) b = Inr u"
  by (auto simp: dlg_decode_def NewUCAN_def case_sum_eq)

lemma WriteInto_Ret: "bs_WriteInto seq s = Ret s' \<longleftrightarrow> (\<exists>bs. seq = map Inr bs \<and> s' = foldl bs_Put s bs)"
proof
  assume a: "bs_WriteInto seq s = Ret s'"
  then have "\<nexists>e. Inl e \<in> set seq" by (metis WriteInto_error comp.distinct(1))
  then obtain bs where "seq = map Inr bs" by (metis ex_map_conv obj_sumE)
  with a show "\<exists>bs. seq = map Inr bs \<and> s' = foldl bs_Put s bs" by (auto simp: WriteInto_ok)
qed (auto simp: WriteInto_ok)

lemma proofs_WriteInto_Ret:
  assumes "proofs_WriteInto ps bs = Ret (links, bs')"
  shows "links = map proof_Link ps \<and>
         (\<exists>blks. bs' = foldl bs_Put bs blks \<and>
            (\<forall>d. PDelegation d \<in> set ps \<longrightarrow> (\<exists>dbs. dlg_Blocks d = map Inr dbs \<and> set dbs \<subseteq> set blks)))"
  using assms
proof (induction ps arbitrary: bs links)
  case (Cons p ps)
  then obtain bs1 links1 where
    b: "(case proof_Delegation p of Some d \<Rightarrow> bs_WriteInto (dlg_Blocks d) bs | None \<Rightarrow> Ret bs) = Ret bs1"
    and w: "proofs_WriteInto ps bs1 = Ret (links1, bs')" and l: "links = proof_Link p # links1"
    by auto
  from b obtain blks1 where b1: "bs1 = foldl bs_Put bs blks1"
    "\<forall>d. p = PDelegation d \<longrightarrow> dlg_Blocks d = map Inr blks1"
  proof (cases p)
    case (PDelegation d)
    with b that show ?thesis by (auto simp: proof_Delegation_def WriteInto_Ret)
  next
    case (PLink l)
    with b that [of "[]"] show ?thesis by (simp add: proof_Delegation_def)
  qed
  obtain blks2 where b2: "bs' = foldl bs_Put bs1 blks2"
    "\<forall>d. PDelegation d \<in> set ps \<longrightarrow> (\<exists>dbs. dlg_Blocks d = map Inr dbs \<and> set dbs \<subseteq> set blks2)"
    "links1 = map proof_Link ps"
    using Cons.IH [OF w] by blast
  have "bs' = foldl bs_Put bs (blks1 @ blks2)" using b1 b2 by simp
  moreover have "\<exists>dbs. dlg_Blocks d = map Inr dbs \<and> set dbs \<subseteq> set (blks1 @ blks2)"
    if "PDelegation d \<in> set (p # ps)" for d
    using that b1(2) b2(2) by fastforce
  ultimately show ?case using l b2(3) by (intro conjI exI [of _ "blks1 @ blks2"]) auto
qed (auto intro: exI [of _ "[]"])

lemma Delegate_Inr:
  "Delegate L U now issuer audience caps options = Ret (Inr d) \<longleftrightarrow>
     (\<exists>cfg links bs data rt.
        prune_config (foldl apply_delegate_option delegationConfig0 options) issuer audience caps
          = Ret (Inr cfg) \<and>
        proofs_WriteInto (dc_prf cfg) br_empty = Ret (links, bs) \<and>
        ucan_Issue L U now issuer audience caps (issue_options cfg links) = Ret (Inr data) \<and>
        block_Encode L (ul_cbor U) data = Inr rt \<and>
        NewDelegation L U rt (bs_Put bs rt) = Inr d)"
  by (simp add: Delegate_def NewBlockStore_def case_sum_eq) blast

lemma issued_proofs:
  assumes "ucan_Issue L U now issuer audience caps (issue_options cfg links) = Ret (Inr data)"
  shows "um_Prf data = links"
  using assms
  by (elim issue_inversion) (auto simp: issue_options_def ucanConfig0_def split: option.splits)

section \<open>Properties\<close>

text \<open>
  C30. What \<open>Delegate\<close> returns: a delegation of the UCAN it issued, whose proofs are the links of
  the given (or pruned) proofs in order, whose root block decodes to that UCAN, and whose store
  holds the root and every block of the proofs that were delegations.
\<close>

theorem delegate_result:
  assumes "codec_ok (ul_cbor U)"
    and "Delegate L U now issuer audience caps options = Ret (Inr d)"
  shows "\<exists>cfg links. prune_config (foldl apply_delegate_option delegationConfig0 options) issuer audience caps
            = Ret (Inr cfg) \<and>
          ucan_Issue L U now issuer audience caps (issue_options cfg links) = Ret (Inr (dl_ucan d)) \<and>
          dlg_Proofs d = map proof_Link (dc_prf cfg) \<and>
          dlg_decode L U (dl_rt d) = Inr (dl_ucan d) \<and>
          br_Get (dl_blks d) (dlg_Link d) \<noteq> None \<and>
          (\<forall>p b. PDelegation p \<in> set (dc_prf cfg) \<longrightarrow> Inr b \<in> set (dlg_Blocks p) \<longrightarrow>
             br_Get (dl_blks d) (blk_link b) \<noteq> None)"
proof -
  obtain cfg links bs data rt where
    a: "prune_config (foldl apply_delegate_option delegationConfig0 options) issuer audience caps = Ret (Inr cfg)"
      "proofs_WriteInto (dc_prf cfg) br_empty = Ret (links, bs)"
      "ucan_Issue L U now issuer audience caps (issue_options cfg links) = Ret (Inr data)"
      "block_Encode L (ul_cbor U) data = Inr rt" "NewDelegation L U rt (bs_Put bs rt) = Inr d"
    using assms(2) by (auto simp: Delegate_Inr)
  have dec: "block_Decode L (ul_cbor U) rt = Inr data"
    by (rule block_codec_roundtrip [OF assms(1) a(4)])
  with a(5) have d: "d = \<lparr> dl_rt = rt, dl_blks = bs_Put bs rt, dl_atch = br_empty, dl_ucan = data \<rparr>"
    by (auto simp: NewDelegation_Inr dlg_decode_Inr)
  obtain blks where blks: "links = map proof_Link (dc_prf cfg)" "bs = foldl bs_Put br_empty blks"
    "\<forall>d. PDelegation d \<in> set (dc_prf cfg) \<longrightarrow> (\<exists>dbs. dlg_Blocks d = map Inr dbs \<and> set dbs \<subseteq> set blks)"
    using proofs_WriteInto_Ret [OF a(2)] by blast
  have get: "br_Get (bs_Put bs rt) l \<noteq> None" if "l \<in> blk_link ` (set (blks @ [rt]))" for l
    using that store.contents(1) [of "blks @ [rt]" l] blks(2)
      find_link_None [of l "blks @ [rt]"] by (auto simp: find_link_None)
  have "br_Get (bs_Put bs rt) (blk_link b) \<noteq> None"
    if "PDelegation p \<in> set (dc_prf cfg)" "Inr b \<in> set (dlg_Blocks p)" for p b
    using that blks(3) by (intro get) fastforce
  with a(1,3) get [of "blk_link rt"] show ?thesis
    using dec issued_proofs [OF a(3)] blks(1)
    by (auto simp: d dlg_Proofs_def ucan_Proofs_def dlg_decode_Inr dlg_Link_def intro!: exI [of _ cfg] exI [of _ links])
qed

lemma format_other_codec:
  "FormatHeader L (U\<lparr> ul_cbor := C \<rparr>) = FormatHeader L U"
  "FormatPayload L (U\<lparr> ul_cbor := C \<rparr>) = FormatPayload L U"
  by (intro ext, simp add: FormatHeader_def FormatPayload_def)+

lemma encode_other_codec:
  "encodeSignaturePayload L (U\<lparr> ul_cbor := C \<rparr>) = encodeSignaturePayload L U"
  by (intro ext) (simp only: encodeSignaturePayload_def FormatSignPayload_def format_other_codec)

lemma issue_other_codec [simp]:
  "ucan_Issue L (U\<lparr> ul_cbor := C \<rparr>) now sg aud caps opts = ucan_Issue L U now sg aud caps opts"
  unfolding ucan_Issue_def encode_other_codec ..

text \<open>A UCAN of the concrete signer, and the delegation of it, for the witnesses.\<close>

lemma delegate0:
  obtains u d where "ucan_Issue lib0 ucanlib0 1000 (signer0 (did0 ''s'')) (did0 ''a'') [] [] = Ret (Inr u)"
    "Delegate lib0 (ucanlib0\<lparr> ul_cbor := table_codec 113 [(''u'', u)] \<rparr>) 1000 (signer0 (did0 ''s''))
       (did0 ''a'') [] [] = Ret (Inr d)" "um_Prf u = []"
proof -
  obtain u where u: "ucan_Issue lib0 ucanlib0 1000 (signer0 (did0 ''s'')) (did0 ''a'') []
      (issue_options delegationConfig0 []) = Ret (Inr u)"
    using issue0 [of "[]" "issue_options delegationConfig0 []" 1000 "''s''" "''a''"]
    by (auto simp: ucanConfig0_def issue_options_def delegationConfig0_def)
  let ?U = "ucanlib0\<lparr> ul_cbor := table_codec 113 [(''u'', u)] \<rparr>"
  obtain rt where rt: "block_Encode lib0 (ul_cbor ?U) u = Inr rt"
    using block_Encode_ok [of "ul_cbor ?U" u "''u''" lib0] by (auto simp: table_codec_def)
  then have "block_Decode lib0 (ul_cbor ?U) rt = Inr u"
    by (rule block_codec_roundtrip [rotated]) (simp add: table_codec_ok)
  then obtain d where d: "NewDelegation lib0 ?U rt (bs_Put br_empty rt) = Inr d"
    by (auto simp: NewDelegation_Inr dlg_decode_Inr)
  have "Delegate lib0 ?U 1000 (signer0 (did0 ''s'')) (did0 ''a'') [] [] = Ret (Inr d)"
    using u rt d by (auto simp: Delegate_Inr prune_config_def delegationConfig0_def)
  moreover have "ucan_Issue lib0 ucanlib0 1000 (signer0 (did0 ''s'')) (did0 ''a'') [] [] = Ret (Inr u)"
    using u by (simp add: ucan_Issue_def issue_options_def ucanConfig0_def delegationConfig0_def)
  ultimately show thesis using that issued_proofs [OF u] by blast
qed

theorem delegate_result_witness:
  "\<exists>u d. Delegate lib0 (ucanlib0\<lparr> ul_cbor := table_codec 113 [(''u'', u)] \<rparr>) 1000
            (signer0 (did0 ''s'')) (did0 ''a'') [] [] = Ret (Inr d) \<and>
         dlg_decode lib0 (ucanlib0\<lparr> ul_cbor := table_codec 113 [(''u'', u)] \<rparr>) (dl_rt d) = Inr (dl_ucan d) \<and>
         br_Get (dl_blks d) (dlg_Link d) \<noteq> None"
proof -
  obtain u d where d: "Delegate lib0 (ucanlib0\<lparr> ul_cbor := table_codec 113 [(''u'', u)] \<rparr>) 1000
      (signer0 (did0 ''s'')) (did0 ''a'') [] [] = Ret (Inr d)"
    by (rule delegate0)
  moreover have "codec_ok (ul_cbor (ucanlib0\<lparr> ul_cbor := table_codec 113 [(''u'', u)] \<rparr>))"
    by (simp add: table_codec_ok)
  ultimately show ?thesis using delegate_result by blast
qed



lemma find_link_inj:
  assumes "inj_on blk_link (set bs)" "b \<in> set bs"
  shows "find (\<lambda>x. blk_link x = blk_link b) bs = Some b"
proof (cases "find (\<lambda>x. blk_link x = blk_link b) bs")
  case (Some c)
  then show ?thesis using find_Some_link [OF Some] assms by (auto dest: inj_onD)
qed (use assms in \<open>auto simp: find_link_None\<close>)

text \<open>Archiving intact blocks under a descriptor, and reading the archive back.\<close>

lemma archived_blocks:
  assumes "carlib_ok L K" and "inj_on blk_link (set (bs @ [variant]))"
    and "\<forall>b \<in> set (bs @ [variant]). car_intact K b"
  obtains b cbs br where
    "car_Encode K [blk_link variant] (seq_then (map Inr bs) [Inr variant]) = (b, None)"
    "car_Decode L K b = Inr ([blk_link variant], cbs)"
    "NewBlockReader [] (plain_seq cbs) = Inr br"
    "\<And>x. x \<in> set (bs @ [variant]) \<Longrightarrow> br_Get br (blk_link x) = Some x"
proof -
  have e: "seq_then (map Inr bs) [Inr variant] = map Inr (bs @ [variant])"
    by (simp add: seq_then_eq)
  obtain b cbs where b: "read_all (car_Encode K [blk_link variant] (map Inr (bs @ [variant]))) = Inr b"
    "car_Decode L K b = Inr ([blk_link variant], cbs)" "plain_seq cbs = map Inr (bs @ [variant])"
    using car_roundtrip_blocks [OF assms(1,3), of "[blk_link variant]"] by blast
  obtain br where br: "NewBlockReader [] (map Inr (bs @ [variant])) = Inr br"
    using NewBlockReader_total by blast
  show thesis
  proof (rule that [of b cbs br])
    show "car_Encode K [blk_link variant] (seq_then (map Inr bs) [Inr variant]) = (b, None)"
      using b(1) by (auto simp: e read_all_def case_option_eq prod_eq_iff split: option.splits)
    show "br_Get br (blk_link x) = Some x" if "x \<in> set (bs @ [variant])" for x
      using NewBlockReader_contents(1) [OF br] find_link_inj [OF assms(2) that] by simp
  qed (use b br in simp_all)
qed

lemma extract_archive:
  assumes "carlib_ok L K" "codec_ok (ul_archive U)"
    and "dlg_Export n L U [] d = Ret (map Inr bs)"
    and v: "block_Encode L (ul_archive U) (dlg_Link d) = Inr variant"
    and inj: "inj_on blk_link (set (bs @ [variant]))"
    and "\<forall>b \<in> set (bs @ [variant]). car_intact K b"
    and "dlg_decode L U (dl_rt d) = Inr (dl_ucan d)"
  shows "\<exists>b d'. dlg_Archive n L U K d = Ret (b, None) \<and> dlg_Extract L U K b = Inr d' \<and>
           dl_rt d' = dl_rt d \<and> dl_ucan d' = dl_ucan d \<and>
           (\<forall>blk \<in> set bs. br_Get (dl_blks d') (blk_link blk) = Some blk)"
proof -
  obtain b cbs br where b: "car_Encode K [blk_link variant] (seq_then (map Inr bs) [Inr variant]) = (b, None)"
    "car_Decode L K b = Inr ([blk_link variant], cbs)" "NewBlockReader [] (plain_seq cbs) = Inr br"
    and get: "\<And>x. x \<in> set (bs @ [variant]) \<Longrightarrow> br_Get br (blk_link x) = Some x"
    using archived_blocks [OF assms(1) inj assms(6)] by blast
  have "dl_rt d \<in> set bs"
    using export_exact [of n L U "[]" "dl_ucan d" "dl_rt d" "dl_blks d" "Some (dl_atch d)" "map Inr bs" "dl_rt d"]
      assms(3) by (auto simp: dlg_Export_def)
  then have root: "br_Get br (dlg_Link d) = Some (dl_rt d)"
    using get [of "dl_rt d"] by (simp add: dlg_Link_def)
  have dv: "block_Decode L (ul_archive U) variant = Inr (dlg_Link d)"
    by (rule block_codec_roundtrip [OF assms(2) v])
  obtain d' where d': "NewDelegationView L U (dlg_Link d) br = Inr d'"
    "dl_rt d' = dl_rt d" "dl_ucan d' = dl_ucan d" "dl_blks d' = br"
    using root assms(7) by (auto simp: NewDelegationView_Inr)
  have "dlg_Archive n L U K d = Ret (b, None)" using b(1) assms(3) v by (simp add: dlg_Archive_def)
  moreover have "dlg_Extract L U K b = Inr d'"
    using b get [of variant] dv d'(1) by (simp add: dlg_Extract_def)
  ultimately show ?thesis using d' get by auto
qed

text \<open>
  C23. Archiving a delegation and extracting the archive gives a delegation with the same root
  and UCAN and every exported block; the same holds of the base64 text form. The blocks have to
  be intact and no two of them may share a link.
\<close>

theorem archive_roundtrip:
  assumes "carlib_ok L K" "cid_text_ok K" "codec_ok (ul_archive U)"
    and "dlg_Export n L U [] d = Ret (map Inr bs)"
    and "block_Encode L (ul_archive U) (dlg_Link d) = Inr variant"
    and "inj_on blk_link (set (bs @ [variant]))"
    and "\<forall>b \<in> set (bs @ [variant]). car_intact K b"
    and "dlg_decode L U (dl_rt d) = Inr (dl_ucan d)"
  shows "\<exists>b s d'. dlg_Archive n L U K d = Ret (b, None) \<and> dlg_Extract L U K b = Inr d' \<and>
           dlg_Format n L U K d = Ret (Inr s) \<and> dlg_Parse L U K s = Inr d' \<and>
           dl_rt d' = dl_rt d \<and> dl_ucan d' = dl_ucan d \<and>
           (\<forall>blk \<in> set bs. br_Get (dl_blks d') (blk_link blk) = Some blk)"
proof -
  obtain b d' where b: "dlg_Archive n L U K d = Ret (b, None)" "dlg_Extract L U K b = Inr d'"
    "dl_rt d' = dl_rt d" "dl_ucan d' = dl_ucan d"
    "\<forall>blk \<in> set bs. br_Get (dl_blks d') (blk_link blk) = Some blk"
    using extract_archive [OF assms(1,3-8)] by blast
  obtain m s where "cl_identity K b = Inr m" "cl_mh_decode K m = Inr (mc_Identity, b)"
    "cl_cid_string64 K mc_Car m = Inr s" "cl_cid_decode K s = Inr (mc_Car, m)"
    using assms(2) unfolding cid_text_ok_def mc_Identity_def by metis
  then have "dlg_Format n L U K d = Ret (Inr s)" "dlg_Parse L U K s = Inr d'"
    using b(1,2) by (simp_all add: dlg_Format_def dlg_Parse_def read_all_def)
  with b show ?thesis by blast
qed

lemma encoded_car_intact:
  "block_Encode lib0 C v = Inr blk \<Longrightarrow> car_intact car0 blk"
  by (simp add: block_Encode_Inr intact_def car_intact_def car0_def) (simp add: lib0_def)

theorem archive_roundtrip_witness:
  "\<exists>u d b d'. Delegate lib0 (ucanlib0\<lparr> ul_cbor := table_codec 113 [(''u'', u)] \<rparr>) 1000
            (signer0 (did0 ''s'')) (did0 ''a'') [] [] = Ret (Inr d) \<and>
     dlg_Archive 1 lib0 (ucanlib0\<lparr> ul_cbor := table_codec 113 [(''u'', u)] \<rparr>) car0 d = Ret (b, None) \<and>
     dlg_Extract lib0 (ucanlib0\<lparr> ul_cbor := table_codec 113 [(''u'', u)] \<rparr>) car0 b = Inr d' \<and>
     dl_ucan d' = dl_ucan d"
proof -
  obtain u d where u: "Delegate lib0 (ucanlib0\<lparr> ul_cbor := table_codec 113 [(''u'', u)] \<rparr>) 1000
      (signer0 (did0 ''s'')) (did0 ''a'') [] [] = Ret (Inr d)" and p: "um_Prf u = []"
    by (rule delegate0)
  let ?U = "ucanlib0\<lparr> ul_cbor := table_codec 113 [(''u'', u)] \<rparr>"
  obtain v where enc: "block_Encode lib0 (ul_cbor ?U) v = Inr (dl_rt d)"
    and dec: "dlg_decode lib0 ?U (dl_rt d) = Inr (dl_ucan d)" and "dl_atch d = br_empty"
    using u by (auto simp: Delegate_Inr NewDelegation_Inr)
  then have rb: "blk_bytes (dl_rt d) = ''u''" and ru: "um_Prf (dl_ucan d) = []"
    using p by (auto simp: block_Encode_Inr dlg_decode_Inr block_Decode_Inr table_codec_def
        split: if_splits)
  then have ex: "dlg_Export 1 lib0 ?U [] d = Ret (map Inr [dl_rt d])"
    using \<open>dl_atch d = br_empty\<close>
    by (simp add: dlg_Export_def ucan_Proofs_def seq_then_eq store.iter_empty)
  have va: "ul_archive ?U = \<lparr> cd_Code = 113, cd_Encode = (\<lambda>l. Inr l), cd_Decode = (\<lambda>b. Inr b) \<rparr>"
    by (simp add: ucanlib0_def)
  obtain w where w: "block_Encode lib0 (ul_archive ?U) (dlg_Link d) = Inr w"
    "blk_bytes w = dlg_Link d"
    using block_Encode_ok [of "ul_archive ?U" "dlg_Link d" "dlg_Link d" lib0] by (auto simp: va)
  have rl: "blk_link (dl_rt d) = char_of (113::nat) # char_of (18::nat) # take 32 (''u'' @ replicate 32 (CHR 0x00))"
    using enc rb by (simp add: block_Encode_Inr intact_def table_codec_def lib0_def sha256_Code_def)
  have "blk_link w = char_of (113::nat) # char_of (18::nat) # take 32 (dlg_Link d @ replicate 32 (CHR 0x00))"
    using w by (simp add: block_Encode_Inr intact_def va lib0_def sha256_Code_def)
  moreover have "c # CHR ''u'' # cs \<noteq> replicate 31 (CHR 0x00)" for c cs
  proof
    assume a: "c # CHR ''u'' # cs = replicate 31 (CHR 0x00)"
    have "CHR ''u'' \<in> set (replicate 31 (CHR 0x00))" by (simp flip: a)
    then show False by simp
  qed
  ultimately have "blk_link w \<noteq> blk_link (dl_rt d)" by (simp add: rl dlg_Link_def)
  then have inj: "inj_on blk_link (set ([dl_rt d] @ [w]))" by auto
  have c: "\<forall>b \<in> set ([dl_rt d] @ [w]). car_intact car0 b"
    using encoded_car_intact [OF enc] encoded_car_intact [OF w(1)] by simp
  have "codec_ok (ul_archive ?U)" by (simp add: va codec_ok_def)
  from archive_roundtrip [OF car0_ok car0_text_ok this ex w(1) inj c dec] u show ?thesis by blast
qed

text \<open>
  The options handed to a pruner stand for the configuration they were made from, all but
  the pruner: applying them to the empty configuration gives it back.
\<close>

lemma dlg_options_noexp:
  "dc_noexp cfg \<longrightarrow> dc_exp cfg = None \<Longrightarrow>
     dc_noexp (foldl apply_delegate_option cfg opts) \<longrightarrow> dc_exp (foldl apply_delegate_option cfg opts) = None"
proof (induction opts arbitrary: cfg)
  case (Cons opt opts)
  have "dc_noexp (apply_delegate_option cfg opt) \<longrightarrow> dc_exp (apply_delegate_option cfg opt) = None"
  proof (cases opt)
    case (DOption x)
    then show ?thesis using Cons.prems by (cases x) auto
  qed (use Cons.prems in simp)
  then show ?case using Cons.IH by simp
qed simp

theorem pruner_options_roundtrip:
  "foldl apply_dlg_option delegationConfig0
     (cfgToOptions (foldl apply_delegate_option delegationConfig0 options)) =
   (foldl apply_delegate_option delegationConfig0 options)\<lparr> dc_pruner := None \<rparr>"
proof -
  define cfg where "cfg = foldl apply_delegate_option delegationConfig0 options"
  have "dc_noexp cfg \<longrightarrow> dc_exp cfg = None"
    unfolding cfg_def by (rule dlg_options_noexp) (simp add: delegationConfig0_def)
  then show ?thesis unfolding cfg_def [symmetric]
    by (cases cfg) (auto simp: cfgToOptions_def delegationConfig0_def split: option.splits)
qed

end
