(* ===== verification/Capability.thy ===== *)
theory Capability
  imports Delegation
begin

text \<open>
  validator/capability.go: capabilities as they are claimed from a delegation, descriptors,
  parsing a capability by a descriptor, selecting the matches among sources, and resolving a
  delegated capability against a claimed one. Caveats of any type are \<^typ>\<open>gany\<close> values (the
  static type parameter is erased). Capability errors are values; the texts they render to are
  in the theory \<open>Verror\<close>.
\<close>

section \<open>Sources, descriptors, matches\<close>

record vsource =
  src_capability :: "gany capability"
  src_delegation :: delegation

definition NewSource :: "gany capability \<Rightarrow> delegation \<Rightarrow> vsource" where
  "NewSource c d = \<lparr> src_capability = c, src_delegation = d \<rparr>"

text \<open>\<open>Derives\<close> returns nil (\<open>None\<close>) when the claimed capability derives from the delegated one.\<close>

type_synonym derives = "gany capability \<Rightarrow> gany capability \<Rightarrow> failure option"

record descriptor =
  ds_can :: string
  ds_with :: "(string, string) reader"
  ds_nb :: "(gany, gany) reader"
  ds_derives :: derives

record vmatch =
  mt_sources :: "vsource list"
  mt_value :: "gany capability"
  mt_descriptor :: descriptor

definition NewMatch :: "vsource \<Rightarrow> gany capability \<Rightarrow> descriptor \<Rightarrow> vmatch" where
  "NewMatch s c d = \<lparr> mt_sources = [s], mt_value = c, mt_descriptor = d \<rparr>"

text \<open>\<open>m.sources[0]\<close>.\<close>

definition mt_source :: "vmatch \<Rightarrow> vsource comp" where
  "mt_source m = first_of (mt_sources m)"

definition match_Proofs :: "vmatch \<Rightarrow> delegation list comp" where
  "match_Proofs m = cmap (\<lambda>s. [src_delegation s]) (mt_source m)"

text \<open>\<open>CanIssue\<close> prints DIDs, so it may panic.\<close>

type_synonym can_issue = "gany capability \<Rightarrow> did \<Rightarrow> bool comp"

definition match_Prune :: "extlib \<Rightarrow> can_issue \<Rightarrow> vmatch \<Rightarrow> vmatch option comp" where
  "match_Prune L canIssue m =
     cbind (mt_source m) (\<lambda>s.
       cmap (\<lambda>b. if b then None else Some m)
            (canIssue (mt_value m) (dlg_Issuer L (src_delegation s))))"

section \<open>Errors\<close>

datatype invalid_capability =
    UnknownCapability "gany capability"
  | MalformedCapability "gany capability" failure

datatype delegation_sub_error =
    SubMalformed "gany capability" failure
  | SubEscalated "gany capability" "gany capability" failure

text \<open>The context of a delegation error: the match, or the capability, it arose at.\<close>

datatype error_context = CtxMatch vmatch | CtxCapability "gany capability"

datatype delegation_error = DelegationError "delegation_sub_error list" error_context

section \<open>Abilities and resources\<close>

definition ResolveAbility :: "string \<Rightarrow> string \<Rightarrow> string" where
  "ResolveAbility pattern can =
     (if pattern = can \<or> pattern = ''*'' then can
      else if HasSuffix pattern ''/*'' \<and> HasPrefix can (take (length pattern - 1) pattern) then can
      else [])"

definition ResolveResource :: "string \<Rightarrow> string \<Rightarrow> string" where
  "ResolveResource source uri =
     (if source = uri \<or> source = ''ucan:*'' then uri else [])"

definition DefaultDerives :: derives where
  "DefaultDerives claimed delegated =
     (let dres = cp_With delegated; cres = cp_With claimed
      in if HasSuffix dres ''*'' then
           (if \<not> HasPrefix cres (take (length dres - 1) dres)
            then Some (NewSchemaError (''Resource '' @ cres @ '' does not match delegated '' @ dres))
            else None)
         else if dres \<noteq> cres
         then Some (NewSchemaError (''Resource '' @ cres @ '' is not contained by '' @ dres))
         else None)"

section \<open>Parsing and resolving\<close>

definition ParseCapability ::
    "descriptor \<Rightarrow> vsource \<Rightarrow> (invalid_capability + gany capability) comp" where
  "ParseCapability d source =
     (let cap = src_capability source
      in if ds_can d \<noteq> cp_Can cap then Ret (Inl (UnknownCapability cap))
         else cbind (ds_with d (cp_With cap)) (\<lambda>u. case u of
                Inl err \<Rightarrow> Ret (Inl (MalformedCapability cap err))
              | Inr uri \<Rightarrow>
                  cbind (ds_nb d (cp_Nb cap)) (\<lambda>n. case n of
                    Inl err \<Rightarrow> Ret (Inl (MalformedCapability cap err))
                  | Inr nb \<Rightarrow> Ret (Inr (Ucan.NewCapability (cp_Can cap) uri nb)))))"

definition ResolveCapability ::
    "descriptor \<Rightarrow> gany capability \<Rightarrow> vsource \<Rightarrow> (invalid_capability + gany capability) comp" where
  "ResolveCapability d claimed source =
     (let cap = src_capability source;
          can = ResolveAbility (cp_Can cap) (cp_Can claimed)
      in if can = [] then Ret (Inl (UnknownCapability cap))
         else (let resource = ResolveResource (cp_With cap) (cp_With claimed);
                   resource = (if resource = [] then cp_With cap else resource)
               in cbind (ds_with d resource) (\<lambda>u. case u of
                    Inl err \<Rightarrow> Ret (Inl (MalformedCapability cap err))
                  | Inr uri \<Rightarrow>
                      cbind (ds_nb d (cp_Nb claimed)) (\<lambda>n. case n of
                        Inl err \<Rightarrow> Ret (Inl (MalformedCapability cap err))
                      | Inr nb \<Rightarrow> Ret (Inr (Ucan.NewCapability can uri nb))))))"

section \<open>Selecting\<close>

datatype selected = SelMatch vmatch | SelError delegation_error | SelUnknown "gany capability"

text \<open>The loop over sources: matches, errors and unknown capabilities, each in order.\<close>

fun select_loop ::
    "(vsource \<Rightarrow> selected comp) \<Rightarrow> vsource list \<Rightarrow>
     (vmatch list \<times> delegation_error list \<times> gany capability list) comp" where
  "select_loop f [] = Ret ([], [], [])"
| "select_loop f (s # ss) =
     cbind (f s) (\<lambda>r. cbind (select_loop f ss) (\<lambda>(ms, es, us).
       Ret (case r of
              SelMatch m \<Rightarrow> (m # ms, es, us)
            | SelError e \<Rightarrow> (ms, e # es, us)
            | SelUnknown u \<Rightarrow> (ms, es, u # us))))"

text \<open>\<open>capability.Match\<close>, and the package function \<open>Select\<close> over it.\<close>

definition cap_Match :: "descriptor \<Rightarrow> vsource \<Rightarrow> (invalid_capability + vmatch) comp" where
  "cap_Match d source =
     cmap (\<lambda>r. case r of Inl err \<Rightarrow> Inl err | Inr cap \<Rightarrow> Inr (NewMatch source cap d))
          (ParseCapability d source)"

definition select_source :: "descriptor \<Rightarrow> vsource \<Rightarrow> selected comp" where
  "select_source d source =
     cmap (\<lambda>r. case r of
                 Inl err \<Rightarrow>
                   (case err of
                      UnknownCapability c \<Rightarrow> SelUnknown c
                    | MalformedCapability c cause \<Rightarrow>
                        SelError (DelegationError [SubMalformed c cause]
                                    (CtxCapability (src_capability source))))
               | Inr m \<Rightarrow> SelMatch m)
          (cap_Match d source)"

definition cap_Select ::
    "descriptor \<Rightarrow> vsource list \<Rightarrow> (vmatch list \<times> delegation_error list \<times> gany capability list) comp" where
  "cap_Select d sources = select_loop (select_source d) sources"

definition match_select_source :: "vmatch \<Rightarrow> vsource \<Rightarrow> selected comp" where
  "match_select_source m source =
     cmap (\<lambda>r. case r of
                 Inl err \<Rightarrow>
                   (case err of
                      UnknownCapability c \<Rightarrow> SelUnknown c
                    | MalformedCapability c cause \<Rightarrow>
                        SelError (DelegationError [SubMalformed c cause] (CtxMatch m)))
               | Inr cap \<Rightarrow>
                   (case ds_derives (mt_descriptor m) (mt_value m) cap of
                      Some derr \<Rightarrow>
                        SelError (DelegationError [SubEscalated (mt_value m) cap derr] (CtxMatch m))
                    | None \<Rightarrow> SelMatch (NewMatch source cap (mt_descriptor m))))
          (ResolveCapability (mt_descriptor m) (mt_value m) source)"

definition match_Select ::
    "vmatch \<Rightarrow> vsource list \<Rightarrow> (vmatch list \<times> delegation_error list \<times> gany capability list) comp" where
  "match_Select m sources = select_loop (match_select_source m) sources"

section \<open>Capability parsers\<close>

text \<open>\<open>validator.NewCapability\<close>: without a derives function the default one is used.\<close>

definition NewCapabilityParser ::
    "string \<Rightarrow> (string, string) reader \<Rightarrow> (gany, gany) reader \<Rightarrow> derives option \<Rightarrow> descriptor" where
  "NewCapabilityParser can w nb derives =
     \<lparr> ds_can = can, ds_with = w, ds_nb = nb,
       ds_derives = (case derives of None \<Rightarrow> DefaultDerives | Some f \<Rightarrow> f) \<rparr>"

definition cap_New :: "descriptor \<Rightarrow> string \<Rightarrow> gany \<Rightarrow> gany capability" where
  "cap_New d w nb = Ucan.NewCapability (ds_can d) w nb"

text \<open>What \<open>any(nb).(ucan.CaveatBuilder)\<close> yields: the value's \<open>ToIPLD\<close>.\<close>

definition caveat_builder :: "extlib \<Rightarrow> gany \<Rightarrow> builder option" where
  "caveat_builder L nb =
     (case nb of
        GAttestation l \<Rightarrow> Some (Builder ''datamodel.AttestationModel'' (wrap_attestation L l))
      | GBuilder T r \<Rightarrow> Some (Builder T r)
      | _ \<Rightarrow> None)"

definition cap_Delegate ::
    "extlib \<Rightarrow> ucanlib \<Rightarrow> int \<Rightarrow> descriptor \<Rightarrow> signer \<Rightarrow> did \<Rightarrow> string \<Rightarrow> gany \<Rightarrow> delegate_option list \<Rightarrow>
     (err + delegation) comp" where
  "cap_Delegate L U now d issuer audience w nb options =
     (case caveat_builder L nb of
        Some bc \<Rightarrow> Delegate L U now issuer audience [Ucan.NewCapability (ds_can d) w bc] options
      | None \<Rightarrow> Ret (Inl ''not an IPLD builder: ''))"

definition cap_Invoke ::
    "extlib \<Rightarrow> ucanlib \<Rightarrow> int \<Rightarrow> descriptor \<Rightarrow> signer \<Rightarrow> did \<Rightarrow> string \<Rightarrow> gany \<Rightarrow> delegate_option list \<Rightarrow>
     (err + delegation) comp" where
  "cap_Invoke L U now d issuer audience w nb options =
     (case caveat_builder L nb of
        Some bc \<Rightarrow> Invoke L U now issuer audience (Ucan.NewCapability (ds_can d) w bc) options
      | None \<Rightarrow> Ret (Inl ''not an IPLD builder: ''))"

section \<open>Laws\<close>

lemma ResolveAbility_iff:
  assumes "can \<noteq> []"
  shows "ResolveAbility pattern can = can \<longleftrightarrow>
           pattern = can \<or> pattern = ''*'' \<or> (\<exists>ns rest. pattern = ns @ ''/*'' \<and> can = ns @ ''/'' @ rest)"
    and "ResolveAbility pattern can = can \<or> ResolveAbility pattern can = []"
proof -
  have t: "take (length (ns @ ''/*'') - 1) (ns @ ''/*'') = ns @ ''/''" for ns :: string
    by simp
  have "(HasSuffix pattern ''/*'' \<and> HasPrefix can (take (length pattern - 1) pattern)) \<longleftrightarrow>
        (\<exists>ns rest. pattern = ns @ ''/*'' \<and> can = ns @ ''/'' @ rest)"
    unfolding HasSuffix_iff HasPrefix_iff using t by (metis append.assoc)
  with assms show "ResolveAbility pattern can = can \<longleftrightarrow>
      pattern = can \<or> pattern = ''*'' \<or> (\<exists>ns rest. pattern = ns @ ''/*'' \<and> can = ns @ ''/'' @ rest)"
    by (auto simp: ResolveAbility_def)
qed (simp add: ResolveAbility_def)

lemma DefaultDerives_iff:
  "DefaultDerives claimed delegated = None \<longleftrightarrow>
     cp_With delegated = cp_With claimed \<and> \<not> HasSuffix (cp_With delegated) ''*'' \<or>
     (\<exists>p rest. cp_With delegated = p @ ''*'' \<and> cp_With claimed = p @ rest)"
proof -
  have t: "take (length (p @ ''*'') - 1) (p @ ''*'') = p" for p :: string by simp
  show ?thesis
  proof (cases "HasSuffix (cp_With delegated) ''*''")
    case True
    then obtain p where "cp_With delegated = p @ ''*''" by (auto simp: HasSuffix_iff)
    with True t [of p] show ?thesis by (simp add: DefaultDerives_def Let_def HasPrefix_iff del: length_append take_append)
  qed (auto simp: DefaultDerives_def Let_def HasSuffix_iff)
qed

lemma ParseCapability_Inr:
  "ParseCapability d s = Ret (Inr c) \<longleftrightarrow>
     ds_can d = cp_Can (src_capability s) \<and>
     (\<exists>uri nb. ds_with d (cp_With (src_capability s)) = Ret (Inr uri) \<and>
               ds_nb d (cp_Nb (src_capability s)) = Ret (Inr nb) \<and>
               c = Ucan.NewCapability (ds_can d) uri nb)"
  by (auto simp: ParseCapability_def Let_def case_sum_eq)

lemma ResolveCapability_Inr:
  "ResolveCapability d claimed s = Ret (Inr c) \<longleftrightarrow>
     (let cap = src_capability s; can = ResolveAbility (cp_Can cap) (cp_Can claimed);
          r = ResolveResource (cp_With cap) (cp_With claimed)
      in can \<noteq> [] \<and>
         (\<exists>uri nb. ds_with d (if r = [] then cp_With cap else r) = Ret (Inr uri) \<and>
                   ds_nb d (cp_Nb claimed) = Ret (Inr nb) \<and> c = Ucan.NewCapability can uri nb))"
  by (auto simp: ResolveCapability_def Let_def case_sum_eq)

lemma case_selected_eq:
  "(case r of SelMatch m \<Rightarrow> f m | SelError e \<Rightarrow> g e | SelUnknown u \<Rightarrow> h u) = y \<longleftrightarrow>
     (\<exists>m. r = SelMatch m \<and> f m = y) \<or> (\<exists>e. r = SelError e \<and> g e = y) \<or>
     (\<exists>u. r = SelUnknown u \<and> h u = y)"
  by (cases r) auto

lemma case_invalid_capability_eq:
  "y = (case r of UnknownCapability c \<Rightarrow> f c | MalformedCapability c e \<Rightarrow> g c e) \<longleftrightarrow>
     (\<exists>c. r = UnknownCapability c \<and> y = f c) \<or> (\<exists>c e. r = MalformedCapability c e \<and> y = g c e)"
  by (cases r) auto

lemma select_loop_Cons:
  "select_loop f (s # ss) = Ret (ms, es, us) \<longleftrightarrow>
     (\<exists>r ms' es' us'. f s = Ret r \<and> select_loop f ss = Ret (ms', es', us') \<and>
        (case r of SelMatch m \<Rightarrow> (m # ms', es', us') | SelError e \<Rightarrow> (ms', e # es', us')
         | SelUnknown u \<Rightarrow> (ms', es', u # us')) = (ms, es, us))"
  by auto

lemma select_loop_matches:
  assumes "select_loop f ss = Ret (ms, es, us)"
  shows "m \<in> set ms \<longleftrightarrow> (\<exists>s \<in> set ss. f s = Ret (SelMatch m))"
  using assms
proof (induction ss arbitrary: ms es us)
  case (Cons s ss)
  then obtain r ms' es' us' where "f s = Ret r" "select_loop f ss = Ret (ms', es', us')"
    and "(case r of SelMatch m \<Rightarrow> (m # ms', es', us') | SelError e \<Rightarrow> (ms', e # es', us')
         | SelUnknown u \<Rightarrow> (ms', es', u # us')) = (ms, es, us)"
    unfolding select_loop_Cons by blast
  with Cons.IH [of ms' es' us'] show ?case by (cases r) auto
qed simp

lemma select_loop_returns: "returns (select_loop f ss) \<longleftrightarrow> (\<forall>s \<in> set ss. returns (f s))"
proof (induction ss)
  case (Cons s ss)
  then show ?case by (auto simp: returns_iff) (metis prod_cases3)
qed simp

lemma select_loop_counts:
  "select_loop f ss = Ret (ms, es, us) \<Longrightarrow> length ms + length es + length us = length ss"
proof (induction ss arbitrary: ms es us)
  case (Cons s ss)
  then obtain r ms' es' us' where "f s = Ret r" "select_loop f ss = Ret (ms', es', us')"
    and "(case r of SelMatch m \<Rightarrow> (m # ms', es', us') | SelError e \<Rightarrow> (ms', e # es', us')
         | SelUnknown u \<Rightarrow> (ms', es', u # us')) = (ms, es, us)"
    unfolding select_loop_Cons by blast
  with Cons.IH [of ms' es' us'] show ?case by (cases r) auto
qed simp

lemma select_source_match:
  "select_source d s = Ret (SelMatch m) \<longleftrightarrow>
     (\<exists>c. ParseCapability d s = Ret (Inr c) \<and> m = NewMatch s c d)"
  by (auto simp: select_source_def cap_Match_def case_sum_eq' case_invalid_capability_eq)

lemma match_select_source_match:
  "match_select_source m s = Ret (SelMatch m') \<longleftrightarrow>
     (\<exists>c. ResolveCapability (mt_descriptor m) (mt_value m) s = Ret (Inr c) \<and>
          ds_derives (mt_descriptor m) (mt_value m) c = None \<and> m' = NewMatch s c (mt_descriptor m))"
  by (auto simp: match_select_source_def case_sum_eq' case_option_eq' case_invalid_capability_eq)

lemma cap_Select_matches:
  assumes "cap_Select d ss = Ret (ms, es, us)"
  shows "m \<in> set ms \<longleftrightarrow> (\<exists>s \<in> set ss. \<exists>c. ParseCapability d s = Ret (Inr c) \<and> m = NewMatch s c d)"
  using select_loop_matches [OF assms [unfolded cap_Select_def]]
  by (simp add: select_source_match)

lemma match_Select_matches:
  assumes "match_Select m ss = Ret (ms, es, us)"
  shows "m' \<in> set ms \<longleftrightarrow>
     (\<exists>s \<in> set ss. \<exists>c. ResolveCapability (mt_descriptor m) (mt_value m) s = Ret (Inr c) \<and>
        ds_derives (mt_descriptor m) (mt_value m) c = None \<and> m' = NewMatch s c (mt_descriptor m))"
  using select_loop_matches [OF assms [unfolded match_Select_def]]
  by (simp add: match_select_source_match)

section \<open>Properties\<close>

text \<open>
  C13. Attenuation. Every match \<open>Select\<close> finds among delegated sources claims the same ability as
  the match it was derived from, granted by the source's ability pattern, and a resource the
  source covers: its own, any resource (\<open>ucan:*\<close>), or one a trailing \<open>*\<close> is a prefix pattern of.
\<close>

theorem select_attenuates:
  assumes "match_Select m sources = Ret (matches, errs, unknowns)" and "m' \<in> set matches"
    and "ds_derives (mt_descriptor m) = DefaultDerives"
    and "\<forall>x y. ds_with (mt_descriptor m) x = Ret (Inr y) \<longrightarrow> y = x"
  shows "\<exists>s \<in> set sources. mt_sources m' = [s] \<and>
           (let pattern = cp_Can (src_capability s); can = cp_Can (mt_value m);
                granted = cp_With (src_capability s); res = cp_With (mt_value m)
            in cp_Can (mt_value m') = can \<and> can \<noteq> [] \<and>
               (pattern = can \<or> pattern = ''*'' \<or> (\<exists>ns rest. pattern = ns @ ''/*'' \<and> can = ns @ ''/'' @ rest)) \<and>
               (granted = res \<or> granted = ''ucan:*'' \<or> (\<exists>p rest. granted = p @ ''*'' \<and> res = p @ rest)))"
proof -
  obtain s c where s: "s \<in> set sources" and m': "m' = NewMatch s c (mt_descriptor m)"
    and r: "ResolveCapability (mt_descriptor m) (mt_value m) s = Ret (Inr c)"
    and d: "DefaultDerives (mt_value m) c = None"
    using match_Select_matches [OF assms(1)] assms(2,3) by auto
  let ?cap = "src_capability s" and ?v = "mt_value m"
  have can: "ResolveAbility (cp_Can ?cap) (cp_Can ?v) \<noteq> []"
    and cc: "cp_Can c = ResolveAbility (cp_Can ?cap) (cp_Can ?v)"
    and w: "cp_With c = (let r = ResolveResource (cp_With ?cap) (cp_With ?v)
                        in if r = [] then cp_With ?cap else r)"
    using r assms(4) by (auto simp: ResolveCapability_Inr Let_def Ucan.NewCapability_def)
  have ne: "cp_Can ?v \<noteq> []" using can by (auto simp: ResolveAbility_def split: if_splits)
  with can have ra: "ResolveAbility (cp_Can ?cap) (cp_Can ?v) = cp_Can ?v"
    using ResolveAbility_iff(2) by blast
  note pat = ResolveAbility_iff(1) [OF ne, THEN iffD1, OF ra]
  have "cp_With ?cap = cp_With ?v \<or> cp_With ?cap = ''ucan:*'' \<or>
        (\<exists>p rest. cp_With ?cap = p @ ''*'' \<and> cp_With ?v = p @ rest)"
    using d w by (auto simp: DefaultDerives_iff ResolveResource_def Let_def split: if_splits)
  with s m' cc ra ne pat show ?thesis
    by (intro bexI [of _ s]) (simp_all add: NewMatch_def Let_def)
qed

definition anywith :: "(string, string) reader" where
  "anywith s = Ret (Inr s)"

definition anynb :: "(gany, gany) reader" where
  "anynb n = Ret (Inr n)"

text \<open>A small descriptor, sources and a delegation of them for the witnesses.\<close>

definition ds0 :: descriptor where
  "ds0 = NewCapabilityParser ''store/add'' anywith anynb None"

theorem select_attenuates_witness:
  "\<forall>d. \<exists>ms es us. match_Select (NewMatch (NewSource (Ucan.NewCapability ''store/add'' ''did:key:za'' GNil) d)
          (Ucan.NewCapability ''store/add'' ''did:key:za'' GNil) ds0)
        [NewSource (Ucan.NewCapability ''store/*'' ''ucan:*'' GNil) d] = Ret (ms, es, us) \<and> length ms = 1 \<and>
     (\<forall>m' \<in> set ms. cp_Can (mt_value m') = ''store/add'')"
proof
  fix d
  let ?m = "NewMatch (NewSource (Ucan.NewCapability ''store/add'' ''did:key:za'' GNil) d)
          (Ucan.NewCapability ''store/add'' ''did:key:za'' GNil) ds0"
  let ?ss = "[NewSource (Ucan.NewCapability ''store/*'' ''ucan:*'' GNil) d]"
  obtain ms es us where ms: "match_Select ?m ?ss = Ret (ms, es, us)" "length ms = 1"
    by (simp add: match_Select_def match_select_source_def ResolveCapability_def NewMatch_def
        NewSource_def Ucan.NewCapability_def ds0_def NewCapabilityParser_def anywith_def anynb_def
        ResolveAbility_def ResolveResource_def DefaultDerives_def HasSuffix_def HasPrefix_def Let_def)
  have "cp_Can (mt_value m') = ''store/add''" if "m' \<in> set ms" for m'
    using select_attenuates [OF ms(1) that]
    by (auto simp: NewMatch_def ds0_def NewCapabilityParser_def anywith_def Ucan.NewCapability_def Let_def)
  with ms show "\<exists>ms es us. match_Select ?m ?ss = Ret (ms, es, us) \<and> length ms = 1 \<and>
     (\<forall>m' \<in> set ms. cp_Can (mt_value m') = ''store/add'')" by blast
qed

text \<open>
  The caveats of a delegated capability are never looked at: replacing them in a source
  changes neither whether it matches nor the capability it matches with, whose caveats are read
  from the claimed ones. A derives function that compares the two compares a value with itself.
\<close>

theorem delegated_caveats_ignored:
  "ResolveCapability d claimed (s\<lparr> src_capability := (src_capability s)\<lparr> cp_Nb := nb \<rparr> \<rparr>) = Ret (Inr c) \<longleftrightarrow>
   ResolveCapability d claimed s = Ret (Inr c) \<and> ds_nb d (cp_Nb claimed) = Ret (Inr (cp_Nb c))"
  by (auto simp: ResolveCapability_Inr Let_def Ucan.NewCapability_def)

end
