(* ===== verification/Verror.thy ===== *)
theory Verror
  imports Capability
begin

text \<open>
  validator/error.go: the errors of validation as values, their names and the texts they render
  to. Rendering may panic: the nil cause of an unverifiable signature does, so does the expiration
  of a proof that has none, and so does the undefined issuer of an invalid signature. JSON and time
  formatting are the parameter record \<open>fmtlib\<close>.
\<close>

section \<open>Errors\<close>

text \<open>The cause of a proof error: reading the delegation's blocks, misalignment, or an invalid proof.\<close>

datatype invalid_proof =
    SessionEscalation delegation unauthorized
  | UnverifiableSignature delegation "err option"
  | InvalidSignature delegation did
  | UnavailableProof link "err option"
  | DIDKeyResolution did err
  | Expired delegation
  | NotValidBefore delegation
  | Revoked delegation
and unauthorized =
    Unauthorized descriptor "delegation_error list" "gany capability list" "invalid_proof list"
      "invalid_claim list"
and invalid_claim =
    InvalidClaim vmatch "delegation_error list" "gany capability list" "proof_error list"
      "invalid_claim list"
and proof_error = ProofError link proof_cause
and proof_cause =
    CauseBlocks err
  | CauseAlignment did delegation
  | CauseInvalid invalid_proof

text \<open>The constructors the validator makes its errors with.\<close>

definition NewSessionEscalationError :: "delegation \<Rightarrow> unauthorized \<Rightarrow> invalid_proof" where [simp]:
  "NewSessionEscalationError d cause = SessionEscalation d cause"

definition NewUnverifiableSignatureError :: "delegation \<Rightarrow> err option \<Rightarrow> invalid_proof" where [simp]:
  "NewUnverifiableSignatureError d cause = UnverifiableSignature d cause"

definition NewInvalidSignatureError :: "delegation \<Rightarrow> verifier \<Rightarrow> invalid_proof" where [simp]:
  "NewInvalidSignatureError d vfr = InvalidSignature d (vf_DID vfr)"

definition NewUnavailableProofError :: "link \<Rightarrow> err option \<Rightarrow> invalid_proof" where [simp]:
  "NewUnavailableProofError l cause = UnavailableProof l cause"

definition NewDIDKeyResolutionError :: "did \<Rightarrow> err \<Rightarrow> invalid_proof" where [simp]:
  "NewDIDKeyResolutionError d cause = DIDKeyResolution d cause"

definition NewPrincipalAlignmentError :: "did \<Rightarrow> delegation \<Rightarrow> proof_cause" where [simp]:
  "NewPrincipalAlignmentError audience d = CauseAlignment audience d"

definition NewExpiredError :: "delegation \<Rightarrow> invalid_proof" where [simp]:
  "NewExpiredError d = Expired d"

definition NewRevokedError :: "delegation \<Rightarrow> invalid_proof" where [simp]:
  "NewRevokedError d = Revoked d"

definition NewNotValidBeforeError :: "delegation \<Rightarrow> invalid_proof" where [simp]:
  "NewNotValidBeforeError d = NotValidBefore d"

definition NewProofError :: "link \<Rightarrow> proof_cause \<Rightarrow> proof_error" where [simp]:
  "NewProofError proof cause = ProofError proof cause"

definition NewInvalidClaimError ::
    "vmatch \<Rightarrow> delegation_error list \<Rightarrow> gany capability list \<Rightarrow> proof_error list \<Rightarrow>
     invalid_claim list \<Rightarrow> invalid_claim" where [simp]:
  "NewInvalidClaimError matched dlgerrs unknowns invalidprf failedprf =
     InvalidClaim matched dlgerrs unknowns invalidprf failedprf"

definition NewUnauthorizedError ::
    "descriptor \<Rightarrow> delegation_error list \<Rightarrow> gany capability list \<Rightarrow> invalid_proof list \<Rightarrow>
     invalid_claim list \<Rightarrow> unauthorized" where
  "NewUnauthorizedError capability dlgerrs unknowns invalidprf failedprf =
     Unauthorized capability dlgerrs unknowns invalidprf failedprf"

fun ue_DelegationErrors :: "unauthorized \<Rightarrow> delegation_error list" where
  "ue_DelegationErrors (Unauthorized c ds us is fs) = ds"

fun ue_UnknownCapabilities :: "unauthorized \<Rightarrow> gany capability list" where
  "ue_UnknownCapabilities (Unauthorized c ds us is fs) = us"

fun ue_InvalidProofs :: "unauthorized \<Rightarrow> invalid_proof list" where
  "ue_InvalidProofs (Unauthorized c ds us is fs) = is"

fun ue_FailedProofs :: "unauthorized \<Rightarrow> invalid_claim list" where
  "ue_FailedProofs (Unauthorized c ds us is fs) = fs"

fun ice_Delegation :: "invalid_claim \<Rightarrow> delegation comp" where
  "ice_Delegation (InvalidClaim m ds us ps fs) = cmap src_delegation (mt_source m)"

definition ice_Issuer :: "extlib \<Rightarrow> invalid_claim \<Rightarrow> did comp" where
  "ice_Issuer L e = cmap (dlg_Issuer L) (ice_Delegation e)"

section \<open>Texts\<close>

record fmtlib =
  fl_marshal :: "json_model \<Rightarrow> err + string"
    \<comment> \<open>\<open>json.Marshal\<close>\<close>
  fl_print :: "gany capability \<Rightarrow> string"
    \<comment> \<open>a capability under the \<open>%s\<close> verb\<close>
  fl_time :: "int \<Rightarrow> string"
    \<comment> \<open>\<open>time.Unix(t, 0).Format(time.RFC3339)\<close>\<close>

text \<open>The JSON text of a capability, empty when it cannot be encoded: the error is dropped.\<close>

definition fl_json :: "fmtlib \<Rightarrow> gany capability \<Rightarrow> string" where
  "fl_json F c = (case capability_MarshalJSON (fl_marshal F) c of Inl e \<Rightarrow> [] | Inr t \<Rightarrow> t)"

definition match_String :: "fmtlib \<Rightarrow> vmatch \<Rightarrow> string" where
  "match_String F m = fl_json F (mt_value m)"

definition lines :: "string list \<Rightarrow> string" where
  "lines ls = Join ls [newline]"

fun context_text :: "fmtlib \<Rightarrow> error_context \<Rightarrow> string" where
  "context_text F (CtxMatch m) = match_String F m"
| "context_text F (CtxCapability c) = fl_print F c"

definition malformed_Error :: "fmtlib \<Rightarrow> gany capability \<Rightarrow> failure \<Rightarrow> string" where
  "malformed_Error F c cause =
     lines [''Encountered malformed '' @ squote @ cp_Can c @ squote @ '' capability: '' @ fl_json F c,
            li (fail_msg cause)]"

definition escalated_Error :: "failure \<Rightarrow> string" where
  "escalated_Error cause = ''Constraint violation: '' @ fail_msg cause"

fun sub_error_Error :: "fmtlib \<Rightarrow> delegation_sub_error \<Rightarrow> string" where
  "sub_error_Error F (SubMalformed c cause) = malformed_Error F c cause"
| "sub_error_Error F (SubEscalated claimed delegated cause) = escalated_Error cause"

fun delegation_error_Error :: "fmtlib \<Rightarrow> delegation_error \<Rightarrow> string comp" where
  "delegation_error_Error F (DelegationError causes ctx) =
     cmap (\<lambda>t. lines [''Cannot derive '' @ context_text F ctx @ '' from delegated capabilities:'', li t])
          (errors_Join_Error (map (sub_error_Error F) causes))"

definition unknown_lines :: "fmtlib \<Rightarrow> gany capability list \<Rightarrow> string list" where
  "unknown_lines F unknowns =
     (if length unknowns > 0
      then [li (lines [''Encountered unknown capabilities'', lines (map (\<lambda>c. li (fl_json F c)) unknowns)])]
      else [])"

definition cap_String :: "descriptor \<Rightarrow> string" where
  "cap_String d = ''{can:'' @ dquote @ ds_can d @ dquote @ ''}''"

text \<open>
  The second line of an invalid signature of a principal that is not a did:key, after its
  (UTF-8 encoded) information sign.
\<close>

definition rotated_line :: string where
  "rotated_line = ''  '' @ [CHR 0xE2, CHR 0x84, CHR 0xB9, CHR 0xEF, CHR 0xB8, CHR 0x8F] @
     '' Issuer probably signed with a different key, which got rotated, invalidating delegations that were issued with prior keys''"

text \<open>
  A DID under the \<open>%s\<close> verb: \<open>fmt\<close> calls its \<open>String\<close> method and, when that panics, recovers and
  prints the panic in place of the value.
\<close>

definition fmt_did :: "extlib \<Rightarrow> did \<Rightarrow> string" where
  "fmt_did L d =
     (case did_String L d of
        Ret s \<Rightarrow> s
      | Panic e \<Rightarrow> ''%!s(PANIC=String method: '' @ e @ '')''
      | Fuel \<Rightarrow> [])"

lemma fmt_did_Ret [simp]: "did_String L d = Ret s \<Longrightarrow> fmt_did L d = s"
  by (simp add: fmt_did_def)

text \<open>The errors of proofs; a cause that is an error of validation itself comes rendered.\<close>

definition SessionEscalation_Error :: "extlib \<Rightarrow> delegation \<Rightarrow> string comp \<Rightarrow> string comp" where
  "SessionEscalation_Error L d cause =
     (let issuer = dlg_Issuer L d
      in cmap (\<lambda>t. lines [''Delegation '' @ dlg_Link d @ '' issued by '' @ fmt_did L issuer @ '' has an invalid session'', li t]) cause)"

definition UnverifiableSignature_Error :: "extlib \<Rightarrow> delegation \<Rightarrow> err option \<Rightarrow> string comp" where
  "UnverifiableSignature_Error L d cause =
     (let issuer = dlg_Issuer L d
      in case cause of
           None \<Rightarrow> Panic ''nil pointer dereference''
         | Some t \<Rightarrow> Ret (lines [''Proof '' @ dlg_Link d @ '' issued by '' @ fmt_did L issuer @ '' cannot be verified:'', li t]))"

definition InvalidSignature_Error :: "extlib \<Rightarrow> delegation \<Rightarrow> did \<Rightarrow> string comp" where
  "InvalidSignature_Error L d vrf =
     (let issuer = dlg_Issuer L d; key = fmt_did L vrf
      in cmap (\<lambda>s. if HasPrefix s ''did:key''
                    then ''Proof '' @ dlg_Link d @ '' does not have a valid signature from '' @ key
                    else lines [''Proof '' @ dlg_Link d @ '' issued by '' @ fmt_did L issuer @ '' does not have a valid signature from '' @ key,
                                rotated_line])
              (did_String L issuer))"

definition UnavailableProof_Error :: "link \<Rightarrow> err option \<Rightarrow> string" where
  "UnavailableProof_Error l cause =
     lines ([''Linked proof '' @ dquote @ l @ dquote @ '' is not included and could not be resolved''] @
            (case cause of None \<Rightarrow> [] | Some t \<Rightarrow> [li (''Proof resolution failed with: '' @ t)]))"

definition DIDKeyResolution_Error :: "extlib \<Rightarrow> did \<Rightarrow> string" where
  "DIDKeyResolution_Error L d = ''Unable to resolve '' @ squote @ fmt_did L d @ squote @ '' key''"

definition PrincipalAlignment_Error :: "extlib \<Rightarrow> did \<Rightarrow> delegation \<Rightarrow> string" where
  "PrincipalAlignment_Error L audience d =
     ''Delegation audience is '' @ squote @ fmt_did L (dlg_Audience L d) @ squote @ '' instead of '' @ squote @
     fmt_did L audience @ squote"

definition Expired_Error :: "fmtlib \<Rightarrow> delegation \<Rightarrow> string comp" where
  "Expired_Error F d =
     (case dlg_Expiration d of
        None \<Rightarrow> Panic ''nil pointer dereference''
      | Some e \<Rightarrow> Ret (''Proof '' @ dlg_Link d @ '' has expired on '' @ fl_time F e))"

definition NotValidBefore_Error :: "fmtlib \<Rightarrow> delegation \<Rightarrow> string" where
  "NotValidBefore_Error F d = ''Proof '' @ dlg_Link d @ '' is not valid before '' @ fl_time F (dlg_NotBefore d)"

definition Revoked_Error :: "delegation \<Rightarrow> string" where
  "Revoked_Error d = ''Proof '' @ dlg_Link d @ '' has been revoked''"

text \<open>The two errors of time bounds as nodes; the stack is the one they were made with.\<close>

record expired_model =
  em_Name :: "string option"
  em_Message :: string
  em_ExpiredAt :: int
  em_Stack :: "string option"

record not_valid_before_model =
  nm_Name :: "string option"
  nm_Message :: string
  nm_ValidAt :: int
  nm_Stack :: "string option"

definition Expired_ToIPLD :: "fmtlib \<Rightarrow> (expired_model \<Rightarrow> err + node) \<Rightarrow> string \<Rightarrow> delegation \<Rightarrow> (err + node) comp" where
  "Expired_ToIPLD F wrap stack d =
     (case dlg_Expiration d of
        None \<Rightarrow> Panic ''nil pointer dereference''
      | Some e \<Rightarrow>
          cmap (\<lambda>m. wrap \<lparr> em_Name = Some ''Expired'', em_Message = m, em_ExpiredAt = e, em_Stack = Some stack \<rparr>)
               (Expired_Error F d))"

definition NotValidBefore_ToIPLD :: "fmtlib \<Rightarrow> (not_valid_before_model \<Rightarrow> err + node) \<Rightarrow> string \<Rightarrow> delegation \<Rightarrow> err + node" where
  "NotValidBefore_ToIPLD F wrap stack d =
     wrap \<lparr> nm_Name = Some ''NotValidBefore'', nm_Message = NotValidBefore_Error F d, nm_ValidAt = dlg_NotBefore d,
            nm_Stack = Some stack \<rparr>"

fun invalid_proof_Error :: "extlib \<Rightarrow> fmtlib \<Rightarrow> invalid_proof \<Rightarrow> string comp"
and unauthorized_Error :: "extlib \<Rightarrow> fmtlib \<Rightarrow> unauthorized \<Rightarrow> string comp"
and invalid_claim_Error :: "extlib \<Rightarrow> fmtlib \<Rightarrow> invalid_claim \<Rightarrow> string comp"
and proof_error_Error :: "extlib \<Rightarrow> fmtlib \<Rightarrow> proof_error \<Rightarrow> string comp"
and proof_cause_Error :: "extlib \<Rightarrow> fmtlib \<Rightarrow> proof_cause \<Rightarrow> string comp" where
  "invalid_proof_Error L F (SessionEscalation d cause) = SessionEscalation_Error L d (unauthorized_Error L F cause)"
| "invalid_proof_Error L F (UnverifiableSignature d cause) = UnverifiableSignature_Error L d cause"
| "invalid_proof_Error L F (InvalidSignature d vrf) = InvalidSignature_Error L d vrf"
| "invalid_proof_Error L F (UnavailableProof l cause) = Ret (UnavailableProof_Error l cause)"
| "invalid_proof_Error L F (DIDKeyResolution d cause) = Ret (DIDKeyResolution_Error L d)"
| "invalid_proof_Error L F (Expired d) = Expired_Error F d"
| "invalid_proof_Error L F (NotValidBefore d) = Ret (NotValidBefore_Error F d)"
| "invalid_proof_Error L F (Revoked d) = Ret (Revoked_Error d)"
| "unauthorized_Error L F (Unauthorized c dlgerrs unknowns invalidprf failedprf) =
     cbind (cmapM (\<lambda>e. cmap li (invalid_claim_Error L F e)) failedprf) (\<lambda>a.
     cbind (cmapM (\<lambda>e. cmap li (delegation_error_Error F e)) dlgerrs) (\<lambda>b.
     cbind (cmapM (\<lambda>e. cmap li (invalid_proof_Error L F e)) invalidprf) (\<lambda>d.
       let errorStrings = a @ b @ d
       in Ret (lines ([''Claim '' @ cap_String c @ '' is not authorized''] @
                 (if length errorStrings > 0 then errorStrings
                  else [li ''No matching delegated capability found'']) @
                 unknown_lines F unknowns)))))"
| "invalid_claim_Error L F (InvalidClaim m dlgerrs unknowns invalidprf failedprf) =
     cbind (cmapM (\<lambda>e. cmap li (invalid_claim_Error L F e)) failedprf) (\<lambda>a.
     cbind (cmapM (\<lambda>e. cmap li (delegation_error_Error F e)) dlgerrs) (\<lambda>b.
     cbind (cmapM (\<lambda>e. cmap li (proof_error_Error L F e)) invalidprf) (\<lambda>d.
     cbind (ice_Issuer L (InvalidClaim m dlgerrs unknowns invalidprf failedprf)) (\<lambda>issuer.
       let errorStrings = a @ b @ d
       in Ret (lines ([''Capability '' @ match_String F m @ '' is not authorized because:'',
                       li (''Capability can not be (self) issued by '' @ squote @ fmt_did L issuer @ squote)] @
                 (if length errorStrings > 0 then errorStrings
                  else [li ''Delegated capability not found'']) @
                 unknown_lines F unknowns))))))"
| "proof_error_Error L F (ProofError l cause) =
     cmap (\<lambda>t. lines [''Capability can not be derived from prf: '' @ l @ '' because:'', li t])
          (proof_cause_Error L F cause)"
| "proof_cause_Error L F (CauseBlocks e) = Ret e"
| "proof_cause_Error L F (CauseAlignment audience d) = Ret (PrincipalAlignment_Error L audience d)"
| "proof_cause_Error L F (CauseInvalid e) = invalid_proof_Error L F e"

section \<open>When rendering panics\<close>

text \<open>
  An error renders when the issuer of every invalid signature prints, every unverifiable signature
  has a cause, every expired proof an expiration, every delegation error a cause, and every match of
  a claim a source. A DID that only goes through the \<open>%s\<close> verb never stands in the way.
\<close>

definition renders_delegation_error :: "delegation_error \<Rightarrow> bool" where
  "renders_delegation_error e \<longleftrightarrow> (case e of DelegationError causes _ \<Rightarrow> causes \<noteq> [])"

fun renders_proof :: "extlib \<Rightarrow> invalid_proof \<Rightarrow> bool"
and renders_unauthorized :: "extlib \<Rightarrow> unauthorized \<Rightarrow> bool"
and renders_claim :: "extlib \<Rightarrow> invalid_claim \<Rightarrow> bool"
and renders_proof_error :: "extlib \<Rightarrow> proof_error \<Rightarrow> bool"
and renders_cause :: "extlib \<Rightarrow> proof_cause \<Rightarrow> bool" where
  "renders_proof L (SessionEscalation d u) \<longleftrightarrow> renders_unauthorized L u"
| "renders_proof L (UnverifiableSignature d c) \<longleftrightarrow> c \<noteq> None"
| "renders_proof L (InvalidSignature d v) \<longleftrightarrow> returns (did_String L (dlg_Issuer L d))"
| "renders_proof L (UnavailableProof l c) \<longleftrightarrow> True"
| "renders_proof L (DIDKeyResolution d c) \<longleftrightarrow> True"
| "renders_proof L (Expired d) \<longleftrightarrow> dlg_Expiration d \<noteq> None"
| "renders_proof L (NotValidBefore d) \<longleftrightarrow> True"
| "renders_proof L (Revoked d) \<longleftrightarrow> True"
| "renders_unauthorized L (Unauthorized c ds us ps cs) \<longleftrightarrow>
     list_all (renders_claim L) cs \<and> list_all renders_delegation_error ds \<and> list_all (renders_proof L) ps"
| "renders_claim L (InvalidClaim m ds us ps cs) \<longleftrightarrow>
     list_all (renders_claim L) cs \<and> list_all renders_delegation_error ds \<and>
     list_all (renders_proof_error L) ps \<and>
     returns (mt_source m)"
| "renders_proof_error L (ProofError l c) \<longleftrightarrow> renders_cause L c"
| "renders_cause L (CauseBlocks e) \<longleftrightarrow> True"
| "renders_cause L (CauseAlignment a d) \<longleftrightarrow> True"
| "renders_cause L (CauseInvalid e) \<longleftrightarrow> renders_proof L e"

lemma delegation_error_returns:
  "returns (delegation_error_Error F e) \<longleftrightarrow> renders_delegation_error e"
  by (cases e) (simp add: renders_delegation_error_def errors_Join_Error_def)

lemmas proof_texts = SessionEscalation_Error_def UnverifiableSignature_Error_def InvalidSignature_Error_def
  Expired_Error_def

lemma rendering_iff:
  "returns (invalid_proof_Error L F p) \<longleftrightarrow> renders_proof L p"
  "returns (unauthorized_Error L F u) \<longleftrightarrow> renders_unauthorized L u"
  "returns (invalid_claim_Error L F c) \<longleftrightarrow> renders_claim L c"
  "returns (proof_error_Error L F e) \<longleftrightarrow> renders_proof_error L e"
  "returns (proof_cause_Error L F k) \<longleftrightarrow> renders_cause L k"
proof (induction p and u and c and e and k
    rule: invalid_proof.induct unauthorized.induct invalid_claim.induct proof_error.induct proof_cause.induct)
  case (Unauthorized c dlgerrs unknowns invalidprf failedprf)
  then show ?case
    by (auto simp: returns_iff [of "cmapM f xs" for f xs, symmetric] returns_cmapM list_all_iff
        delegation_error_returns Let_def)
next
  case (InvalidClaim m dlgerrs unknowns invalidprf failedprf)
  then show ?case
    by (auto simp: returns_iff [of "cmapM f xs" for f xs, symmetric] returns_cmapM list_all_iff
        delegation_error_returns Let_def ice_Issuer_def returns_iff [of "mt_source m" for m])
qed (auto simp: proof_texts Let_def returns_iff [of "did_String L d" for L d] split: option.splits)


text \<open>
  C38. When an error can be shown. Rendering an unauthorized error returns a text exactly if the
  issuer of every invalid signature in it prints, every unverifiable signature has a cause, every
  expired proof an expiration, every delegation error a cause and every match a source; otherwise
  it panics. Undefined DIDs elsewhere in it are printed by \<open>fmt\<close> as the panic of their \<open>String\<close> method.
\<close>

theorem rendering_returns:
  "returns (unauthorized_Error L F u) \<longleftrightarrow> renders_unauthorized L u"
  by (rule rendering_iff(2))

end
