(* ===== verification/Validator.thy ===== *)
theory Validator
  imports Verror
begin

text \<open>
  validator/lib.go and validator/authorization.go: the claim context, authorizations, and the
  search for a proof chain. The functions of the search call each other through \<open>Claim\<close> and
  \<open>Authorize\<close>; each is a definition with the functions it calls back as arguments, and the two
  are tied together by fuel. The goroutines of \<open>ResolveMatch\<close> finish in the order \<open>ve_order\<close> gives.
\<close>

section \<open>Authorizations\<close>

datatype authorization =
  Authorization (au_match: vmatch) (au_proofs: "authorization list")
    (au_attestations: "authorization list")

definition NewAuthorization ::
    "vmatch \<Rightarrow> authorization list \<Rightarrow> authorization list \<Rightarrow> authorization" where
  "NewAuthorization m proofs attestations = Authorization m proofs attestations"

definition auth_Delegation :: "authorization \<Rightarrow> delegation comp" where
  "auth_Delegation a = cmap src_delegation (mt_source (au_match a))"

definition auth_Audience :: "extlib \<Rightarrow> authorization \<Rightarrow> did comp" where
  "auth_Audience L a = cmap (dlg_Audience L) (auth_Delegation a)"

definition auth_Issuer :: "extlib \<Rightarrow> authorization \<Rightarrow> did comp" where
  "auth_Issuer L a = cmap (dlg_Issuer L) (auth_Delegation a)"

definition auth_Capability :: "authorization \<Rightarrow> gany capability" where
  "auth_Capability a = mt_value (au_match a)"

text \<open>
  \<open>unknownauth\<close> presents the capability with its caveats as \<open>any\<close> and converts the proofs; with
  caveats of any type being \<^typ>\<open>gany\<close> values it is the same authorization.
\<close>

definition unknown_Capability :: "authorization \<Rightarrow> gany capability" where
  "unknown_Capability a =
     (let cap = auth_Capability a in Ucan.NewCapability (cp_Can cap) (cp_With cap) (cp_Nb cap))"

definition ConvertUnknownAuthorization :: "authorization \<Rightarrow> authorization" where
  "ConvertUnknownAuthorization auth = auth"

section \<open>The claim context\<close>

record claim_context =
  cc_authority :: verifier
  cc_canIssue :: can_issue
  cc_validateAuthorization :: "authorization \<Rightarrow> delegation option comp"
    \<comment> \<open>the delegation of the \<open>Revoked\<close> error, if it returns one\<close>
  cc_resolveProof :: "link \<Rightarrow> (link \<times> err option) + delegation"
    \<comment> \<open>the delegation, or the link and cause of an \<open>UnavailableProof\<close>\<close>
  cc_parsePrincipal :: "string \<Rightarrow> err + verifier"
  cc_resolveDIDKey :: "did \<Rightarrow> (did \<times> err) + did"
    \<comment> \<open>the key's DID, or the DID and cause of an \<open>UnresolvedDID\<close>\<close>
  cc_validateTimeBounds :: "delegation \<Rightarrow> invalid_proof option"
  cc_authorityProofs :: "delegation list"

record venv =
  ve_L :: extlib
  ve_U :: ucanlib
  ve_order :: "vsource list \<Rightarrow> vsource list"
    \<comment> \<open>the order in which the goroutines of \<open>ResolveMatch\<close> append their results\<close>

definition NewClaimContext ::
    "verifier \<Rightarrow> can_issue \<Rightarrow> (authorization \<Rightarrow> delegation option comp) \<Rightarrow>
     (link \<Rightarrow> (link \<times> err option) + delegation) \<Rightarrow> (string \<Rightarrow> err + verifier) \<Rightarrow>
     (did \<Rightarrow> (did \<times> err) + did) \<Rightarrow> (delegation \<Rightarrow> invalid_proof option) \<Rightarrow> delegation list \<Rightarrow>
     claim_context" where
  "NewClaimContext authority canIssue validateAuthorization resolveProof parsePrincipal
      resolveDIDKey validateTimeBounds authorityProofs =
     \<lparr> cc_authority = authority, cc_canIssue = canIssue,
       cc_validateAuthorization = validateAuthorization, cc_resolveProof = resolveProof,
       cc_parsePrincipal = parsePrincipal, cc_resolveDIDKey = resolveDIDKey,
       cc_validateTimeBounds = validateTimeBounds, cc_authorityProofs = authorityProofs \<rparr>"

definition IsSelfIssued :: "extlib \<Rightarrow> can_issue" where
  "IsSelfIssued L capability issuer = cmap (\<lambda>s. cp_With capability = s) (did_String L issuer)"

definition ProofUnavailable :: "link \<Rightarrow> (link \<times> err option) + delegation" where
  "ProofUnavailable p = Inl (p, Some ''no proof resolver configured'')"

definition FailDIDKeyResolution :: "did \<Rightarrow> (did \<times> err) + did" where
  "FailDIDKeyResolution d = Inl (d, ''no DID resolver configured'')"

definition NotExpiredNotTooEarly :: "int \<Rightarrow> delegation \<Rightarrow> invalid_proof option" where
  "NotExpiredNotTooEarly now dlg =
     (if IsExpired now (dl_ucan dlg) then Some (NewExpiredError dlg)
      else if IsTooEarly now (dl_ucan dlg) then Some (NewNotValidBeforeError dlg)
      else None)"

text \<open>\<open>canissuer\<close> hands the capability on with its caveats as \<open>any\<close>.\<close>

definition canissuer_CanIssue :: "claim_context \<Rightarrow> can_issue" where
  "canissuer_CanIssue C c d =
     cc_canIssue C (Ucan.NewCapability (cp_Can c) (cp_With c) (cp_Nb c)) d"

section \<open>Resolving proofs\<close>

fun ResolveProofs ::
    "(link \<Rightarrow> (link \<times> err option) + delegation) \<Rightarrow> dproof list \<Rightarrow>
     delegation list \<times> (link \<times> err option) list" where
  "ResolveProofs resolve [] = ([], [])"
| "ResolveProofs resolve (p # ps) =
     (let (dels, errs) = ResolveProofs resolve ps
      in case proof_Delegation p of
           Some d \<Rightarrow> (d # dels, errs)
         | None \<Rightarrow>
             (case resolve (proof_Link p) of
                Inl e \<Rightarrow> (dels, e # errs)
              | Inr d \<Rightarrow> (d # dels, errs)))"

section \<open>Signatures and sessions\<close>

definition v_VerifySignature ::
    "venv \<Rightarrow> delegation \<Rightarrow> verifier \<Rightarrow> (invalid_proof + delegation) comp" where
  "v_VerifySignature E dlg vfr =
     cmap (\<lambda>r. case r of
                 Inl e \<Rightarrow> Inl (NewUnverifiableSignatureError dlg (Some e))
               | Inr ok \<Rightarrow> if \<not> ok then Inl (NewInvalidSignatureError dlg vfr) else Inr dlg)
          (ucan_VerifySignature (ve_L E) (ve_U E) (dl_ucan dlg) vfr)"

type_synonym claim_fun = "descriptor \<Rightarrow> dproof list \<Rightarrow> (unauthorized + authorization) comp"
type_synonym authorize_fun = "vmatch \<Rightarrow> (invalid_claim + authorization) comp"

text \<open>
  The audiences of the authority's own \<open>ucan/attest\<close> delegations. \<open>Capabilities()[0]\<close> panics on
  a delegation without capabilities.
\<close>

fun session_audiences :: "venv \<Rightarrow> claim_context \<Rightarrow> delegation list \<Rightarrow> string list comp" where
  "session_audiences E C [] = Ret []"
| "session_audiences E C (p # ps) =
     cbind (first_of (dlg_Capabilities p)) (\<lambda>cap.
     cbind (if cp_Can cap = ''ucan/attest''
            then cmap (\<lambda>s. cp_With cap = s) (did_String (ve_L E) (vf_DID (cc_authority C)))
            else Ret False) (\<lambda>ok.
     cbind (if ok then cmap (\<lambda>s. [s]) (did_String (ve_L E) (dlg_Audience (ve_L E) p)) else Ret []) (\<lambda>a.
     cmap (\<lambda>as. a @ as) (session_audiences E C ps))))"

text \<open>The proof link of an attestation's caveats.\<close>

definition attested_proof :: "gany \<Rightarrow> link" where
  "attested_proof nb = (case nb of GAttestation l \<Rightarrow> l | _ \<Rightarrow> [])"

definition attestation_derives :: derives where
  "attestation_derives claimed delegated =
     (case DefaultDerives claimed delegated of
        Some err \<Rightarrow> Some err
      | None \<Rightarrow>
          if attested_proof (cp_Nb claimed) \<noteq> attested_proof (cp_Nb delegated)
          then Some (NewSchemaError (''proof: '' @ attested_proof (cp_Nb claimed) @ '' violates '' @
                       attested_proof (cp_Nb delegated)))
          else None)"

definition attestation_reader :: "extlib \<Rightarrow> link \<Rightarrow> (gany, gany) reader" where
  "attestation_reader L l =
     schema_Struct L (\<lambda>n. case rebind_attestation L n of Inl e \<Rightarrow> Inl e | Inr p \<Rightarrow> Inr (GAttestation p))
       (Some (policy_proof_equal L l))"

definition session_capability :: "venv \<Rightarrow> claim_context \<Rightarrow> delegation \<Rightarrow> descriptor comp" where
  "session_capability E C dlg =
     cbind (session_audiences E C (cc_authorityProofs C)) (\<lambda>auds.
     cmap (\<lambda>auth. NewCapabilityParser ''ucan/attest'' (literal_union (auds @ [auth]))
                     (attestation_reader (ve_L E) (dlg_Link dlg)) (Some attestation_derives))
          (did_String (ve_L E) (vf_DID (cc_authority C))))"

fun session_proofs :: "delegation \<Rightarrow> delegation list \<Rightarrow> delegation list comp" where
  "session_proofs dlg [] = Ret []"
| "session_proofs dlg (p # ps) =
     (if dlg_Link p = dlg_Link dlg then session_proofs dlg ps
      else cbind (first_of (dlg_Capabilities p)) (\<lambda>cap.
           cmap (\<lambda>rest. if cp_Can cap = ''ucan/attest'' then p # rest else rest)
                (session_proofs dlg ps)))"

definition VerifySession ::
    "claim_fun \<Rightarrow> venv \<Rightarrow> claim_context \<Rightarrow> delegation \<Rightarrow> delegation list \<Rightarrow>
     (unauthorized + authorization) comp" where
  "VerifySession claim E C dlg prfs =
     cbind (session_capability E C dlg) (\<lambda>attestation.
     cbind (session_proofs dlg prfs) (\<lambda>aprfs.
       claim attestation (map PDelegation aprfs)))"

text \<open>
  When wrapping the resolved key fails, the error handed to \<open>NewUnverifiableSignatureError\<close> is the
  nil one of the parse before it.
\<close>

definition VerifyAuthorization ::
    "claim_fun \<Rightarrow> venv \<Rightarrow> claim_context \<Rightarrow> delegation \<Rightarrow> delegation list \<Rightarrow>
     (invalid_proof + (delegation \<times> authorization option)) comp" where
  "VerifyAuthorization claim E C dlg prfs =
     (let L = ve_L E;
          issuer = dlg_Issuer L dlg;
          unattested = (\<lambda>r. case r of Inl e \<Rightarrow> Inl e | Inr d \<Rightarrow> Inr (d, None))
      in cbind (did_String L issuer) (\<lambda>s.
         if HasPrefix s ''did:key:'' then
           (case cc_parsePrincipal C s of
              Inl e \<Rightarrow> Ret (Inl (NewUnverifiableSignatureError dlg (Some e)))
            | Inr vfr \<Rightarrow> cmap unattested (v_VerifySignature E dlg vfr))
         else if issuer = vf_DID (cc_authority C) then
           cmap unattested (v_VerifySignature E dlg (cc_authority C))
         else cbind (VerifySession claim E C dlg prfs) (\<lambda>r.
           case r of
             Inr attest \<Rightarrow> Ret (Inr (dlg, Some (ConvertUnknownAuthorization attest)))
           | Inl err \<Rightarrow>
               if length (ue_FailedProofs err) > 0 then Ret (Inl (NewSessionEscalationError dlg err))
               else (case cc_resolveDIDKey C issuer of
                       Inl (d, e) \<Rightarrow> Ret (Inl (NewDIDKeyResolutionError d e))
                     | Inr key \<Rightarrow>
                         cbind (did_String L key) (\<lambda>ks.
                           case cc_parsePrincipal C ks of
                             Inl perr \<Rightarrow> Ret (Inl (NewUnverifiableSignatureError dlg (Some perr)))
                           | Inr vfr \<Rightarrow>
                               cbind (wrap_verifier L vfr issuer) (\<lambda>w.
                                 case w of
                                   Inl werr \<Rightarrow> Ret (Inl (NewUnverifiableSignatureError dlg None))
                                 | Inr wvfr \<Rightarrow> cmap unattested (v_VerifySignature E dlg wvfr)))))))"

definition Validate ::
    "claim_fun \<Rightarrow> venv \<Rightarrow> claim_context \<Rightarrow> delegation \<Rightarrow> delegation list \<Rightarrow>
     (invalid_proof + (delegation \<times> authorization option)) comp" where
  "Validate claim E C dlg prfs =
     (case cc_validateTimeBounds C dlg of
        Some invalid \<Rightarrow> Ret (Inl invalid)
      | None \<Rightarrow> VerifyAuthorization claim E C dlg prfs)"

text \<open>
  The validation loop that \<open>Claim\<close> and \<open>ResolveSources\<close> share: the proofs that are valid, each with
  the delegation and the attestation its validation returned, and the ones that are not.
\<close>

fun validate_loop ::
    "(delegation \<Rightarrow> (invalid_proof + (delegation \<times> authorization option)) comp) \<Rightarrow> delegation list \<Rightarrow>
     ((delegation \<times> delegation \<times> authorization option) list \<times> (delegation \<times> invalid_proof) list) comp" where
  "validate_loop validate [] = Ret ([], [])"
| "validate_loop validate (prf # prfs) =
     cbind (validate prf) (\<lambda>r.
     cmap (\<lambda>(oks, bads). case r of
                           Inl err \<Rightarrow> (oks, (prf, err) # bads)
                         | Inr (validation, attest) \<Rightarrow> ((prf, validation, attest) # oks, bads))
          (validate_loop validate prfs))"

definition attestations_of ::
    "(delegation \<times> delegation \<times> authorization option) list \<Rightarrow> authorization list" where
  "attestations_of oks = List.map_filter (\<lambda>(prf, validation, attest). attest) oks"

section \<open>Authorizing a match by its proofs\<close>

definition attestationsFor :: "link \<Rightarrow> authorization list \<Rightarrow> authorization list" where
  "attestationsFor l attestations =
     filter (\<lambda>a. case cp_Nb (unknown_Capability a) of GAttestation p \<Rightarrow> p = l | _ \<Rightarrow> False) attestations"

type_synonym resolved = "vsource list \<times> authorization list \<times> proof_error list"

definition ResolveSources ::
    "claim_fun \<Rightarrow> venv \<Rightarrow> claim_context \<Rightarrow> vsource \<Rightarrow> resolved comp" where
  "ResolveSources claim E C source =
     (let L = ve_L E; dlg = src_delegation source
      in case NewBlockReader [] (dlg_Blocks dlg) of
           Inl err \<Rightarrow> Ret ([], [], [NewProofError (dlg_Link dlg) (CauseBlocks err)])
         | Inr br \<Rightarrow>
             (let (dlgs, failedprf) =
                    ResolveProofs (cc_resolveProof C) (NewProofsView L (ve_U E) (dlg_Proofs dlg) br);
                  aligned = (\<lambda>prf. dlg_Issuer L dlg = dlg_Audience L prf);
                  prfs = filter aligned dlgs;
                  unresolved = map (\<lambda>(l, e). NewProofError l (CauseInvalid (NewUnavailableProofError l e))) failedprf;
                  misaligned = map (\<lambda>prf. NewProofError (dlg_Link prf)
                                       (NewPrincipalAlignmentError (dlg_Issuer L dlg) prf))
                                 (filter (\<lambda>prf. \<not> aligned prf) dlgs)
              in cmap (\<lambda>(oks, bads).
                   (concat (map (\<lambda>(prf, v, a). map (\<lambda>c. NewSource c prf) (dlg_Capabilities prf)) oks),
                    attestations_of oks,
                    unresolved @ misaligned @
                      map (\<lambda>(prf, err). NewProofError (dlg_Link prf) (CauseInvalid err)) bads))
                 (validate_loop (\<lambda>prf. Validate claim E C prf prfs) prfs)))"

fun distinct_sources :: "link set \<Rightarrow> vsource list \<Rightarrow> vsource list" where
  "distinct_sources includes [] = []"
| "distinct_sources includes (s # ss) =
     (let ident = dlg_Link (src_delegation s)
      in if ident \<in> includes then distinct_sources includes ss
         else s # distinct_sources (insert ident includes) ss)"

definition ResolveMatch ::
    "claim_fun \<Rightarrow> venv \<Rightarrow> claim_context \<Rightarrow> vmatch \<Rightarrow> resolved comp" where
  "ResolveMatch claim E C m =
     cmap (\<lambda>rs. (concat (map fst rs), concat (map (fst \<circ> snd) rs), concat (map (snd \<circ> snd) rs)))
          (cmapM (ResolveSources claim E C) (ve_order E (distinct_sources {} (mt_sources m))))"

fun authorize_loop ::
    "authorize_fun \<Rightarrow> venv \<Rightarrow> claim_context \<Rightarrow> authorization list \<Rightarrow> vmatch list \<Rightarrow>
     (invalid_claim list + authorization) comp" where
  "authorize_loop authorize E C attestations [] = Ret (Inl [])"
| "authorize_loop authorize E C attestations (matched # rest) =
     cbind (mt_source matched) (\<lambda>s.
       let relevant = attestationsFor (dlg_Link (src_delegation s)) attestations
       in cbind (match_Prune (ve_L E) (canissuer_CanIssue C) matched) (\<lambda>selector.
            case selector of
              None \<Rightarrow> Ret (Inr (NewAuthorization matched [] relevant))
            | Some sel \<Rightarrow>
                cbind (authorize sel) (\<lambda>r. case r of
                  Inr auth \<Rightarrow> Ret (Inr (NewAuthorization matched [auth] relevant))
                | Inl err \<Rightarrow>
                    cmap (\<lambda>r'. case r' of Inl errs \<Rightarrow> Inl (err # errs) | Inr auth \<Rightarrow> Inr auth)
                         (authorize_loop authorize E C attestations rest))))"

definition Authorize_body ::
    "claim_fun \<Rightarrow> authorize_fun \<Rightarrow> venv \<Rightarrow> claim_context \<Rightarrow> vmatch \<Rightarrow> (invalid_claim + authorization) comp" where
  "Authorize_body claim authorize E C m =
     cbind (ResolveMatch claim E C m) (\<lambda>(sources, attestations, invalidprf).
     cbind (match_Select m sources) (\<lambda>(matches, dlgerrs, unknowns).
     cmap (\<lambda>r. case r of
                 Inr auth \<Rightarrow> Inr auth
               | Inl failedprf \<Rightarrow> Inl (NewInvalidClaimError m dlgerrs unknowns invalidprf failedprf))
          (authorize_loop authorize E C attestations matches)))"

section \<open>Claiming a capability from proofs\<close>

fun claim_loop ::
    "authorize_fun \<Rightarrow> venv \<Rightarrow> claim_context \<Rightarrow> authorization list \<Rightarrow> vmatch list \<Rightarrow>
     ((invalid_proof list \<times> invalid_claim list) + authorization) comp" where
  "claim_loop authorize E C attestations [] = Ret (Inl ([], []))"
| "claim_loop authorize E C attestations (matched # rest) =
     cbind (match_Prune (ve_L E) (canissuer_CanIssue C) matched) (\<lambda>selector.
     cbind (case selector of
              None \<Rightarrow> Ret (Inr (NewAuthorization matched [] attestations))
            | Some sel \<Rightarrow>
                cmap (\<lambda>r. case r of
                            Inl err \<Rightarrow> Inl err
                          | Inr a \<Rightarrow> Inr (NewAuthorization matched [a] attestations))
                     (authorize matched)) (\<lambda>r.
       case r of
         Inl err \<Rightarrow>
           cmap (\<lambda>r'. case r' of Inl (is, fs) \<Rightarrow> Inl (is, err # fs) | Inr auth \<Rightarrow> Inr auth)
                (claim_loop authorize E C attestations rest)
       | Inr auth \<Rightarrow>
           cbind (cc_validateAuthorization C (ConvertUnknownAuthorization auth)) (\<lambda>revoked.
             case revoked of
               None \<Rightarrow> Ret (Inr auth)
             | Some d \<Rightarrow>
                 cmap (\<lambda>r'. case r' of Inl (is, fs) \<Rightarrow> Inl (NewRevokedError d # is, fs) | Inr auth \<Rightarrow> Inr auth)
                      (claim_loop authorize E C attestations rest))))"

definition Claim_body ::
    "claim_fun \<Rightarrow> authorize_fun \<Rightarrow> venv \<Rightarrow> claim_context \<Rightarrow> descriptor \<Rightarrow> dproof list \<Rightarrow>
     (unauthorized + authorization) comp" where
  "Claim_body claim authorize E C capability proofs =
     (let (delegations, rerrs) = ResolveProofs (cc_resolveProof C) proofs
      in cbind (validate_loop (\<lambda>prf. Validate claim E C prf delegations) delegations) (\<lambda>(oks, bads).
           let sources = concat (map (\<lambda>(prf, validation, a).
                                   map (\<lambda>c. NewSource c prf) (dlg_Capabilities validation)) oks);
               invalidprf = map (\<lambda>(l, e). NewUnavailableProofError l e) rerrs @ map snd bads
           in cbind (cap_Select capability sources) (\<lambda>(matches, dlgerrs, unknowns).
              cmap (\<lambda>r. case r of
                          Inr auth \<Rightarrow> Inr auth
                        | Inl (revoked, failedprf) \<Rightarrow>
                            Inl (NewUnauthorizedError capability dlgerrs unknowns
                                   (invalidprf @ revoked) failedprf))
                   (claim_loop authorize E C (attestations_of oks) matches))))"

text \<open>The knot: one unit of fuel for every nested claim or authorization.\<close>

fun Claim :: "nat \<Rightarrow> venv \<Rightarrow> claim_context \<Rightarrow> descriptor \<Rightarrow> dproof list \<Rightarrow> (unauthorized + authorization) comp"
and Authorize :: "nat \<Rightarrow> venv \<Rightarrow> claim_context \<Rightarrow> vmatch \<Rightarrow> (invalid_claim + authorization) comp" where
  "Claim 0 E C capability proofs = Fuel"
| "Claim (Suc n) E C capability proofs = Claim_body (Claim n E C) (Authorize n E C) E C capability proofs"
| "Authorize 0 E C m = Fuel"
| "Authorize (Suc n) E C m = Authorize_body (Claim n E C) (Authorize n E C) E C m"

definition Access ::
    "nat \<Rightarrow> venv \<Rightarrow> claim_context \<Rightarrow> descriptor \<Rightarrow> delegation \<Rightarrow> (unauthorized + authorization) comp" where
  "Access n E C capability invocation = Claim n E C capability [PDelegation invocation]"

end
