(* ===== verification/Soundness.thy ===== *)
theory Soundness
  imports Validator "HOL-Library.Multiset"
begin

text \<open>
  What a successful search promises. \<open>verified\<close>, \<open>claimed\<close> and \<open>rooted\<close> are an abstract
  specification of authority, with no search, no fuel and no order in it: a delegation is
  verified by its issuer's key, by the authority's, by a resolved key, or by an attestation
  that is itself claimed; an authorization is rooted when its chain of derived capabilities ends
  in one its issuer may issue. The search implements it: whatever \<open>Claim\<close> returns is claimed.
\<close>

section \<open>The specification\<close>

definition signed_by :: "venv \<Rightarrow> delegation \<Rightarrow> verifier \<Rightarrow> bool" where
  "signed_by E d v \<longleftrightarrow> ucan_VerifySignature (ve_L E) (ve_U E) (dl_ucan d) v = Ret (Inr True)"

definition directly_verified :: "venv \<Rightarrow> claim_context \<Rightarrow> delegation \<Rightarrow> bool" where
  "directly_verified E C d \<longleftrightarrow>
     (let L = ve_L E; issuer = dlg_Issuer L d
      in (\<exists>s v. did_String L issuer = Ret s \<and> HasPrefix s ''did:key:'' \<and>
                cc_parsePrincipal C s = Inr v \<and> signed_by E d v) \<or>
         (issuer = vf_DID (cc_authority C) \<and> signed_by E d (cc_authority C)) \<or>
         (\<exists>key ks v w. cc_resolveDIDKey C issuer = Inr key \<and> did_String L key = Ret ks \<and>
                cc_parsePrincipal C ks = Inr v \<and> wrap_verifier L v issuer = Ret (Inr w) \<and> signed_by E d w))"

text \<open>The proofs of a delegation that resolve, from its own blocks or the resolver.\<close>

definition candidates :: "venv \<Rightarrow> claim_context \<Rightarrow> delegation \<Rightarrow> delegation list" where
  "candidates E C d =
     (case NewBlockReader [] (dlg_Blocks d) of
        Inl e \<Rightarrow> []
      | Inr br \<Rightarrow> fst (ResolveProofs (cc_resolveProof C) (NewProofsView (ve_L E) (ve_U E) (dlg_Proofs d) br)))"

text \<open>\<open>m'\<close> is derived from \<open>m\<close> by the capability source \<open>s'\<close>.\<close>

definition derived :: "vmatch \<Rightarrow> vsource \<Rightarrow> vmatch \<Rightarrow> bool" where
  "derived m s' m' \<longleftrightarrow>
     (\<exists>c. ResolveCapability (mt_descriptor m) (mt_value m) s' = Ret (Inr c) \<and>
          ds_derives (mt_descriptor m) (mt_value m) c = None \<and>
          m' = NewMatch s' c (mt_descriptor m))"

definition attests :: "link \<Rightarrow> authorization \<Rightarrow> bool" where
  "attests l a \<longleftrightarrow> cp_Nb (auth_Capability a) = GAttestation l"

inductive verified :: "venv \<Rightarrow> claim_context \<Rightarrow> delegation \<Rightarrow> bool"
  and claimed :: "venv \<Rightarrow> claim_context \<Rightarrow> descriptor \<Rightarrow> authorization \<Rightarrow> bool"
  and rooted :: "venv \<Rightarrow> claim_context \<Rightarrow> authorization \<Rightarrow> bool"
  and attestation :: "venv \<Rightarrow> claim_context \<Rightarrow> authorization \<Rightarrow> bool"
  for E C where
  direct: "directly_verified E C d \<Longrightarrow> verified E C d"
| session: "session_capability E C d = Ret desc \<Longrightarrow> claimed E C desc a \<Longrightarrow> verified E C d"
| attestation: "session_capability E C d = Ret desc \<Longrightarrow> claimed E C desc a \<Longrightarrow> attestation E C a"
| claimed: "ParseCapability desc s = Ret (Inr c) \<Longrightarrow>
     src_capability s \<in> set (dlg_Capabilities (src_delegation s)) \<Longrightarrow>
     cc_validateTimeBounds C (src_delegation s) = None \<Longrightarrow> verified E C (src_delegation s) \<Longrightarrow>
     rooted E C (Authorization (NewMatch s c desc) ps as) \<Longrightarrow>
     (\<And>a. a \<in> set as \<Longrightarrow> attestation E C a) \<Longrightarrow>
     cc_validateAuthorization C (Authorization (NewMatch s c desc) ps as) = Ret None \<Longrightarrow>
     claimed E C desc (Authorization (NewMatch s c desc) ps as)"
| root: "mt_source m = Ret s \<Longrightarrow>
     canissuer_CanIssue C (mt_value m) (dlg_Issuer (ve_L E) (src_delegation s)) = Ret True \<Longrightarrow>
     rooted E C (Authorization m [] as)"
| step: "mt_source m = Ret s \<Longrightarrow> derived m s' m' \<Longrightarrow>
     src_capability s' \<in> set (dlg_Capabilities (src_delegation s')) \<Longrightarrow>
     src_delegation s' \<in> set (candidates E C (src_delegation s)) \<Longrightarrow>
     dlg_Audience (ve_L E) (src_delegation s') = dlg_Issuer (ve_L E) (src_delegation s) \<Longrightarrow>
     cc_validateTimeBounds C (src_delegation s') = None \<Longrightarrow> verified E C (src_delegation s') \<Longrightarrow>
     (\<And>a. a \<in> set as' \<Longrightarrow> attestation E C a \<and> attests (dlg_Link (src_delegation s')) a) \<Longrightarrow>
     rooted E C (Authorization m' ps' as') \<Longrightarrow>
     rooted E C (Authorization m [Authorization m' ps' as'] as)"

inductive_cases rootedE [elim]: "rooted E C (Authorization m ps as)"
inductive_cases claimedE [elim]: "claimed E C desc a"

section \<open>What each part of the search returns\<close>

lemma v_VerifySignature_Inr:
  "v_VerifySignature E d v = Ret (Inr d') \<longleftrightarrow> d' = d \<and> signed_by E d v"
  by (auto simp: v_VerifySignature_def signed_by_def case_sum_eq' split: if_splits)

lemma VerifyAuthorization_Inr:
  assumes "VerifyAuthorization claim E C d prfs = Ret (Inr (d', att))"
  shows "d' = d \<and>
         (att = None \<and> directly_verified E C d \<or>
          (\<exists>a desc aprfs. att = Some a \<and> session_capability E C d = Ret desc \<and>
             session_proofs d prfs = Ret aprfs \<and> claim desc (map PDelegation aprfs) = Ret (Inr a)))"
proof -
  let ?L = "ve_L E" and ?i = "dlg_Issuer (ve_L E) d"
  obtain s where s: "did_String ?L ?i = Ret s"
    using assms by (auto simp: VerifyAuthorization_def Let_def)
  consider (key) v where "HasPrefix s ''did:key:''" "cc_parsePrincipal C s = Inr v"
      "v_VerifySignature E d v = Ret (Inr d')" "att = None"
    | (auth) "?i = vf_DID (cc_authority C)" "v_VerifySignature E d (cc_authority C) = Ret (Inr d')" "att = None"
    | (sess) a where "VerifySession claim E C d prfs = Ret (Inr a)" "att = Some a" "d' = d"
    | (res) key ks v w where "cc_resolveDIDKey C ?i = Inr key" "did_String ?L key = Ret ks"
        "cc_parsePrincipal C ks = Inr v" "wrap_verifier ?L v ?i = Ret (Inr w)"
        "v_VerifySignature E d w = Ret (Inr d')" "att = None"
    using assms s
    by (auto simp: VerifyAuthorization_def Let_def case_sum_eq case_sum_eq' ConvertUnknownAuthorization_def
        split: if_splits)
  then show ?thesis
  proof cases
    case sess
    then show ?thesis by (auto simp: VerifySession_def)
  qed (use s in \<open>auto simp: v_VerifySignature_Inr directly_verified_def Let_def\<close>)
qed

lemma Validate_Inr:
  assumes "Validate claim E C d prfs = Ret (Inr (d', att))"
  shows "cc_validateTimeBounds C d = None \<and> VerifyAuthorization claim E C d prfs = Ret (Inr (d', att))"
  using assms by (auto simp: Validate_def case_option_eq)

lemma validate_loop_Cons:
  "validate_loop v (p # ps) = Ret (oks, bads) \<longleftrightarrow>
     (\<exists>r oks' bads'. v p = Ret r \<and> validate_loop v ps = Ret (oks', bads') \<and>
        (case r of Inl err \<Rightarrow> (oks', (p, err) # bads')
         | Inr (w, a) \<Rightarrow> ((p, w, a) # oks', bads')) = (oks, bads))"
  by auto

lemma validate_loop_oks:
  "validate_loop v ps = Ret (oks, bads) \<Longrightarrow>
     (p, d, a) \<in> set oks \<longleftrightarrow> p \<in> set ps \<and> v p = Ret (Inr (d, a))"
proof (induction ps arbitrary: oks bads)
  case (Cons q ps)
  then obtain r oks' bads' where r: "v q = Ret r" "validate_loop v ps = Ret (oks', bads')"
    and eq: "(case r of Inl err \<Rightarrow> (oks', (q, err) # bads')
         | Inr (w, a) \<Rightarrow> ((q, w, a) # oks', bads')) = (oks, bads)"
    unfolding validate_loop_Cons by blast
  show ?case using Cons.IH [OF r(2)] r(1) eq by (cases r) auto
qed simp

lemma attestations_of_iff:
  "a \<in> set (attestations_of oks) \<longleftrightarrow> (\<exists>p d. (p, d, Some a) \<in> set oks)"
  by (induction oks) (auto simp: attestations_of_def List.map_filter_def split: option.splits)

lemma match_Prune_None:
  "match_Prune L ci m = Ret None \<longleftrightarrow>
     (\<exists>s. mt_source m = Ret s \<and> ci (mt_value m) (dlg_Issuer L (src_delegation s)) = Ret True)"
  by (auto simp: match_Prune_def split: if_splits)

lemma match_Prune_Some:
  "match_Prune L ci m = Ret (Some m') \<longleftrightarrow>
     m' = m \<and> (\<exists>s. mt_source m = Ret s \<and> ci (mt_value m) (dlg_Issuer L (src_delegation s)) = Ret False)"
  by (auto simp: match_Prune_def split: if_splits)

lemma claim_loop_Inr:
  assumes "claim_loop authorize E C as ms = Ret (Inr auth)"
  shows "\<exists>m \<in> set ms. cc_validateAuthorization C auth = Ret None \<and>
           (auth = Authorization m [] as \<and> match_Prune (ve_L E) (canissuer_CanIssue C) m = Ret None \<or>
            (\<exists>a. auth = Authorization m [a] as \<and> authorize m = Ret (Inr a)))"
  using assms
proof (induction ms)
  case (Cons m ms)
  then show ?case
    by (auto simp: case_option_eq case_sum_eq case_sum_eq' NewAuthorization_def
        ConvertUnknownAuthorization_def split: prod.splits)
qed simp

lemma authorize_loop_Inr:
  assumes "authorize_loop authorize E C as ms = Ret (Inr auth)"
  shows "\<exists>m \<in> set ms. \<exists>s. mt_source m = Ret s \<and>
           (auth = Authorization m [] (attestationsFor (dlg_Link (src_delegation s)) as) \<and>
              match_Prune (ve_L E) (canissuer_CanIssue C) m = Ret None \<or>
            (\<exists>a. auth = Authorization m [a] (attestationsFor (dlg_Link (src_delegation s)) as) \<and>
              authorize m = Ret (Inr a)))"
  using assms
proof (induction ms)
  case (Cons m ms)
  then show ?case
    by (auto simp: case_option_eq case_sum_eq case_sum_eq' NewAuthorization_def Let_def
        match_Prune_Some split: prod.splits)
qed simp

text \<open>The goroutines of a match append their results in some order: a permutation.\<close>

definition order_ok :: "venv \<Rightarrow> bool" where
  "order_ok E \<longleftrightarrow> (\<forall>ss. mset (ve_order E ss) = mset ss)"

lemma order_single: "order_ok E \<Longrightarrow> ve_order E [s] = [s]"
  unfolding order_ok_def by (metis mset_single_iff)

lemma order_empty: "order_ok E \<Longrightarrow> ve_order E [] = []"
  unfolding order_ok_def by (metis mset_zero_iff)

lemma ResolveMatch_single:
  "order_ok E \<Longrightarrow> mt_sources m = [s] \<Longrightarrow> ResolveMatch claim E C m = ResolveSources claim E C s"
  by (cases "ResolveSources claim E C s") (auto simp: ResolveMatch_def order_single)

lemma NewMatch_simps [simp]:
  "mt_sources (NewMatch s c d) = [s]" "mt_value (NewMatch s c d) = c"
  "mt_descriptor (NewMatch s c d) = d" "mt_source (NewMatch s c d) = Ret s"
  by (simp_all add: NewMatch_def mt_source_def)

lemma ResolveSources_Ret:
  assumes "ResolveSources claim E C s = Ret (srcs, atts, errs)"
  defines "aligned \<equiv> filter (\<lambda>p. dlg_Issuer (ve_L E) (src_delegation s) = dlg_Audience (ve_L E) p)
                        (candidates E C (src_delegation s))"
  shows "s' \<in> set srcs \<longleftrightarrow>
           (\<exists>p d a c. p \<in> set aligned \<and> Validate claim E C p aligned = Ret (Inr (d, a)) \<and>
              c \<in> set (dlg_Capabilities p) \<and> s' = NewSource c p)"
    and "att \<in> set atts \<longleftrightarrow>
           (\<exists>p d. p \<in> set aligned \<and> Validate claim E C p aligned = Ret (Inr (d, Some att)))"
proof -
  have "(s' \<in> set srcs \<longleftrightarrow>
           (\<exists>p d a c. p \<in> set aligned \<and> Validate claim E C p aligned = Ret (Inr (d, a)) \<and>
              c \<in> set (dlg_Capabilities p) \<and> s' = NewSource c p)) \<and>
        (att \<in> set atts \<longleftrightarrow>
           (\<exists>p d. p \<in> set aligned \<and> Validate claim E C p aligned = Ret (Inr (d, Some att))))"
  proof (cases "NewBlockReader [] (dlg_Blocks (src_delegation s))")
    case (Inl e)
    then show ?thesis
      using assms(1) by (simp add: ResolveSources_def Let_def aligned_def candidates_def)
  next
    case (Inr br)
    then obtain oks bads where v: "validate_loop (\<lambda>p. Validate claim E C p aligned) aligned = Ret (oks, bads)"
      and srcs: "srcs = concat (map (\<lambda>(prf, v, a). map (\<lambda>c. NewSource c prf) (dlg_Capabilities prf)) oks)"
      and atts: "atts = attestations_of oks"
      using assms(1)
      by (auto simp: ResolveSources_def Let_def aligned_def candidates_def split: prod.splits)
    show ?thesis
      unfolding srcs atts attestations_of_iff using validate_loop_oks [OF v] by auto fastforce+
  qed
  then show "s' \<in> set srcs \<longleftrightarrow>
           (\<exists>p d a c. p \<in> set aligned \<and> Validate claim E C p aligned = Ret (Inr (d, a)) \<and>
              c \<in> set (dlg_Capabilities p) \<and> s' = NewSource c p)"
    and "att \<in> set atts \<longleftrightarrow>
           (\<exists>p d. p \<in> set aligned \<and> Validate claim E C p aligned = Ret (Inr (d, Some att)))"
    by blast+
qed

lemma NewSource_simps [simp]:
  "src_capability (NewSource c d) = c" "src_delegation (NewSource c d) = d"
  by (simp_all add: NewSource_def)

lemma attestationsFor_iff:
  "a \<in> set (attestationsFor l as) \<longleftrightarrow> a \<in> set as \<and> attests l a"
  by (auto simp: attestationsFor_def attests_def unknown_Capability_def Let_def Ucan.NewCapability_def
      split: gany.splits)

section \<open>Soundness\<close>

text \<open>A validated delegation is in time and verified, and the attestation it used is one.\<close>

lemma validate_sound:
  assumes c: "\<And>desc ps a. claim desc ps = Ret (Inr a) \<Longrightarrow> claimed E C desc a"
    and v: "Validate claim E C d prfs = Ret (Inr (d', att))"
  shows "d' = d \<and> cc_validateTimeBounds C d = None \<and> verified E C d \<and>
         (\<forall>a. att = Some a \<longrightarrow> attestation E C a)"
proof -
  note t = Validate_Inr [OF v]
  note va = VerifyAuthorization_Inr [OF t [THEN conjunct2]]
  then consider "att = None" "directly_verified E C d"
    | a desc where "att = Some a" "session_capability E C d = Ret desc" "claimed E C desc a"
    using c by blast
  then show ?thesis
    using va t by cases (auto intro: verified_claimed_rooted_attestation.intros)
qed

lemma search_sound:
  assumes "order_ok E"
  shows "Claim n E C desc ps = Ret (Inr a) \<Longrightarrow> claimed E C desc a"
    and "Authorize n E C m = Ret (Inr b) \<Longrightarrow> mt_sources m = [s] \<Longrightarrow> rooted E C (Authorization m [b] as)"
proof (induction n arbitrary: desc ps a m b s as)
  case (Suc n)
  note ih_claim = Suc.IH(1) and ih_auth = Suc.IH(2)
  have valid: "d' = d \<and> cc_validateTimeBounds C d = None \<and> verified E C d \<and>
      (\<forall>a. att = Some a \<longrightarrow> attestation E C a)"
    if "Validate (Claim n E C) E C d prfs = Ret (Inr (d', att))" for d prfs d' att
    using ih_claim by (rule validate_sound [OF _ that])
  {
    case 1
    let ?ds = "fst (ResolveProofs (cc_resolveProof C) ps)"
    obtain oks bads ms es us where
      v: "validate_loop (\<lambda>prf. Validate (Claim n E C) E C prf ?ds) ?ds = Ret (oks, bads)"
      and sel: "cap_Select desc (concat (map (\<lambda>(prf, validation, a).
                   map (\<lambda>c. NewSource c prf) (dlg_Capabilities validation)) oks)) = Ret (ms, es, us)"
      and loop: "claim_loop (Authorize n E C) E C (attestations_of oks) ms = Ret (Inr a)"
      using 1 by (auto simp: Claim_body_def Let_def case_prod_unfold case_sum_eq')
    note ok = validate_loop_oks [OF v]
    obtain m where m: "m \<in> set ms" and nr: "cc_validateAuthorization C a = Ret None"
      and a: "a = Authorization m [] (attestations_of oks) \<and>
                match_Prune (ve_L E) (canissuer_CanIssue C) m = Ret None \<or>
              (\<exists>b. a = Authorization m [b] (attestations_of oks) \<and> Authorize n E C m = Ret (Inr b))"
      using claim_loop_Inr [OF loop] by blast
    obtain p d att c c' where p: "(p, d, att) \<in> set oks" "c \<in> set (dlg_Capabilities d)"
      and pc: "ParseCapability desc (NewSource c p) = Ret (Inr c')"
      and m': "m = NewMatch (NewSource c p) c' desc"
      using cap_Select_matches [OF sel, of m] m by fastforce
    have vp: "d = p" "cc_validateTimeBounds C p = None" "verified E C p"
      using valid p(1) ok by blast+
    have as: "attestation E C x" if "x \<in> set (attestations_of oks)" for x
      using that ok valid by (auto simp: attestations_of_iff)
    have r: "rooted E C a"
      using a ih_auth [of m] m' by (auto simp: match_Prune_None intro: root)
    obtain ps' where aeq: "a = Authorization m ps' (attestations_of oks)" using a by blast
    show ?case
      using claimed [OF pc, of C E ps' "attestations_of oks"] p(2) vp r as nr
      unfolding aeq m' by simp
  next
    case 2
    obtain srcs atts errs ms es us where
      rs: "ResolveSources (Claim n E C) E C s = Ret (srcs, atts, errs)"
      and sel: "match_Select m srcs = Ret (ms, es, us)"
      and loop: "authorize_loop (Authorize n E C) E C atts ms = Ret (Inr b)"
      using 2 by (auto simp: Authorize_body_def ResolveMatch_single [OF assms 2(2)] case_sum_eq')
    note res = ResolveSources_Ret [OF rs]
    obtain m' s0 where m': "m' \<in> set ms" "mt_source m' = Ret s0"
      and b: "b = Authorization m' [] (attestationsFor (dlg_Link (src_delegation s0)) atts) \<and>
                match_Prune (ve_L E) (canissuer_CanIssue C) m' = Ret None \<or>
              (\<exists>b'. b = Authorization m' [b'] (attestationsFor (dlg_Link (src_delegation s0)) atts) \<and>
                Authorize n E C m' = Ret (Inr b'))"
      using authorize_loop_Inr [OF loop] by blast
    obtain s' where s': "s' \<in> set srcs" and d: "derived m s' m'"
      using match_Select_matches [OF sel, of m'] m'(1) by (auto simp: derived_def)
    have s0: "s0 = s'" and ms': "mt_sources m' = [s']"
      using d m'(2) by (auto simp: derived_def)
    obtain p dd att c where p: "p \<in> set (candidates E C (src_delegation s))"
        "dlg_Issuer (ve_L E) (src_delegation s) = dlg_Audience (ve_L E) p"
        "c \<in> set (dlg_Capabilities p)" "s' = NewSource c p"
      and v: "\<exists>prfs. Validate (Claim n E C) E C p prfs = Ret (Inr (dd, att))"
      using res(1) [THEN iffD1, OF s'] unfolding set_filter by blast
    have vp: "cc_validateTimeBounds C p = None" "verified E C p" using valid v by blast+
    have as: "attestation E C x" if "x \<in> set atts" for x
      using that res(2) valid by blast
    have r: "rooted E C b"
      using b ih_auth [OF _ ms'] by (auto simp: match_Prune_None intro: root)
    obtain ps' where beq: "b = Authorization m' ps' (attestationsFor (dlg_Link (src_delegation s')) atts)"
      using b s0 by blast
    have "mt_source m = Ret s" using 2(2) by (simp add: mt_source_def)
    then show ?case
      using step [OF _ d, of s E C "attestationsFor (dlg_Link (src_delegation s')) atts" ps' as]
        p vp r as unfolding beq by (auto simp: attestationsFor_iff)
  }
qed simp_all


text \<open>The authorization \<open>Claim\<close> returns rests on one of the proofs it was given.\<close>

lemma claim_of_proofs:
  assumes "Claim n E C desc ps = Ret (Inr a)"
  shows "\<exists>s. mt_source (au_match a) = Ret s \<and>
           src_delegation s \<in> set (fst (ResolveProofs (cc_resolveProof C) ps))"
proof (cases n)
  case (Suc k)
  let ?ds = "fst (ResolveProofs (cc_resolveProof C) ps)"
  obtain oks bads ms es us where
    v: "validate_loop (\<lambda>prf. Validate (Claim k E C) E C prf ?ds) ?ds = Ret (oks, bads)"
    and sel: "cap_Select desc (concat (map (\<lambda>(prf, validation, a).
                 map (\<lambda>c. NewSource c prf) (dlg_Capabilities validation)) oks)) = Ret (ms, es, us)"
    and loop: "claim_loop (Authorize k E C) E C (attestations_of oks) ms = Ret (Inr a)"
    using assms Suc by (auto simp: Claim_body_def Let_def case_prod_unfold case_sum_eq')
  obtain m where "m \<in> set ms" "au_match a = m" using claim_loop_Inr [OF loop] by auto
  then obtain s where "au_match a = NewMatch s (mt_value m) desc"
    and "\<exists>p d att. (p, d, att) \<in> set oks \<and> src_delegation s = p"
    using cap_Select_matches [OF sel, of m] by fastforce
  then show ?thesis using validate_loop_oks [OF v] by auto
qed (use assms in simp)

section \<open>The chain of an authorization\<close>

text \<open>An authorization and the proofs below it, from the claim to its root.\<close>

fun auth_chain :: "authorization \<Rightarrow> authorization list" where
  "auth_chain (Authorization m ps as) = Authorization m ps as # concat (map auth_chain ps)"

definition auth_source :: "authorization \<Rightarrow> vsource" where
  "auth_source a = hd (mt_sources (au_match a))"

definition auth_dlg :: "authorization \<Rightarrow> delegation" where
  "auth_dlg a = src_delegation (auth_source a)"

text \<open>The delegation of a link of the chain is in time, verified, and holds the capability.\<close>

definition in_force :: "venv \<Rightarrow> claim_context \<Rightarrow> authorization \<Rightarrow> bool" where
  "in_force E C a \<longleftrightarrow>
     src_capability (auth_source a) \<in> set (dlg_Capabilities (auth_dlg a)) \<and>
     cc_validateTimeBounds C (auth_dlg a) = None \<and> verified E C (auth_dlg a)"

text \<open>
  One link of the chain and the next: the next one's delegation is a proof of this one's, made
  out to its issuer, and what it delegates covers the capability.
\<close>

definition passed_on :: "venv \<Rightarrow> claim_context \<Rightarrow> authorization \<Rightarrow> authorization \<Rightarrow> bool" where
  "passed_on E C a b \<longleftrightarrow>
     derived (au_match a) (auth_source b) (au_match b) \<and>
     auth_dlg b \<in> set (candidates E C (auth_dlg a)) \<and>
     dlg_Audience (ve_L E) (auth_dlg b) = dlg_Issuer (ve_L E) (auth_dlg a)"

definition issued_by_owner :: "venv \<Rightarrow> claim_context \<Rightarrow> authorization \<Rightarrow> bool" where
  "issued_by_owner E C a \<longleftrightarrow>
     canissuer_CanIssue C (auth_Capability a) (dlg_Issuer (ve_L E) (auth_dlg a)) = Ret True"

lemma auth_chain_nonempty [simp]: "auth_chain a \<noteq> []"
  by (cases a) simp

lemma auth_chain_Cons: "\<exists>rest. auth_chain a = a # rest"
  by (cases a) simp

lemma mt_source_hd: "mt_source m = Ret s \<Longrightarrow> hd (mt_sources m) = s"
  by (auto simp: mt_source_def first_of_eq_Ret)

lemma derived_source: "derived m s' m' \<Longrightarrow> hd (mt_sources m') = s'"
  by (auto simp: derived_def)

lemma rooted_chain:
  "rooted E C a \<Longrightarrow>
     list_all (in_force E C) (tl (auth_chain a)) \<and> successively (passed_on E C) (auth_chain a) \<and>
     issued_by_owner E C (last (auth_chain a))"
proof (induction rule: verified_claimed_rooted_attestation.inducts(3)
    [where ?P1.0 = "\<lambda>_. True" and ?P2.0 = "\<lambda>_ _. True" and ?P4.0 = "\<lambda>_. True"])
  case (root m s as)
  then show ?case
    by (simp add: issued_by_owner_def auth_dlg_def auth_source_def auth_Capability_def mt_source_hd)
next
  case (step m s s' m' as' ps' as)
  let ?b = "Authorization m' ps' as'"
  obtain rest where ch: "auth_chain ?b = ?b # rest" using auth_chain_Cons by blast
  have s: "auth_source (Authorization m [?b] as) = s" "auth_source ?b = s'"
    using step mt_source_hd derived_source by (simp_all add: auth_source_def)
  have f: "in_force E C ?b" using step by (simp add: in_force_def auth_dlg_def s)
  have p: "passed_on E C (Authorization m [?b] as) ?b"
    using step by (simp add: passed_on_def auth_dlg_def s)
  have "auth_chain (Authorization m [?b] as) = Authorization m [?b] as # ?b # rest"
    using ch by simp
  moreover have "list_all (in_force E C) rest \<and> successively (passed_on E C) (?b # rest) \<and>
      issued_by_owner E C (last (?b # rest))"
    using step.IH ch by auto
  ultimately show ?case using f p by simp
qed simp_all

lemma claimed_chain:
  assumes "claimed E C desc a"
  shows "list_all (in_force E C) (auth_chain a) \<and> successively (passed_on E C) (auth_chain a) \<and>
     issued_by_owner E C (last (auth_chain a)) \<and> cc_validateAuthorization C a = Ret None \<and>
     ParseCapability desc (auth_source a) = Ret (Inr (auth_Capability a))"
  using assms
proof cases
  case (claimed s c ps as)
  have src: "auth_source a = s" "auth_Capability a = c"
    using claimed(1) by (simp_all add: auth_source_def auth_Capability_def NewMatch_def)
  have "in_force E C a" unfolding in_force_def auth_dlg_def src using claimed by simp
  moreover have "auth_chain a = a # tl (auth_chain a)" using auth_chain_Cons [of a] by fastforce
  ultimately show ?thesis
    using rooted_chain [of E C a] claimed src by (metis list.pred_inject(2))
qed


section \<open>A chain of two delegations, for the witnesses\<close>

definition dlg0 :: "link \<Rightarrow> ucan_model \<Rightarrow> delegation" where
  "dlg0 l u = \<lparr> dl_rt = NewBlock l [], dl_blks = br_empty, dl_atch = br_empty, dl_ucan = u \<rparr>"

definition venv0 :: venv where
  "venv0 = \<lparr> ve_L = lib0, ve_U = ucanlib0, ve_order = rev \<rparr>"

lemma venv0_fields: "ve_L venv0 = lib0" "ve_U venv0 = ucanlib0"
  by (simp_all add: venv0_def)

lemma order_ok0: "order_ok venv0"
  by (simp add: order_ok_def venv0_def)

definition ctx0 :: "delegation \<Rightarrow> claim_context" where
  "ctx0 d = NewClaimContext (verifier0 (did0 ''s'')) (\<lambda>c i. Ret (cp_With c = ''did:web:*''))
     (\<lambda>a. Ret None) (\<lambda>l. if l = ''p'' then Inr d else ProofUnavailable l)
     (\<lambda>s. Inl ''no parser'') FailDIDKeyResolution (NotExpiredNotTooEarly 1000) []"

lemma issued_with:
  assumes "wf_did lib0 i" "wf_did lib0 a"
  defines "cfg \<equiv> \<lambda>opts. foldl apply_ucan_option ucanConfig0 opts"
  assumes "uc_fct (cfg opts) = []" "uc_nbf (cfg opts) = 0"
  shows "\<exists>u. ucan_Issue lib0 ucanlib0 now (signer0 i) a [Ucan.NewCapability can w (Builder T (Inr (NMap kvs)))] opts = Ret (Inr u) \<and>
       ucan_VerifySignature lib0 ucanlib0 u (verifier0 i) = Ret (Inr True) \<and>
       ucan_Issuer lib0 u = i \<and> ucan_Audience lib0 u = a \<and>
       ucan_Capabilities u = [Ucan.NewCapability can w (GNode (NMap kvs))] \<and>
       um_Prf u = uc_prf (cfg opts) \<and> um_Exp u = issue_exp now (cfg opts) \<and> um_Nbf u = None"
proof -
  let ?caps = "[Ucan.NewCapability can w (Builder T (Inr (NMap kvs)))]"
  obtain u where u: "ucan_Issue lib0 ucanlib0 now (signer0 i) a ?caps opts = Ret (Inr u)"
    using issue0_wf [OF assms(1,2), of ?caps opts now] assms(4)
    by (auto simp: Ucan.NewCapability_def cfg_def)
  have k: "ed_usable (lib0, replicate 32 (CHR ''s''), replicate 32 (CHR ''p''))"
    by (simp add: ed_usable_def lib0_varint_ok lib0_ed25519_ok)
  have sg: "sg_Sign (signer0 i) = eds_Sign lib0 key0"
      "sg_SignatureAlgorithm (signer0 i) = ed_SignatureAlgorithm"
      "vf_Verify (verifier0 i) = edv_Verify lib0 pub0" "vf_DID (verifier0 i) = i"
    by (simp_all add: signer0_def verifier0_def edv_verifier_def)
  have "ucan_VerifySignature lib0 ucanlib0 u (verifier0 i) = Ret (Inr True)"
    using ed_ucan.issue_then_verify [OF k, of "signer0 i" "verifier0 i" a ucanlib0 now ?caps opts u] sg u assms(1,2)
    by (simp add: ed_key_sign_def ed_key_verify_def fun_eq_iff key0_def pub0_def)
  moreover have "um_Att u = [\<lparr> cm_With = w, cm_Can = can, cm_Nb = Some (NMap kvs) \<rparr>]"
    and "um_Iss u = did_Bytes i" "um_Aud u = did_Bytes a" "um_Prf u = uc_prf (cfg opts)"
      "um_Exp u = issue_exp now (cfg opts)" "um_Nbf u = None"
    using u assms(5) by (auto elim!: issue_inversion simp: build_capability_def Ucan.NewCapability_def cfg_def)
  ultimately show ?thesis
    using u by (auto simp: ucan_Issuer_def ucan_Audience_def ucan_Capabilities_def any_of_node_def
        did_decode_wf [OF lib0_varint_ok assms(1)] did_decode_wf [OF lib0_varint_ok assms(2)])
qed

lemma issued1:
  assumes "wf_did lib0 i" "wf_did lib0 a"
  defines "cfg \<equiv> \<lambda>opts. foldl apply_ucan_option ucanConfig0 opts"
  assumes "uc_fct (cfg opts) = []" "uc_nbf (cfg opts) = 0"
  shows "\<exists>u. ucan_Issue lib0 ucanlib0 now (signer0 i) a [Ucan.NewCapability can w NoCaveats] opts = Ret (Inr u) \<and>
       ucan_VerifySignature lib0 ucanlib0 u (verifier0 i) = Ret (Inr True) \<and>
       ucan_Issuer lib0 u = i \<and> ucan_Audience lib0 u = a \<and>
       ucan_Capabilities u = [Ucan.NewCapability can w (GNode (NMap []))] \<and>
       um_Prf u = uc_prf (cfg opts) \<and> um_Exp u = issue_exp now (cfg opts) \<and> um_Nbf u = None"
  using issued_with [OF assms(1,2), of opts now can w "''ucan.NoCaveats''" "[]"] assms(4,5)
  by (simp add: NoCaveats_def NoCaveats_ToIPLD_def cfg_def)

lemma issued0:
  "\<exists>u. ucan_VerifySignature lib0 ucanlib0 u (verifier0 (did0 i)) = Ret (Inr True) \<and>
       ucan_Issuer lib0 u = did0 i \<and> ucan_Audience lib0 u = did0 a \<and>
       ucan_Capabilities u = [Ucan.NewCapability can w (GNode (NMap []))] \<and> um_Prf u = ls \<and>
       um_Exp u = None \<and> um_Nbf u = None"
  using issued1 [OF wf_did0 wf_did0, of "[WithNoExpiration, WithProof ls]" 0 i a can w]
  by (auto simp: ucanConfig0_def issue_exp_def)

lemma search0:
  "\<exists>d ivk a. Access 2 venv0 (ctx0 d) ds0 ivk = Ret (Inr a) \<and> map auth_dlg (auth_chain a) = [ivk, d] \<and>
     dlg_Link ivk \<noteq> dlg_Link d \<and> (\<exists>m r. a = Authorization m [Authorization r [] []] [])"
proof -
  obtain u where u: "ucan_VerifySignature lib0 ucanlib0 u (verifier0 (did0 ''s'')) = Ret (Inr True)"
    "ucan_Issuer lib0 u = did0 ''s''" "ucan_Audience lib0 u = did0 ''s''"
    "ucan_Capabilities u = [Ucan.NewCapability ''store/*'' ''did:web:*'' (GNode (NMap []))]"
    "um_Prf u = []" "um_Exp u = None" "um_Nbf u = None"
    using issued0 by blast
  obtain v where v: "ucan_VerifySignature lib0 ucanlib0 v (verifier0 (did0 ''s'')) = Ret (Inr True)"
    "ucan_Issuer lib0 v = did0 ''s''" "ucan_Audience lib0 v = did0 ''s''"
    "ucan_Capabilities v = [Ucan.NewCapability ''store/add'' ''did:web:z'' (GNode (NMap []))]"
    "um_Prf v = [''p'']" "um_Exp v = None" "um_Nbf v = None"
    using issued0 by blast
  let ?d = "dlg0 ''p'' u" and ?i = "dlg0 ''i'' v"
  let ?C = "ctx0 ?d"
  have val: "Validate f venv0 ?C x prfs = Ret (Inr (x, None))" if "x = ?d \<or> x = ?i" for f x prfs
    using that u v
    by (auto simp: Validate_def ctx0_def NewClaimContext_def NotExpiredNotTooEarly_def dlg0_def
        IsExpired_def IsTooEarly_def ucan_Expiration_def ucan_NotBefore_def VerifyAuthorization_def
        venv0_def dlg_Issuer_def string_did0 HasPrefix_def verifier0_def v_VerifySignature_def)
  let ?ms = "NewSource (Ucan.NewCapability ''store/add'' ''did:web:z'' (GNode (NMap []))) ?i"
  let ?rs = "NewSource (Ucan.NewCapability ''store/*'' ''did:web:*'' (GNode (NMap []))) ?d"
  let ?m = "NewMatch ?ms (Ucan.NewCapability ''store/add'' ''did:web:z'' (GNode (NMap []))) ds0"
  let ?r = "NewMatch ?rs (Ucan.NewCapability ''store/add'' ''did:web:*'' (GNode (NMap []))) ds0"
  have sel: "cap_Select ds0 [?ms] = Ret ([?m], [], [])" "match_Select ?m [?rs] = Ret ([?r], [], [])"
    by (simp_all add: cap_Select_def select_source_def cap_Match_def ParseCapability_def
        match_Select_def match_select_source_def ResolveCapability_def Let_def
        Ucan.NewCapability_def ds0_def NewCapabilityParser_def anywith_def anynb_def
        ResolveAbility_def ResolveResource_def DefaultDerives_def HasSuffix_def HasPrefix_def)
  have can: "match_Prune lib0 (canissuer_CanIssue ?C) ?m = Ret (Some ?m)"
    "match_Prune lib0 (canissuer_CanIssue ?C) ?r = Ret None"
    by (simp_all add: match_Prune_def canissuer_CanIssue_def ctx0_def NewClaimContext_def
        Ucan.NewCapability_def)
  have blk: "NewBlockReader [] (dlg_Blocks x) = Inr br_empty" if "x = ?i" for x
    using that by (simp add: dlg0_def dlg_Blocks_def iter_Concat2_def br_Iterator_def br_empty_def
        NewBlockReader_def)
  have pv: "NewProofsView lib0 ucanlib0 (dlg_Proofs ?i) br_empty = [PLink ''p'']"
    using v by (simp add: NewProofsView_def dlg_Proofs_def ucan_Proofs_def dlg0_def
        NewDelegationView_def br_Get_def br_empty_def)
  have rp: "ResolveProofs (cc_resolveProof ?C) [PLink ''p''] = ([?d], [])"
    "ResolveProofs (cc_resolveProof ?C) [PDelegation ?i] = ([?i], [])"
    by (simp_all add: proof_Delegation_def proof_Link_def ctx0_def NewClaimContext_def)
  have caps: "dlg_Capabilities ?d = [Ucan.NewCapability ''store/*'' ''did:web:*'' (GNode (NMap []))]"
    "dlg_Capabilities ?i = [Ucan.NewCapability ''store/add'' ''did:web:z'' (GNode (NMap []))]"
    "dlg_Issuer lib0 ?i = dlg_Audience lib0 ?d"
    using u v by (simp_all add: dlg0_def dlg_Capabilities_def dlg_Issuer_def dlg_Audience_def)
  have rm: "ResolveMatch f venv0 ?C ?m = Ret ([?rs], [], [])" for f
    using order_ok0 by (simp add: ResolveMatch_single ResolveSources_def blk pv rp caps val
        attestations_of_def List.map_filter_def Let_def venv0_fields del: ResolveProofs.simps)
  have au: "Authorize 1 venv0 ?C ?m = Ret (Inr (Authorization ?r [] []))"
    using can(2) by (simp add: Authorize_body_def rm sel venv0_fields attestationsFor_def Let_def
        NewAuthorization_def)
  have acc: "Access 2 venv0 ?C ds0 ?i =
      Ret (Inr (Authorization ?m [Authorization ?r [] []] []))"
    using can(1) au by (simp add: Access_def numeral_2_eq_2 Claim_body_def rp val caps sel
        attestations_of_def List.map_filter_def venv0_fields NewAuthorization_def Let_def
        del: ResolveProofs.simps Authorize.simps)
      (simp add: ctx0_def NewClaimContext_def)
  have chn: "map auth_dlg (auth_chain (Authorization ?m [Authorization ?r [] []] [])) = [?i, ?d]"
    by (simp add: auth_dlg_def auth_source_def)
  have lnk: "dlg_Link ?i \<noteq> dlg_Link ?d" by (simp add: dlg0_def dlg_Link_def NewBlock_def)
  show ?thesis
    by (rule exI [of _ ?d], rule exI [of _ ?i], rule exI [of _ "Authorization ?m [Authorization ?r [] []] []"],
        intro conjI exI, rule acc, rule chn, rule lnk, rule refl)
qed

text \<open>The default context: an owner's own invocation.\<close>

definition ctx1 :: claim_context where
  "ctx1 = NewClaimContext (verifier0 (did0 ''s'')) (IsSelfIssued lib0) (\<lambda>a. Ret None) ProofUnavailable
     (\<lambda>s. Inl ''no parser'') FailDIDKeyResolution (NotExpiredNotTooEarly 1000) []"

lemma search1: "\<exists>ivk a. Access 1 venv0 ctx1 ds0 ivk = Ret (Inr a)"
proof -
  obtain v where v: "ucan_VerifySignature lib0 ucanlib0 v (verifier0 (did0 ''s'')) = Ret (Inr True)"
    "ucan_Issuer lib0 v = did0 ''s''"
    "ucan_Capabilities v = [Ucan.NewCapability ''store/add'' ''did:web:s'' (GNode (NMap []))]"
    "um_Exp v = None" "um_Nbf v = None"
    using issued0 [of "''s''" "''s''" "''store/add''" "''did:web:s''" "[]"] by blast
  let ?i = "dlg0 ''i'' v"
  have val: "Validate f venv0 ctx1 ?i prfs = Ret (Inr (?i, None))" for f prfs
    using v by (simp add: Validate_def ctx1_def NewClaimContext_def NotExpiredNotTooEarly_def dlg0_def
        IsExpired_def IsTooEarly_def ucan_Expiration_def ucan_NotBefore_def VerifyAuthorization_def
        venv0_def dlg_Issuer_def string_did0 HasPrefix_def verifier0_def v_VerifySignature_def)
  have rp: "ResolveProofs (cc_resolveProof ctx1) [PDelegation ?i] = ([?i], [])"
    by (simp add: proof_Delegation_def)
  let ?m = "NewMatch (NewSource (Ucan.NewCapability ''store/add'' ''did:web:s'' (GNode (NMap []))) ?i)
              (Ucan.NewCapability ''store/add'' ''did:web:s'' (GNode (NMap []))) ds0"
  have sel: "cap_Select ds0 (map (\<lambda>c. NewSource c ?i) (dlg_Capabilities ?i)) = Ret ([?m], [], [])"
    using v(3) by (simp add: cap_Select_def select_source_def cap_Match_def ParseCapability_def
        Let_def Ucan.NewCapability_def ds0_def NewCapabilityParser_def anywith_def anynb_def
        dlg_Capabilities_def dlg0_def)
  have can: "match_Prune lib0 (canissuer_CanIssue ctx1) ?m = Ret None"
    using v(2) by (simp add: match_Prune_def canissuer_CanIssue_def ctx1_def NewClaimContext_def
        Ucan.NewCapability_def IsSelfIssued_def dlg_Issuer_def dlg0_def string_did0)
  have "Access 1 venv0 ctx1 ds0 ?i = Ret (Inr (Authorization ?m [] []))"
    by (simp add: Access_def Claim_body_def rp val sel can attestations_of_def List.map_filter_def
        venv0_fields NewAuthorization_def Let_def del: ResolveProofs.simps)
      (simp add: ctx1_def NewClaimContext_def)
  then show ?thesis by blast
qed

section \<open>Properties\<close>

lemma access_chain:
  assumes "order_ok E" and "Access n E C cap ivk = Ret (Inr a)"
  shows "auth_dlg a = ivk \<and> ParseCapability cap (auth_source a) = Ret (Inr (auth_Capability a)) \<and>
         list_all (in_force E C) (auth_chain a) \<and> successively (passed_on E C) (auth_chain a) \<and>
         issued_by_owner E C (last (auth_chain a)) \<and> cc_validateAuthorization C a = Ret None"
proof -
  have c: "Claim n E C cap [PDelegation ivk] = Ret (Inr a)" using assms(2) by (simp add: Access_def)
  obtain s where "mt_source (au_match a) = Ret s" "src_delegation s = ivk"
    using claim_of_proofs [OF c] by (auto simp: proof_Delegation_def)
  then have "auth_dlg a = ivk" by (simp add: auth_dlg_def auth_source_def mt_source_hd)
  with claimed_chain [OF search_sound(1) [OF assms(1) c]] show ?thesis by blast
qed

text \<open>
  C1. Access is sound. The authorization that \<open>Access\<close> returns rests on the invocation itself, which
  holds the capability asked for; every delegation of its chain is within its time bounds and
  verified; each is a proof of the one above it, made out to that one's issuer, and covers the
  capability claimed above it; the last was issued by a principal that may issue its capability;
  and the authorization as a whole was not revoked. No order of the goroutines changes this.
\<close>

theorem access_sound:
  assumes "order_ok E" and "Access n E C cap ivk = Ret (Inr a)"
  shows "auth_dlg a = ivk \<and> ParseCapability cap (auth_source a) = Ret (Inr (auth_Capability a)) \<and>
         list_all (in_force E C) (auth_chain a) \<and> successively (passed_on E C) (auth_chain a) \<and>
         issued_by_owner E C (last (auth_chain a)) \<and> cc_validateAuthorization C a = Ret None"
  using access_chain [OF assms] by blast

theorem access_sound_witness:
  "\<exists>d ivk a. Access 2 venv0 (ctx0 d) ds0 ivk = Ret (Inr a) \<and> map auth_dlg (auth_chain a) = [ivk, d] \<and>
     verified venv0 (ctx0 d) d \<and> issued_by_owner venv0 (ctx0 d) (last (auth_chain a))"
proof -
  obtain d ivk a where a: "Access 2 venv0 (ctx0 d) ds0 ivk = Ret (Inr a)"
    and ch: "map auth_dlg (auth_chain a) = [ivk, d]"
    using search0 by (elim exE conjE)
  note s = access_sound [OF order_ok0 a]
  have "d \<in> auth_dlg ` set (auth_chain a)" by (simp add: ch flip: set_map)
  then have "verified venv0 (ctx0 d) d" using s by (auto simp: list_all_iff in_force_def)
  moreover have "issued_by_owner venv0 (ctx0 d) (last (auth_chain a))" using s by (elim conjE)
  ultimately show ?thesis using a ch by (intro exI conjI)
qed

lemma chain_ability:
  "successively (passed_on E C) as \<Longrightarrow> b \<in> set as \<Longrightarrow>
     cp_Can (auth_Capability b) = cp_Can (auth_Capability (hd as))"
proof (induction as)
  case (Cons a as)
  have "cp_Can (auth_Capability (hd as)) = cp_Can (auth_Capability a)" if "as \<noteq> []"
  proof -
    have "passed_on E C a (hd as)" using Cons.prems(1) that by (simp add: successively_Cons)
    then show ?thesis
      using ResolveAbility_iff(2)
      by (fastforce simp: passed_on_def derived_def ResolveCapability_Inr auth_Capability_def Let_def
          Ucan.NewCapability_def ResolveAbility_def split: if_splits)
  qed
  with Cons show ?case by (cases "as = []") (auto simp: successively_Cons)
qed simp

text \<open>
  C11. In the default context, where a principal may issue what it owns and time bounds are checked
  against the clock, no delegation of the chain has expired or is used too early, every link of the
  chain claims the ability of the capability asked for, and the resource at the end of the chain is
  the DID its issuer prints.
\<close>

theorem self_issued_access:
  assumes "order_ok E" and "Access n E C cap ivk = Ret (Inr a)"
    and "cc_canIssue C = IsSelfIssued (ve_L E)" and "cc_validateTimeBounds C = NotExpiredNotTooEarly now"
  shows "(\<forall>b \<in> set (auth_chain a).
             \<not> IsExpired now (dl_ucan (auth_dlg b)) \<and> \<not> IsTooEarly now (dl_ucan (auth_dlg b)) \<and>
             cp_Can (auth_Capability b) = ds_can cap) \<and>
         did_String (ve_L E) (dlg_Issuer (ve_L E) (auth_dlg (last (auth_chain a)))) =
           Ret (cp_With (auth_Capability (last (auth_chain a))))"
proof -
  have "claimed E C cap a"
    using search_sound(1) [OF assms(1)] assms(2) by (simp add: Access_def)
  note c = claimed_chain [OF this]
  have hd: "hd (auth_chain a) = a" using auth_chain_Cons [of a] by force
  have "cp_Can (auth_Capability a) = ds_can cap"
    using c by (auto simp: ParseCapability_Inr Ucan.NewCapability_def)
  then have "cp_Can (auth_Capability b) = ds_can cap" if "b \<in> set (auth_chain a)" for b
    using chain_ability [of E C "auth_chain a" b] c that hd by simp
  moreover have "\<not> IsExpired now (dl_ucan (auth_dlg b)) \<and> \<not> IsTooEarly now (dl_ucan (auth_dlg b))"
    if "b \<in> set (auth_chain a)" for b
    using c that assms(4)
    by (auto simp: list_all_iff in_force_def NotExpiredNotTooEarly_def split: if_splits)
  moreover have "did_String (ve_L E) (dlg_Issuer (ve_L E) (auth_dlg (last (auth_chain a)))) =
      Ret (cp_With (auth_Capability (last (auth_chain a))))"
    using c assms(3)
    by (auto simp: issued_by_owner_def canissuer_CanIssue_def IsSelfIssued_def Ucan.NewCapability_def)
  ultimately show ?thesis by blast
qed

theorem self_issued_access_witness:
  "\<exists>ivk a. Access 1 venv0 ctx1 ds0 ivk = Ret (Inr a) \<and> \<not> IsExpired 1000 (dl_ucan (auth_dlg a)) \<and>
     cp_Can (auth_Capability a) = ''store/add''"
proof -
  obtain ivk a where a: "Access 1 venv0 ctx1 ds0 ivk = Ret (Inr a)" using search1 by blast
  have "a \<in> set (auth_chain a)" using auth_chain_Cons [of a] by force
  then show ?thesis
    using self_issued_access [OF order_ok0 a, of 1000] a
    by (auto simp: ctx1_def NewClaimContext_def venv0_fields ds0_def NewCapabilityParser_def)
qed

end
