(* ===== verification/Search.thy ===== *)
theory Search
  imports Soundness
begin

text \<open>
  The search as a whole: more fuel never changes an answer, some fuel is enough whenever the
  proofs of a delegation are ranked below it, the order of the goroutines never matters, and the
  search only fails when there is no chain to find.
\<close>

section \<open>More fuel never changes an answer\<close>

text \<open>Running out of fuel is the least answer, and everything the search is built of is monotone.\<close>

definition comp_le :: "'a comp \<Rightarrow> 'a comp \<Rightarrow> bool" where
  "comp_le a b \<longleftrightarrow> a = Fuel \<or> a = b"

named_theorems comp_mono

lemma comp_le_refl [simp, comp_mono]: "comp_le a a"
  by (simp add: comp_le_def)

lemma comp_le_Fuel [simp]: "comp_le Fuel a"
  by (simp add: comp_le_def)

lemma comp_le_trans: "comp_le a b \<Longrightarrow> comp_le b c \<Longrightarrow> comp_le a c"
  by (auto simp: comp_le_def)

lemma comp_le_answer: "comp_le a b \<Longrightarrow> a \<noteq> Fuel \<Longrightarrow> b = a"
  by (auto simp: comp_le_def)

lemma comp_le_cbind [comp_mono]:
  "comp_le a b \<Longrightarrow> (\<And>x. comp_le (f x) (g x)) \<Longrightarrow> comp_le (cbind a f) (cbind b g)"
  by (cases a; cases b) (auto simp: comp_le_def)

lemma comp_le_cmap [comp_mono]: "comp_le a b \<Longrightarrow> comp_le (cmap f a) (cmap f b)"
  by (auto simp: comp_le_def)

lemma comp_le_case_sum [comp_mono]:
  "(\<And>x. comp_le (f x) (f' x)) \<Longrightarrow> (\<And>x. comp_le (g x) (g' x)) \<Longrightarrow>
     comp_le (case r of Inl x \<Rightarrow> f x | Inr x \<Rightarrow> g x) (case r of Inl x \<Rightarrow> f' x | Inr x \<Rightarrow> g' x)"
  by (cases r) auto

lemma comp_le_case_option [comp_mono]:
  "comp_le a a' \<Longrightarrow> (\<And>x. comp_le (f x) (f' x)) \<Longrightarrow>
     comp_le (case r of None \<Rightarrow> a | Some x \<Rightarrow> f x) (case r of None \<Rightarrow> a' | Some x \<Rightarrow> f' x)"
  by (cases r) auto

lemma comp_le_case_prod [comp_mono]:
  "(\<And>x y. comp_le (f x y) (f' x y)) \<Longrightarrow>
     comp_le (case p of (x, y) \<Rightarrow> f x y) (case p of (x, y) \<Rightarrow> f' x y)"
  by (cases p) auto

lemma comp_le_if [comp_mono]:
  "comp_le a a' \<Longrightarrow> comp_le b b' \<Longrightarrow> comp_le (if c then a else b) (if c then a' else b')"
  by simp

lemma comp_le_cmapM [comp_mono]:
  "(\<And>x. comp_le (f x) (g x)) \<Longrightarrow> comp_le (cmapM f xs) (cmapM g xs)"
  by (induction xs) (auto intro!: comp_mono)

lemma comp_le_validate_loop [comp_mono]:
  "(\<And>x. comp_le (f x) (g x)) \<Longrightarrow> comp_le (validate_loop f ps) (validate_loop g ps)"
  by (induction ps) (auto intro!: comp_mono)

lemma comp_le_authorize_loop [comp_mono]:
  "(\<And>m. comp_le (f m) (g m)) \<Longrightarrow>
     comp_le (authorize_loop f E C as ms) (authorize_loop g E C as ms)"
  by (induction ms) (auto simp: Let_def intro!: comp_mono)

lemma comp_le_claim_loop [comp_mono]:
  "(\<And>m. comp_le (f m) (g m)) \<Longrightarrow> comp_le (claim_loop f E C as ms) (claim_loop g E C as ms)"
  by (induction ms) (auto intro!: comp_mono)

lemma comp_le_Validate [comp_mono]:
  "(\<And>d ps. comp_le (f d ps) (g d ps)) \<Longrightarrow> comp_le (Validate f E C d prfs) (Validate g E C d prfs)"
  unfolding Validate_def VerifyAuthorization_def VerifySession_def Let_def
  by (intro comp_mono)

lemma comp_le_ResolveSources [comp_mono]:
  "(\<And>d ps. comp_le (f d ps) (g d ps)) \<Longrightarrow> comp_le (ResolveSources f E C s) (ResolveSources g E C s)"
  unfolding ResolveSources_def Let_def by (intro comp_mono)

lemma comp_le_Authorize_body [comp_mono]:
  "(\<And>d ps. comp_le (f d ps) (f' d ps)) \<Longrightarrow> (\<And>m. comp_le (g m) (g' m)) \<Longrightarrow>
     comp_le (Authorize_body f g E C m) (Authorize_body f' g' E C m)"
  unfolding Authorize_body_def ResolveMatch_def by (intro comp_mono)

lemma comp_le_Claim_body [comp_mono]:
  "(\<And>d ps. comp_le (f d ps) (f' d ps)) \<Longrightarrow> (\<And>m. comp_le (g m) (g' m)) \<Longrightarrow>
     comp_le (Claim_body f g E C d ps) (Claim_body f' g' E C d ps)"
  unfolding Claim_body_def Let_def by (intro comp_mono)

lemma fuel_step:
  "comp_le (Claim n E C d ps) (Claim (Suc n) E C d ps)"
  "comp_le (Authorize n E C m) (Authorize (Suc n) E C m)"
proof (induction n arbitrary: d ps m)
  case (Suc n)
  {
    case 1
    show ?case
      using comp_le_Claim_body [of "Claim n E C" "Claim (Suc n) E C" "Authorize n E C" "Authorize (Suc n) E C"
          E C d ps] Suc.IH
      by (simp only: Claim.simps(2))
  next
    case 2
    show ?case
      using comp_le_Authorize_body [of "Claim n E C" "Claim (Suc n) E C" "Authorize n E C" "Authorize (Suc n) E C"
          E C m] Suc.IH
      by (simp only: Authorize.simps(2))
  }
qed simp_all

lemma fuel_mono:
  "n \<le> k \<Longrightarrow> comp_le (Claim n E C d ps) (Claim k E C d ps)"
  "n \<le> k \<Longrightarrow> comp_le (Authorize n E C m) (Authorize k E C m)"
  by (induction k rule: dec_induct) (auto intro: comp_le_trans fuel_step simp del: Claim.simps Authorize.simps)


section \<open>Settling\<close>

text \<open>
  A computation settles when it answers, and, in the strict sense, when it does not panic
  either. The two senses share their proofs.
\<close>

definition settles :: "bool \<Rightarrow> 'a comp \<Rightarrow> bool" where
  "settles strict m \<longleftrightarrow> m \<noteq> Fuel \<and> (strict \<longrightarrow> returns m)"

named_theorems settling

lemma settles_Ret [simp, settling]: "settles b (Ret x)"
  by (simp add: settles_def)

lemma settles_cbind [settling]:
  "settles b m \<Longrightarrow> (\<And>x. m = Ret x \<Longrightarrow> settles b (f x)) \<Longrightarrow> settles b (cbind m f)"
  by (cases m) (auto simp: settles_def)

lemma settles_cmap [simp]: "settles b (cmap f m) = settles b m"
  by (simp add: settles_def)

lemma settles_cmapI [settling]: "settles b m \<Longrightarrow> settles b (cmap f m)"
  by simp

lemma settles_case_sum [settling]:
  "(\<And>x. r = Inl x \<Longrightarrow> settles b (f x)) \<Longrightarrow> (\<And>x. r = Inr x \<Longrightarrow> settles b (g x)) \<Longrightarrow>
     settles b (case r of Inl x \<Rightarrow> f x | Inr x \<Rightarrow> g x)"
  by (cases r) auto

lemma settles_case_option [settling]:
  "(r = None \<Longrightarrow> settles b a) \<Longrightarrow> (\<And>x. r = Some x \<Longrightarrow> settles b (f x)) \<Longrightarrow>
     settles b (case r of None \<Rightarrow> a | Some x \<Rightarrow> f x)"
  by (cases r) auto

lemma settles_case_prod [settling]:
  "(\<And>x y. p = (x, y) \<Longrightarrow> settles b (f x y)) \<Longrightarrow> settles b (case p of (x, y) \<Rightarrow> f x y)"
  by (cases p) auto

lemma settles_if [settling]:
  "(c \<Longrightarrow> settles b m) \<Longrightarrow> (\<not> c \<Longrightarrow> settles b m') \<Longrightarrow> settles b (if c then m else m')"
  by simp

lemma settles_le: "comp_le m m' \<Longrightarrow> settles b m \<Longrightarrow> m' = m"
  by (auto simp: comp_le_def settles_def)

text \<open>What settles at some fuel for each element of a list settles at one fuel for all.\<close>

lemma settles_all:
  fixes f :: "nat \<Rightarrow> 'x \<Rightarrow> 'y comp"
  assumes mono: "\<And>n k x. n \<le> k \<Longrightarrow> comp_le (f n x) (f k x)"
    and "\<And>x. x \<in> set xs \<Longrightarrow> \<exists>n. settles b (f n x)"
  shows "\<exists>n. \<forall>k \<ge> n. \<forall>x \<in> set xs. settles b (f k x)"
  using assms(2)
proof (induction xs)
  case (Cons x xs)
  obtain n where n: "\<forall>k \<ge> n. \<forall>x \<in> set xs. settles b (f k x)" using Cons by auto
  obtain m where m: "settles b (f m x)" using Cons.prems by auto
  have "settles b (f k x)" if "m \<le> k" for k
    using settles_le [OF mono [OF that] m] m by simp
  with n show ?case by (intro exI [of _ "max n m"]) (auto simp: max.bounded_iff)
qed simp

section \<open>When the search settles\<close>

text \<open>A verifier may panic on a signature that is cut short, as those of the sources do.\<close>

definition settling_verifier :: "bool \<Rightarrow> extlib \<Rightarrow> verifier \<Rightarrow> bool" where
  "settling_verifier b L v \<longleftrightarrow> (\<forall>m s. settles b (sig_Raw L s) \<longrightarrow> settles b (vf_Verify v m s))"

definition settling_context :: "bool \<Rightarrow> venv \<Rightarrow> claim_context \<Rightarrow> bool" where
  "settling_context b E C \<longleftrightarrow>
     settles b (did_String (ve_L E) (vf_DID (cc_authority C))) \<and>
     settles b (session_audiences E C (cc_authorityProofs C)) \<and>
     settling_verifier b (ve_L E) (cc_authority C) \<and>
     (\<forall>t v. cc_parsePrincipal C t = Inr v \<longrightarrow>
        settling_verifier b (ve_L E) v \<and> settles b (did_String (ve_L E) (vf_DID v))) \<and>
     (\<forall>d k. cc_resolveDIDKey C d = Inr k \<longrightarrow> settles b (did_String (ve_L E) k)) \<and>
     (\<forall>c i. settles b (did_String (ve_L E) i) \<longrightarrow> settles b (cc_canIssue C c i)) \<and> (\<forall>a. settles b (cc_validateAuthorization C a))"

definition settling_parser :: "bool \<Rightarrow> descriptor \<Rightarrow> bool" where
  "settling_parser b desc \<longleftrightarrow> (\<forall>x. settles b (ds_with desc x)) \<and> (\<forall>x. settles b (ds_nb desc x))"

abbreviation prints :: "bool \<Rightarrow> venv \<Rightarrow> delegation \<Rightarrow> bool" where
  "prints b E d \<equiv> settles b (did_String (ve_L E) (dlg_Issuer (ve_L E) d))"

text \<open>
  A delegation is grounded when no chain of its proofs is infinite; strictly, when also every
  delegation below it prints its principals, and has a capability and a readable signature.
\<close>

inductive grounded :: "bool \<Rightarrow> venv \<Rightarrow> claim_context \<Rightarrow> delegation \<Rightarrow> bool" for b E C where
  grounded: "settles b (did_String (ve_L E) (dlg_Issuer (ve_L E) d)) \<Longrightarrow>
     settles b (did_String (ve_L E) (dlg_Audience (ve_L E) d)) \<Longrightarrow>
     settles b (first_of (dlg_Capabilities d)) \<Longrightarrow>
     settles b (sig_Raw (ve_L E) (dlg_Signature d)) \<Longrightarrow>
     (\<And>d'. d' \<in> set (candidates E C d) \<Longrightarrow> grounded b E C d') \<Longrightarrow> grounded b E C d"

lemma settles_VerifySignature:
  assumes "settles b (did_String (ve_L E) (dlg_Issuer (ve_L E) d))"
    and "settles b (did_String (ve_L E) (dlg_Audience (ve_L E) d))"
    and "settles b (sig_Raw (ve_L E) (dlg_Signature d))" "settling_verifier b (ve_L E) v"
  shows "settles b (v_VerifySignature E d v)"
proof -
  have "settles b (verify_payload (ve_L E) (dl_ucan d))"
    using assms(1,2) unfolding verify_payload_def dlg_Issuer_def dlg_Audience_def by (intro settling)
  then show ?thesis
    unfolding v_VerifySignature_def ucan_VerifySignature_def
    by (intro settling assms(4) [unfolded settling_verifier_def, rule_format]
        assms(3) [unfolded dlg_Signature_def])
qed

lemma settles_wrap_verifier:
  "settles b (did_String L (vf_DID v)) \<Longrightarrow> settles b (wrap_verifier L v d)"
  unfolding wrap_verifier_def by (intro settling)

lemma settling_wrapped:
  "wrap_verifier L v d = Ret (Inr w) \<Longrightarrow> settling_verifier b K v \<Longrightarrow> settling_verifier b K w"
  by (auto simp: wrap_verifier_def settling_verifier_def split: if_splits)

lemma settles_session_proofs:
  "(\<And>p. p \<in> set ps \<Longrightarrow> settles b (first_of (dlg_Capabilities p))) \<Longrightarrow> settles b (session_proofs d ps)"
  by (induction ps) (auto intro!: settling)

lemma session_proofs_Ret:
  "session_proofs d ps = Ret as \<Longrightarrow> set as \<subseteq> set ps \<and> length as \<le> length ps \<and>
     (d \<in> set ps \<longrightarrow> length as < length ps)"
proof (induction ps arbitrary: as)
  case (Cons p ps)
  show ?case
  proof (cases "dlg_Link p = dlg_Link d")
    case True
    then show ?thesis using Cons.IH [of as] Cons.prems by auto
  next
    case False
    then obtain rest where "session_proofs d ps = Ret rest" "as = rest \<or> as = p # rest" "p \<noteq> d"
      using Cons.prems by (auto split: if_splits)
    then show ?thesis using Cons.IH [of rest] by auto
  qed
qed simp


lemma settles_session_capability:
  "settling_context b E C \<Longrightarrow> settles b (session_capability E C d)"
  unfolding session_capability_def settling_context_def by (intro settling) blast+

lemma settles_or_loop:
  assumes "\<And>r. r \<in> set rs \<Longrightarrow> \<exists>y. r i = Ret y"
  shows "rs \<noteq> [] \<or> fs \<noteq> [] \<Longrightarrow> settles b (or_loop rs i fs)"
  using assms
proof (induction rs arbitrary: fs)
  case Nil
  then show ?case by (simp add: union_failure_def unionError_Error_def errors_Join_Error_def)
next
  case (Cons r rs)
  then obtain y where "r i = Ret y" by auto
  with Cons show ?case by (cases y) auto
qed

lemma session_capability_parser:
  assumes "session_capability E C d = Ret desc"
  shows "settling_parser b desc"
proof -
  have lits: "settles b (literal_union ss x)" if "ss \<noteq> []" for ss x
  proof -
    have "settles b (or_loop (map Literal ss) x [])"
      by (rule settles_or_loop) (auto simp: Literal_def that)
    with that show ?thesis
      by (cases ss rule: remdups_adj.cases)
         (auto simp: literal_union_def schema_Or_def Literal_def simp del: or_loop.simps)
  qed
  have "settles b (literal_union (ss @ [s]) x)" for ss s x by (rule lits) simp
  then show ?thesis
    using assms
    by (auto simp: session_capability_def settling_parser_def NewCapabilityParser_def
        attestation_reader_def schema_Struct_def)
qed

lemma settles_Validate:
  assumes C: "settling_context b E C" and d: "grounded b E C d"
    and prfs: "\<And>p. p \<in> set prfs \<Longrightarrow> grounded b E C p"
    and claim: "\<And>desc as. session_capability E C d = Ret desc \<Longrightarrow> session_proofs d prfs = Ret as \<Longrightarrow>
          settles b (claim desc (map PDelegation as))"
  shows "settles b (Validate claim E C d prfs)"
proof -
  have g: "settles b (did_String (ve_L E) (dlg_Issuer (ve_L E) d))"
      "settles b (did_String (ve_L E) (dlg_Audience (ve_L E) d))"
      "settles b (sig_Raw (ve_L E) (dlg_Signature d))"
    using d by (auto elim: grounded.cases)
  have c: "settles b (first_of (dlg_Capabilities p))" if "p \<in> set prfs" for p
    using prfs [OF that] by (auto elim: grounded.cases)
  have v: "\<And>t v. cc_parsePrincipal C t = Inr v \<Longrightarrow> settling_verifier b (ve_L E) v"
      "\<And>t v. cc_parsePrincipal C t = Inr v \<Longrightarrow> settles b (did_String (ve_L E) (vf_DID v))"
      "settling_verifier b (ve_L E) (cc_authority C)"
      "\<And>d k. cc_resolveDIDKey C d = Inr k \<Longrightarrow> settles b (did_String (ve_L E) k)"
    using C by (auto simp: settling_context_def)
  show ?thesis
    unfolding Validate_def VerifyAuthorization_def VerifySession_def Let_def
    by (intro settling settles_VerifySignature settles_wrap_verifier settles_session_capability
          settles_session_proofs C g c v(2-4) claim
        | assumption | (rule v(1), assumption) | (rule settling_wrapped, simp, rule v(1), assumption))+
qed

lemma settles_validate_loop:
  "(\<And>p. p \<in> set ps \<Longrightarrow> settles b (v p)) \<Longrightarrow> settles b (validate_loop v ps)"
  by (induction ps) (auto intro!: settling)

lemma settles_ParseCapability: "settling_parser b d \<Longrightarrow> settles b (ParseCapability d s)"
  unfolding ParseCapability_def settling_parser_def Let_def by (intro settling) blast+

lemma settles_ResolveCapability: "settling_parser b d \<Longrightarrow> settles b (ResolveCapability d c s)"
  unfolding ResolveCapability_def settling_parser_def Let_def by (intro settling) blast+

lemma settles_select_loop:
  "(\<And>s. settles b (f s)) \<Longrightarrow> settles b (select_loop f ss)"
  by (induction ss) (auto intro!: settling)

lemma settles_cap_Select: "settling_parser b d \<Longrightarrow> settles b (cap_Select d ss)"
  unfolding cap_Select_def select_source_def cap_Match_def
  by (intro settles_select_loop settling settles_ParseCapability)

lemma settles_match_Select: "settling_parser b (mt_descriptor m) \<Longrightarrow> settles b (match_Select m ss)"
  unfolding match_Select_def match_select_source_def
  by (intro settles_select_loop settling settles_ResolveCapability)

lemma settles_Prune:
  assumes "settling_context b E C" "mt_source m = Ret s" "prints b E (src_delegation s)"
  shows "settles b (match_Prune (ve_L E) (canissuer_CanIssue C) m)"
  using assms by (auto simp: match_Prune_def canissuer_CanIssue_def settling_context_def intro!: settling)


lemma settles_claim_loop:
  assumes "settling_context b E C"
    and "\<And>m. m \<in> set ms \<Longrightarrow>
          settles b (f m) \<and> (\<exists>s. mt_source m = Ret s \<and> prints b E (src_delegation s))"
  shows "settles b (claim_loop f E C as ms)"
  using assms(2)
proof (induction ms)
  case (Cons m ms)
  obtain s where s: "mt_source m = Ret s" "prints b E (src_delegation s)" using Cons.prems by auto
  have v: "settles b (cc_validateAuthorization C a)" for a
    using assms(1) by (simp add: settling_context_def)
  have "settles b (f m)" "settles b (claim_loop f E C as ms)" using Cons by auto
  then show ?case
    unfolding claim_loop.simps by (intro settling settles_Prune [OF assms(1) s] v)
qed simp

lemma settles_authorize_loop:
  assumes "settling_context b E C"
    and "\<And>m. m \<in> set ms \<Longrightarrow>
          settles b (f m) \<and> (\<exists>s. mt_source m = Ret s \<and> prints b E (src_delegation s))"
  shows "settles b (authorize_loop f E C as ms)"
  using assms(2)
proof (induction ms)
  case (Cons m ms)
  obtain s where s: "mt_source m = Ret s" "prints b E (src_delegation s)" using Cons.prems by auto
  have f: "settles b (f sel)" if "match_Prune (ve_L E) (canissuer_CanIssue C) m = Ret (Some sel)" for sel
    using that Cons.prems by (auto simp: match_Prune_Some)
  have "settles b (authorize_loop f E C as ms)" using Cons by auto
  then show ?case
    unfolding authorize_loop.simps Let_def s(1)
    by (intro settling settles_Prune [OF assms(1) s]) (simp_all add: f)
qed simp

definition authorizes :: "bool \<Rightarrow> venv \<Rightarrow> claim_context \<Rightarrow> delegation \<Rightarrow> bool" where
  "authorizes b E C d \<longleftrightarrow>
     (\<forall>m s. mt_sources m = [s] \<longrightarrow> src_delegation s = d \<longrightarrow> settling_parser b (mt_descriptor m) \<longrightarrow>
        (\<exists>n. settles b (Authorize n E C m)))"

text \<open>Some fuel is enough for all the matches a selection returns.\<close>

lemma fuel_for_matches:
  assumes "\<And>m. m \<in> set ms \<Longrightarrow> \<exists>d s. authorizes b E C d \<and> mt_sources m = [s] \<and> src_delegation s = d \<and>
              settling_parser b (mt_descriptor m)"
  shows "\<exists>n. \<forall>k \<ge> n. \<forall>m \<in> set ms. settles b (Authorize k E C m)"
proof (rule settles_all)
  show "\<exists>n. settles b (Authorize n E C m)" if "m \<in> set ms" for m
    using assms [OF that] unfolding authorizes_def by blast
qed (rule fuel_mono)

text \<open>Some fuel is enough to validate all of a pool, once it is for the claims of its sessions.\<close>

lemma fuel_for_validation:
  assumes C: "settling_context b E C" and g: "\<And>d. d \<in> set ds \<Longrightarrow> grounded b E C d"
    and claim: "\<And>d desc as. d \<in> set ds \<Longrightarrow> settling_parser b desc \<Longrightarrow> set as \<subseteq> set ds \<Longrightarrow>
          length as < length ds \<Longrightarrow> \<exists>n. settles b (Claim n E C desc (map PDelegation as))"
  shows "\<exists>n. \<forall>k \<ge> n. settles b (validate_loop (\<lambda>d. Validate (Claim k E C) E C d ds) ds)"
proof -
  have "\<exists>n. \<forall>k \<ge> n. \<forall>d \<in> set ds. settles b (Validate (Claim k E C) E C d ds)"
  proof (rule settles_all)
    show "comp_le (Validate (Claim n E C) E C d ds) (Validate (Claim k E C) E C d ds)" if "n \<le> k" for n k d
      by (intro comp_mono fuel_mono that)
    show "\<exists>n. settles b (Validate (Claim n E C) E C d ds)" if d: "d \<in> set ds" for d
    proof -
      have "\<exists>n. \<forall>desc as. session_capability E C d = Ret desc \<longrightarrow> session_proofs d ds = Ret as \<longrightarrow>
                settles b (Claim n E C desc (map PDelegation as))"
      proof (cases "\<exists>desc as. session_capability E C d = Ret desc \<and> session_proofs d ds = Ret as")
        case True
        then obtain desc as where s: "session_capability E C d = Ret desc" "session_proofs d ds = Ret as"
          by blast
        then show ?thesis
          using claim [OF d session_capability_parser [OF s(1)], of as] session_proofs_Ret [OF s(2)] d
          by auto
      qed blast
      then obtain n where "\<And>desc as. session_capability E C d = Ret desc \<Longrightarrow> session_proofs d ds = Ret as \<Longrightarrow>
                settles b (Claim n E C desc (map PDelegation as))" by blast
      then show ?thesis using settles_Validate [OF C g [OF d] g] by blast
    qed
  qed
  then obtain n where "\<forall>k \<ge> n. \<forall>d \<in> set ds. settles b (Validate (Claim k E C) E C d ds)" by blast
  then show ?thesis by (intro exI [of _ n] allI impI settles_validate_loop) blast
qed

lemma ResolveProofs_delegations [simp]:
  "ResolveProofs r (map PDelegation ds) = (ds, [])"
  by (induction ds) (auto simp: proof_Delegation_def)


definition sources_of :: "(delegation \<times> delegation \<times> authorization option) list \<Rightarrow> vsource list" where
  "sources_of oks =
     concat (map (\<lambda>(prf, validation, a). map (\<lambda>c. NewSource c prf) (dlg_Capabilities validation)) oks)"

text \<open>The matches of a claim whose proofs validate as \<open>v\<close>; none when validation does not answer.\<close>

definition claim_matches ::
    "descriptor \<Rightarrow> ((delegation \<times> delegation \<times> authorization option) list \<times> 'x) comp \<Rightarrow> vmatch list" where
  "claim_matches desc v =
     (case cbind v (\<lambda>p. cap_Select desc (sources_of (fst p))) of Ret p \<Rightarrow> fst p | _ \<Rightarrow> [])"

lemma claim_match_cases:
  assumes "m \<in> set (claim_matches desc (validate_loop v ds))"
  shows "\<exists>p c c'. p \<in> set ds \<and> m = NewMatch (NewSource c p) c' desc"
proof -
  let ?c = "cbind (validate_loop v ds) (\<lambda>p. cap_Select desc (sources_of (fst p)))"
  obtain r where r: "?c = Ret r" and "m \<in> set (fst r)"
    using assms unfolding claim_matches_def by (cases ?c) simp_all
  moreover obtain ms es us where "r = (ms, es, us)" by (rule prod_cases3)
  ultimately obtain oks bads where v: "validate_loop v ds = Ret (oks, bads)"
    and sel: "cap_Select desc (sources_of oks) = Ret (ms, es, us)" and m: "m \<in> set ms"
    by auto
  obtain p d att c c' where "(p, d, att) \<in> set oks" "m = NewMatch (NewSource c p) c' desc"
    using cap_Select_matches [OF sel, of m] m unfolding sources_of_def by fastforce
  then show ?thesis using validate_loop_oks [OF v] by blast
qed

lemma settles_Claim_body:
  assumes C: "settling_context b E C" and desc: "settling_parser b desc"
    and ds: "fst (ResolveProofs (cc_resolveProof C) ps) = ds" "\<And>d. d \<in> set ds \<Longrightarrow> prints b E d"
    and v: "settles b (validate_loop (\<lambda>d. Validate claim E C d ds) ds)"
    and m: "\<And>m. m \<in> set (claim_matches desc (validate_loop (\<lambda>d. Validate claim E C d ds) ds)) \<Longrightarrow>
          settles b (authorize m)"
  shows "settles b (Claim_body claim authorize E C desc ps)"
proof -
  let ?v = "validate_loop (\<lambda>d. Validate claim E C d ds) ds"
  have loop: "settles b (claim_loop authorize E C as ms)"
    if "?v = Ret (oks, bads)" "cap_Select desc (sources_of oks) = Ret (ms, es, us)" for oks bads ms es us as
  proof (rule settles_claim_loop [OF C])
    fix x assume "x \<in> set ms"
    then have "x \<in> set (claim_matches desc ?v)" using that by (simp add: claim_matches_def)
    then show "settles b (authorize x) \<and> (\<exists>s. mt_source x = Ret s \<and> prints b E (src_delegation s))"
      using m claim_match_cases ds(2) by fastforce
  qed
  show ?thesis
    unfolding Claim_body_def Let_def sources_of_def [symmetric]
    by (intro settling settles_cap_Select desc loop | (insert ds v, simp; fail) | simp)+
qed


lemma Claim_settles:
  assumes C: "settling_context b E C"
  shows "fst (ResolveProofs (cc_resolveProof C) ps) = ds \<Longrightarrow>
     (\<And>d. d \<in> set ds \<Longrightarrow> grounded b E C d \<and> authorizes b E C d) \<Longrightarrow> settling_parser b desc \<Longrightarrow>
     \<exists>n. settles b (Claim n E C desc ps)"
proof (induction "length ds" arbitrary: ds ps desc rule: less_induct)
  case less
  let ?V = "\<lambda>k. validate_loop (\<lambda>d. Validate (Claim k E C) E C d ds) ds"
  have nested: "\<exists>n. settles b (Claim n E C desc' (map PDelegation as))"
    if "settling_parser b desc'" "set as \<subseteq> set ds" "length as < length ds" for desc' as
    by (rule less.hyps [of as]) (use that less.prems in auto)
  obtain n1 where n1: "\<And>k. n1 \<le> k \<Longrightarrow> settles b (?V k)"
    using fuel_for_validation [OF C, of ds] less.prems(2) nested by blast
  have V: "?V k = ?V n1" if "n1 \<le> k" for k
    by (rule settles_le [OF _ n1]) (auto intro!: comp_mono fuel_mono that)
  have "\<exists>n. \<forall>k \<ge> n. \<forall>m \<in> set (claim_matches desc (?V n1)). settles b (Authorize k E C m)"
  proof (rule fuel_for_matches)
    fix m assume "m \<in> set (claim_matches desc (?V n1))"
    then show "\<exists>d s. authorizes b E C d \<and> mt_sources m = [s] \<and> src_delegation s = d \<and>
        settling_parser b (mt_descriptor m)"
      using claim_match_cases less.prems(2,3) by fastforce
  qed
  then obtain n2 where n2: "\<And>k m. n2 \<le> k \<Longrightarrow> m \<in> set (claim_matches desc (?V n1)) \<Longrightarrow>
      settles b (Authorize k E C m)" by blast
  define k where "k = max n1 n2"
  have k: "n1 \<le> k" "n2 \<le> k" by (simp_all add: k_def)
  have "settles b (Claim (Suc k) E C desc ps)"
    unfolding Claim.simps
    by (rule settles_Claim_body [OF C less.prems(3,1) _ n1 [OF k(1)]])
       (use n2 [OF k(2)] V [OF k(1)] less.prems(2) in \<open>auto elim: grounded.cases\<close>)
  then show ?case by blast
qed

text \<open>Authorizing a match of a grounded delegation.\<close>

lemma settles_Authorize_body:
  assumes C: "settling_context b E C" and desc: "settling_parser b (mt_descriptor m)"
    and E: "order_ok E" and s: "mt_sources m = [s]"
    and r: "settles b (ResolveSources claim E C s)"
    and a: "\<And>srcs as es ms des us m'. ResolveSources claim E C s = Ret (srcs, as, es) \<Longrightarrow>
          match_Select m srcs = Ret (ms, des, us) \<Longrightarrow> m' \<in> set ms \<Longrightarrow> settles b (authorize m')"
    and p: "\<And>p. p \<in> set (candidates E C (src_delegation s)) \<Longrightarrow> prints b E p"
  shows "settles b (Authorize_body claim authorize E C m)"
proof -
  have loop: "settles b (authorize_loop authorize E C as ms)"
    if "ResolveSources claim E C s = Ret (srcs, as, es)" "match_Select m srcs = Ret (ms, des, us)"
    for srcs as es ms des us
  proof (rule settles_authorize_loop [OF C])
    note rs = that
    fix x assume x: "x \<in> set ms"
    then obtain s' where s': "s' \<in> set srcs" "mt_source x = Ret s'"
      using match_Select_matches [OF rs(2), of x] by auto
    then have "prints b E (src_delegation s')"
      using ResolveSources_Ret(1) [OF rs(1), of s'] p by auto
    then show "settles b (authorize x) \<and> (\<exists>s. mt_source x = Ret s \<and> prints b E (src_delegation s))"
      using a [OF rs x] s'(2) by auto
  qed
  show ?thesis
    unfolding Authorize_body_def ResolveMatch_single [OF E s]
    by (intro settling settles_match_Select desc r loop | simp)+
qed

lemma Authorize_settles:
  assumes C: "settling_context b E C" and E: "order_ok E"
  shows "grounded b E C d \<Longrightarrow> authorizes b E C d"
proof (induction rule: grounded.induct)
  case (grounded d)
  show ?case unfolding authorizes_def
  proof (intro allI impI)
    fix m :: vmatch and s assume m: "mt_sources m = [s]" "src_delegation s = d" "settling_parser b (mt_descriptor m)"
    define ds where "ds = filter (\<lambda>p. dlg_Issuer (ve_L E) d = dlg_Audience (ve_L E) p) (candidates E C d)"
    have g: "grounded b E C p \<and> authorizes b E C p" if "p \<in> set ds" for p
      using grounded that by (simp add: ds_def)
    have pr: "prints b E p" if "p \<in> set (candidates E C d)" for p
      using grounded(5) [OF that] by (auto elim: grounded.cases)
    let ?R = "\<lambda>k. ResolveSources (Claim k E C) E C s"
    have "\<exists>n. settles b (Claim n E C desc (map PDelegation as))"
      if "settling_parser b desc" "set as \<subseteq> set ds" for desc as
      by (rule Claim_settles [OF C, of _ as]) (use that g in auto)
    then obtain n1 where v: "\<And>k. n1 \<le> k \<Longrightarrow> settles b (validate_loop (\<lambda>p. Validate (Claim k E C) E C p ds) ds)"
      using fuel_for_validation [OF C, of ds] g by blast
    have n1: "settles b (?R k)" if "n1 \<le> k" for k
      using v [OF that] m(2) unfolding ResolveSources_def Let_def ds_def candidates_def
      by (auto split: sum.splits prod.splits)
    have R: "?R k = ?R n1" if "n1 \<le> k" for k
      by (rule settles_le [OF _ n1]) (auto intro!: comp_mono fuel_mono that)
    define ms where "ms = (case cbind (?R n1) (\<lambda>p. match_Select m (fst p)) of Ret p \<Rightarrow> fst p | _ \<Rightarrow> [])"
    have "\<exists>n. \<forall>k \<ge> n. \<forall>m \<in> set ms. settles b (Authorize k E C m)"
    proof (rule fuel_for_matches)
      fix m' assume "m' \<in> set ms"
      then obtain r where "cbind (?R n1) (\<lambda>p. match_Select m (fst p)) = Ret r" "m' \<in> set (fst r)"
        unfolding ms_def by (cases "cbind (?R n1) (\<lambda>p. match_Select m (fst p))") simp_all
      moreover obtain ms0 es0 us0 where "r = (ms0, es0, us0)" by (rule prod_cases3)
      ultimately obtain srcs as es ms' des us where r: "?R n1 = Ret (srcs, as, es)"
        and sel: "match_Select m srcs = Ret (ms', des, us)" and "m' \<in> set ms'" by auto
      then obtain s' where s': "s' \<in> set srcs" "derived m s' m'"
        using match_Select_matches [OF sel, of m'] by (auto simp: derived_def)
      have "src_delegation s' \<in> set ds"
        using ResolveSources_Ret(1) [OF r, of s'] s'(1) m(2) by (auto simp: ds_def)
      then show "\<exists>d s. authorizes b E C d \<and> mt_sources m' = [s] \<and> src_delegation s = d \<and>
          settling_parser b (mt_descriptor m')"
        using g s'(2) m(3) by (auto simp: derived_def)
    qed
    then obtain n2 where n2: "\<And>k m. n2 \<le> k \<Longrightarrow> m \<in> set ms \<Longrightarrow> settles b (Authorize k E C m)" by blast
    define k where "k = max n1 n2"
    have k: "n1 \<le> k" "n2 \<le> k" by (simp_all add: k_def)
    have "settles b (Authorize (Suc k) E C m)"
      unfolding Authorize.simps
      by (rule settles_Authorize_body [OF C m(3) E m(1) n1 [OF k(1)]])
         (use n2 [OF k(2)] R [OF k(1)] m(2) pr in \<open>auto simp: ms_def\<close>)
    then show "\<exists>n. settles b (Authorize n E C m)" by blast
  qed
qed


section \<open>Completeness\<close>

text \<open>
  A search fails only when there is nothing to find: \<open>delegable\<close> says which matches have a chain of
  valid, aligned proofs that ends with a principal who may issue the capability.
\<close>

definition aligned_proofs :: "venv \<Rightarrow> claim_context \<Rightarrow> delegation \<Rightarrow> delegation list" where
  "aligned_proofs E C d =
     filter (\<lambda>p. dlg_Issuer (ve_L E) d = dlg_Audience (ve_L E) p) (candidates E C d)"

definition valid_proof :: "venv \<Rightarrow> claim_context \<Rightarrow> delegation \<Rightarrow> delegation list \<Rightarrow> bool" where
  "valid_proof E C p prfs \<longleftrightarrow> (\<exists>n r. Validate (Claim n E C) E C p prfs = Ret (Inr r))"

definition delegated :: "venv \<Rightarrow> claim_context \<Rightarrow> vmatch \<Rightarrow> vmatch \<Rightarrow> bool" where
  "delegated E C m m' \<longleftrightarrow>
     (\<exists>s s'. mt_sources m = [s] \<and> derived m s' m' \<and>
        src_delegation s' \<in> set (aligned_proofs E C (src_delegation s)) \<and>
        src_capability s' \<in> set (dlg_Capabilities (src_delegation s')) \<and>
        valid_proof E C (src_delegation s') (aligned_proofs E C (src_delegation s)))"

definition owned :: "venv \<Rightarrow> claim_context \<Rightarrow> vmatch \<Rightarrow> bool" where
  "owned E C m \<longleftrightarrow> match_Prune (ve_L E) (canissuer_CanIssue C) m = Ret None"

inductive delegable :: "venv \<Rightarrow> claim_context \<Rightarrow> vmatch \<Rightarrow> bool" for E C where
  here: "delegated E C m m' \<Longrightarrow> owned E C m' \<Longrightarrow> delegable E C m"
| there: "delegated E C m m' \<Longrightarrow> delegable E C m' \<Longrightarrow> delegable E C m"

inductive_simps delegable_iff: "delegable E C m"

lemma validate_loop_all:
  "validate_loop v ps = Ret x \<Longrightarrow> p \<in> set ps \<Longrightarrow> \<exists>r. v p = Ret r"
  by (induction ps arbitrary: x) (fastforce split: prod.splits)+

lemma valid_proof_at:
  assumes "Validate (Claim n E C) E C p prfs = Ret r"
  shows "valid_proof E C p prfs \<longleftrightarrow> (\<exists>x. r = Inr x)"
proof
  assume "valid_proof E C p prfs"
  then obtain k x where k: "Validate (Claim k E C) E C p prfs = Ret (Inr x)"
    unfolding valid_proof_def by blast
  have le: "comp_le (Validate (Claim i E C) E C p prfs) (Validate (Claim (max n k) E C) E C p prfs)"
    if "i \<le> max n k" for i
    by (intro comp_mono fuel_mono that)
  have "Ret r = (Ret (Inr x) :: (invalid_proof + (delegation \<times> authorization option)) comp)"
    using le [of n] le [of k] assms k by (auto simp: comp_le_def)
  then show "\<exists>x. r = Inr x" by simp
qed (use assms in \<open>auto simp: valid_proof_def\<close>)

lemma authorize_loop_Inl:
  assumes "authorize_loop f E C as ms = Ret (Inl es)"
  shows "m \<in> set ms \<Longrightarrow> \<not> owned E C m \<and> (\<exists>e. f m = Ret (Inl e))"
  using assms
proof (induction ms arbitrary: es)
  case (Cons x ms)
  then show ?case
    by (auto simp: case_option_eq case_sum_eq case_sum_eq' Let_def match_Prune_Some owned_def)
qed simp

lemma resolve_validates:
  assumes "ResolveSources claim E C s = Ret x"
    and "p \<in> set (aligned_proofs E C (src_delegation s))"
  shows "\<exists>r. Validate claim E C p (aligned_proofs E C (src_delegation s)) = Ret r"
proof (cases "NewBlockReader [] (dlg_Blocks (src_delegation s))")
  case (Inr br)
  then obtain y where "validate_loop (\<lambda>p. Validate claim E C p (aligned_proofs E C (src_delegation s)))
      (aligned_proofs E C (src_delegation s)) = Ret y"
    using assms(1)
    by (auto simp: ResolveSources_def Let_def aligned_proofs_def candidates_def split: prod.splits)
  then show ?thesis using validate_loop_all assms(2) by blast
qed (use assms(2) in \<open>simp add: aligned_proofs_def candidates_def\<close>)

lemma resolved_sources:
  assumes "ResolveSources (Claim n E C) E C s = Ret (srcs, atts, errs)"
  defines "ps \<equiv> aligned_proofs E C (src_delegation s)"
  shows "s' \<in> set srcs \<longleftrightarrow> src_delegation s' \<in> set ps \<and>
           src_capability s' \<in> set (dlg_Capabilities (src_delegation s')) \<and>
           valid_proof E C (src_delegation s') ps"
proof -
  have v: "(\<exists>d a. Validate (Claim n E C) E C p ps = Ret (Inr (d, a))) \<longleftrightarrow> valid_proof E C p ps"
    if "p \<in> set ps" for p
    using resolve_validates [OF assms(1) that [unfolded ps_def]] valid_proof_at [of n E C p ps]
    unfolding ps_def by fastforce
  have id: "s' = NewSource c p \<longleftrightarrow> c = src_capability s' \<and> p = src_delegation s'" for c p
    by (cases s') (simp add: NewSource_def, blast)
  have "s' \<in> set srcs \<longleftrightarrow>
          (\<exists>p d a c. p \<in> set ps \<and> Validate (Claim n E C) E C p ps = Ret (Inr (d, a)) \<and>
             c \<in> set (dlg_Capabilities p) \<and> s' = NewSource c p)"
    using ResolveSources_Ret(1) [OF assms(1), of s'] unfolding aligned_proofs_def ps_def .
  also have "\<dots> \<longleftrightarrow> src_delegation s' \<in> set ps \<and>
          src_capability s' \<in> set (dlg_Capabilities (src_delegation s')) \<and>
          (\<exists>d a. Validate (Claim n E C) E C (src_delegation s') ps = Ret (Inr (d, a)))"
    unfolding id by blast
  also have "\<dots> \<longleftrightarrow> src_delegation s' \<in> set ps \<and>
          src_capability s' \<in> set (dlg_Capabilities (src_delegation s')) \<and>
          valid_proof E C (src_delegation s') ps"
    by (rule conj_cong [OF refl], rule conj_cong [OF refl], rule v)
  finally show ?thesis .
qed

lemma Authorize_complete:
  assumes E: "order_ok E"
  shows "mt_sources m = [s] \<Longrightarrow> Authorize n E C m = Ret r \<Longrightarrow> (\<exists>a. r = Inr a) \<longleftrightarrow> delegable E C m"
proof (induction n arbitrary: m s r)
  case (Suc n)
  obtain srcs atts errs ms es us r' where
    rs: "ResolveSources (Claim n E C) E C s = Ret (srcs, atts, errs)"
    and sel: "match_Select m srcs = Ret (ms, es, us)"
    and loop: "authorize_loop (Authorize n E C) E C atts ms = Ret r'"
    and r: "(\<exists>a. r = Inr a) \<longleftrightarrow> (\<exists>a. r' = Inr a)"
    using Suc.prems by (auto simp: Authorize_body_def ResolveMatch_single [OF E] case_sum_eq'
        split: sum.splits)
  have ms: "m' \<in> set ms \<longleftrightarrow> delegated E C m m'" for m'
  proof -
    have "m' \<in> set ms \<longleftrightarrow> (\<exists>s' \<in> set srcs. derived m s' m')"
      using match_Select_matches [OF sel, of m'] by (simp add: derived_def)
    then show ?thesis
      unfolding delegated_def Bex_def resolved_sources [OF rs] Suc.prems(1) by auto
  qed
  have ih: "(\<exists>a. x = Inr a) \<longleftrightarrow> delegable E C m'" if "m' \<in> set ms" "Authorize n E C m' = Ret x" for m' x
  proof -
    have "delegated E C m m'" using that(1) ms by simp
    then obtain s' where "mt_sources m' = [s']" by (auto simp: delegated_def derived_def)
    then show ?thesis using Suc.IH that(2) by blast
  qed
  show ?case
  proof (cases r')
    case (Inl es')
    have "\<not> owned E C m' \<and> \<not> delegable E C m'" if "delegated E C m m'" for m'
      using authorize_loop_Inl [OF loop [unfolded Inl]] ih ms that by fastforce
    then show ?thesis using r Inl by (auto simp: delegable_iff [of E C m])
  next
    case (Inr a)
    then obtain m' where "m' \<in> set ms" "owned E C m' \<or> (\<exists>a. Authorize n E C m' = Ret (Inr a))"
      using authorize_loop_Inr loop unfolding owned_def by blast
    then have "delegable E C m" using ms ih by (blast intro: here there)
    then show ?thesis using r Inr by auto
  qed
qed simp


lemma claim_loop_Inl:
  assumes "claim_loop f E C as ms = Ret (Inl es)" and "\<And>a. cc_validateAuthorization C a = Ret None"
  shows "m \<in> set ms \<Longrightarrow> \<not> owned E C m \<and> (\<exists>e. f m = Ret (Inl e))"
  using assms(1)
proof (induction ms arbitrary: es)
  case (Cons x ms)
  then show ?case
    by (auto simp: assms(2) case_option_eq case_sum_eq case_sum_eq' owned_def)
qed simp

text \<open>The capabilities of the invocation that are of the asked-for kind, as matches.\<close>

definition invoked :: "venv \<Rightarrow> claim_context \<Rightarrow> descriptor \<Rightarrow> delegation \<Rightarrow> vmatch \<Rightarrow> bool" where
  "invoked E C cap d m \<longleftrightarrow>
     valid_proof E C d [d] \<and>
     (\<exists>c c'. c \<in> set (dlg_Capabilities d) \<and> ParseCapability cap (NewSource c d) = Ret (Inr c') \<and>
        m = NewMatch (NewSource c d) c' cap)"

lemma Access_complete:
  assumes E: "order_ok E" and nr: "\<And>a. cc_validateAuthorization C a = Ret None"
    and a: "Access n E C cap d = Ret r"
  shows "(\<exists>a. r = Inr a) \<longleftrightarrow> (\<exists>m. invoked E C cap d m \<and> (owned E C m \<or> delegable E C m))"
proof (cases n)
  case (Suc k)
  have rp: "ResolveProofs (cc_resolveProof C) [PDelegation d] = ([d], [])"
    using ResolveProofs_delegations [of _ "[d]"] by simp
  obtain oks bads ms es us r' where
    v: "validate_loop (\<lambda>p. Validate (Claim k E C) E C p [d]) [d] = Ret (oks, bads)"
    and sel: "cap_Select cap (sources_of oks) = Ret (ms, es, us)"
    and loop: "claim_loop (Authorize k E C) E C (attestations_of oks) ms = Ret r'"
    and r: "(\<exists>a. r = Inr a) \<longleftrightarrow> (\<exists>a. r' = Inr a)"
    using a unfolding Access_def Suc Claim.simps Claim_body_def rp Let_def sources_of_def
    by (auto simp: case_sum_eq' split: sum.splits simp del: validate_loop.simps)
  obtain vr where vr: "Validate (Claim k E C) E C d [d] = Ret vr" using v by auto
  have d': "d' = d" if "Validate (Claim k E C) E C d [d] = Ret (Inr (d', att))" for d' att
    using VerifyAuthorization_Inr Validate_Inr that by blast
  have src: "s' \<in> set (sources_of oks) \<longleftrightarrow>
      (\<exists>att c. Validate (Claim k E C) E C d [d] = Ret (Inr (d, att)) \<and> c \<in> set (dlg_Capabilities d) \<and>
         s' = NewSource c d)" for s'
    using validate_loop_oks [OF v] d' unfolding sources_of_def by fastforce
  have "valid_proof E C d [d] \<longleftrightarrow> (\<exists>att. Validate (Claim k E C) E C d [d] = Ret (Inr (d, att)))"
    using valid_proof_at [OF vr] vr d' by auto
  then have ms: "m \<in> set ms \<longleftrightarrow> invoked E C cap d m" for m
    unfolding invoked_def cap_Select_matches [OF sel, of m] Bex_def src by blast
  have ih: "(\<exists>a. x = Inr a) \<longleftrightarrow> delegable E C m" if "m \<in> set ms" "Authorize k E C m = Ret x" for m x
  proof -
    have "invoked E C cap d m" using that(1) ms by simp
    then obtain s where "mt_sources m = [s]" by (auto simp: invoked_def)
    then show ?thesis by (rule Authorize_complete [OF E _ that(2)])
  qed
  show ?thesis
  proof (cases r')
    case (Inl es')
    have "\<not> owned E C m \<and> \<not> delegable E C m" if "invoked E C cap d m" for m
      using claim_loop_Inl [OF loop [unfolded Inl] nr] ih ms that by fastforce
    then show ?thesis using r Inl by auto
  next
    case (Inr x)
    then obtain m where "m \<in> set ms" "owned E C m \<or> (\<exists>a. Authorize k E C m = Ret (Inr a))"
      using claim_loop_Inr loop unfolding owned_def by blast
    then have "invoked E C cap d m \<and> (owned E C m \<or> delegable E C m)" using ms ih by blast
    then show ?thesis using r Inr by auto
  qed
qed (use a in \<open>simp add: Access_def\<close>)


section \<open>The order of the goroutines\<close>

lemma reordered [simp]:
  "ve_L (E\<lparr> ve_order := f \<rparr>) = ve_L E" "ve_U (E\<lparr> ve_order := f \<rparr>) = ve_U E"
  by simp_all

lemma reordered_session: "session_audiences (E\<lparr> ve_order := f \<rparr>) C ps = session_audiences E C ps"
proof (induction ps)
  case (Cons p ps)
  show ?case unfolding session_audiences.simps reordered Cons.IH by (rule refl)
qed simp

lemma reordered_Validate: "Validate claim (E\<lparr> ve_order := f \<rparr>) C d prfs = Validate claim E C d prfs"
  unfolding Validate_def VerifyAuthorization_def VerifySession_def session_capability_def
    v_VerifySignature_def reordered reordered_session by (rule refl)

lemma reordered_sources: "ResolveSources claim (E\<lparr> ve_order := f \<rparr>) C s = ResolveSources claim E C s"
  unfolding ResolveSources_def reordered reordered_Validate by (rule refl)

lemma reordered_authorize_loop:
  "(\<And>m. m \<in> set ms \<Longrightarrow> g m = h m) \<Longrightarrow>
     authorize_loop g (E\<lparr> ve_order := f \<rparr>) C as ms = authorize_loop h E C as ms"
proof (induction ms)
  case (Cons m ms)
  have "match_Prune (ve_L E) (canissuer_CanIssue C) m = Ret (Some sel) \<Longrightarrow> g sel = h sel" for sel
    using Cons.prems by (auto simp: match_Prune_Some)
  moreover have "authorize_loop g (E\<lparr> ve_order := f \<rparr>) C as ms = authorize_loop h E C as ms"
    using Cons by simp
  ultimately show ?case
    unfolding authorize_loop.simps Let_def reordered
    by (intro cbind_cong refl) (auto split: option.splits)
qed simp

lemma reordered_claim_loop:
  "(\<And>m. m \<in> set ms \<Longrightarrow> g m = h m) \<Longrightarrow>
     claim_loop g (E\<lparr> ve_order := f \<rparr>) C as ms = claim_loop h E C as ms"
proof (induction ms)
  case (Cons m ms)
  then have g: "g m = h m" and ih: "claim_loop g (E\<lparr> ve_order := f \<rparr>) C as ms = claim_loop h E C as ms"
    by simp_all
  show ?case unfolding claim_loop.simps reordered g ih by (rule refl)
qed simp

lemma reordered_search:
  assumes "order_ok E" "order_ok (E\<lparr> ve_order := f \<rparr>)"
  shows "Claim n (E\<lparr> ve_order := f \<rparr>) C desc ps = Claim n E C desc ps"
    and "mt_sources m = [s] \<Longrightarrow> Authorize n (E\<lparr> ve_order := f \<rparr>) C m = Authorize n E C m"
proof (induction n arbitrary: desc ps m s)
  case (Suc n)
  note ih = Suc.IH
  have c: "Claim n (E\<lparr> ve_order := f \<rparr>) C = Claim n E C" using ih(1) by (simp add: fun_eq_iff)
  {
    case 1
    have "claim_loop (Authorize n (E\<lparr> ve_order := f \<rparr>) C) (E\<lparr> ve_order := f \<rparr>) C as ms =
          claim_loop (Authorize n E C) E C as ms"
      if "cap_Select desc srcs = Ret (ms, es, us)" for srcs ms es us as
      using cap_Select_matches [OF that] ih(2) by (intro reordered_claim_loop) auto
    then show ?case
      unfolding Claim.simps Claim_body_def Let_def c reordered_Validate
      by (intro cbind_cong refl prod.case_cong) auto
  next
    case 2
    have "authorize_loop (Authorize n (E\<lparr> ve_order := f \<rparr>) C) (E\<lparr> ve_order := f \<rparr>) C as ms =
          authorize_loop (Authorize n E C) E C as ms"
      if "match_Select m srcs = Ret (ms, es, us)" for srcs ms es us as
      using match_Select_matches [OF that] ih(2) by (intro reordered_authorize_loop) auto
    then show ?case
      unfolding Authorize.simps Authorize_body_def c reordered_sources
        ResolveMatch_single [OF assms(1) 2] ResolveMatch_single [OF assms(2) 2]
      by (intro cbind_cong refl prod.case_cong) auto
  }
qed simp_all


section \<open>Properties\<close>

text \<open>
  C3. The search decides. When no chain of proofs below the invocation is infinite and the
  callbacks answer, some fuel is enough for \<open>Access\<close>, and more does not change the answer. When, in
  addition, the callbacks do not panic, every delegation below the invocation has a capability and
  a readable signature, and the DIDs that are printed are defined, the answer is not a panic.
\<close>

theorem access_settles:
  assumes "order_ok E" "settling_context b E C" "settling_parser b cap" "grounded b E C ivk"
  shows "\<exists>n r. r \<noteq> Fuel \<and> (\<not> b \<or> returns r) \<and> (\<forall>k \<ge> n. Access k E C cap ivk = r)"
proof -
  have rp: "ResolveProofs (cc_resolveProof C) [PDelegation ivk] = ([ivk], [])"
    using ResolveProofs_delegations [of _ "[ivk]"] by simp
  obtain n where n: "settles b (Access n E C cap ivk)"
    using Claim_settles [OF assms(2), of "[PDelegation ivk]" "[ivk]"] rp assms(3,4)
      Authorize_settles [OF assms(2,1)]
    by (auto simp: Access_def)
  have "Access k E C cap ivk = Access n E C cap ivk" if "n \<le> k" for k
    using settles_le [OF fuel_mono(1) [OF that] n [unfolded Access_def]] by (simp add: Access_def)
  with n show ?thesis unfolding settles_def by blast
qed

lemma grounded1:
  assumes "um_Prf (dl_ucan d) = []" "dlg_Capabilities d \<noteq> []"
    and "dlg_Issuer lib0 d = did0 i" "dlg_Audience lib0 d = did0 a"
    and "settles b (sig_Raw lib0 (dlg_Signature d))"
  shows "grounded b venv0 C d"
proof (rule grounded)
  show "settles b (first_of (dlg_Capabilities d))"
    using assms(2) by (cases "dlg_Capabilities d") simp_all
  show "grounded b venv0 C p" if "p \<in> set (candidates venv0 C d)" for p
    using that assms(1)
    by (simp add: candidates_def NewProofsView_def dlg_Proofs_def ucan_Proofs_def split: sum.splits)
qed (use assms(3-5) string_did0 in \<open>auto simp: venv0_fields\<close>)

lemma verifier0_settles: "settling_verifier True lib0 (verifier0 d)"
proof -
  have "length pub0 = uv_size lib0 edv_Code + 32"
    using varint_length [OF lib0_varint_ok, of edv_Code]
    by (simp add: pub0_def edv_Code_def MaxUvarint_def)
  then show ?thesis
    by (auto simp: settling_verifier_def verifier0_def edv_verifier_def edv_Verify_def intro!: settling)
qed

lemma vf_DID_verifier0: "vf_DID (verifier0 d) = d"
  by (simp add: verifier0_def)

lemma ctx1_settles: "settling_context True venv0 ctx1"
  using verifier0_settles string_did0 vf_DID_verifier0
  by (auto simp: settling_context_def ctx1_def NewClaimContext_def IsSelfIssued_def venv0_fields
      FailDIDKeyResolution_def)


lemma verified_signature_readable:
  "ucan_VerifySignature lib0 U u (verifier0 i) = Ret (Inr True) \<Longrightarrow> settles b (sig_Raw lib0 (ucan_Signature u))"
  by (auto simp: ucan_VerifySignature_def verifier0_def edv_verifier_def edv_Verify_def case_sum_eq
      split: if_splits)

theorem access_settles_witness:
  "\<exists>ivk n a. grounded True venv0 ctx1 ivk \<and> (\<forall>k \<ge> n. Access k venv0 ctx1 ds0 ivk = Ret a)"
proof -
  obtain v where v: "ucan_VerifySignature lib0 ucanlib0 v (verifier0 (did0 ''s'')) = Ret (Inr True)"
    "ucan_Issuer lib0 v = did0 ''s''" "ucan_Audience lib0 v = did0 ''s''"
    "ucan_Capabilities v = [Ucan.NewCapability ''store/add'' ''did:web:s'' (GNode (NMap []))]"
    "um_Prf v = []"
    using issued0 [of "''s''" "''s''" "''store/add''" "''did:web:s''" "[]"] by blast
  have g: "grounded True venv0 ctx1 (dlg0 ''i'' v)"
    using verified_signature_readable [OF v(1)] v
    by (intro grounded1 [of _ "''s''" "''s''"])
       (simp_all add: dlg0_def dlg_Issuer_def dlg_Audience_def dlg_Capabilities_def dlg_Signature_def)
  have p: "settling_parser True ds0"
    by (simp add: settling_parser_def ds0_def NewCapabilityParser_def anywith_def anynb_def)
  obtain n r where "returns r" "\<forall>k \<ge> n. Access k venv0 ctx1 ds0 (dlg0 ''i'' v) = r"
    using access_settles [OF order_ok0 ctx1_settles p g] by blast
  with g show ?thesis by (auto simp: returns_iff)
qed

text \<open>
  C2. The search is complete. When no authorization is revoked and \<open>Access\<close> answers, it answers with
  an authorization exactly if a capability of the invocation that parses as the asked-for one may
  be issued by the invocation's issuer, or has a chain of valid, aligned proofs that derive it from
  one whose issuer may issue it.
\<close>

theorem access_complete:
  assumes "order_ok E" and "\<And>a. cc_validateAuthorization C a = Ret None"
    and "Access n E C cap ivk = Ret r"
  shows "(\<exists>a. r = Inr a) \<longleftrightarrow> (\<exists>m. invoked E C cap ivk m \<and> (owned E C m \<or> delegable E C m))"
  by (rule Access_complete [OF assms])

theorem access_complete_witness:
  "\<exists>d ivk m. invoked venv0 (ctx0 d) ds0 ivk m \<and> (owned venv0 (ctx0 d) m \<or> delegable venv0 (ctx0 d) m)"
proof -
  obtain d ivk a where a: "Access 2 venv0 (ctx0 d) ds0 ivk = Ret (Inr a)" using search0 by (elim exE conjE)
  have "cc_validateAuthorization (ctx0 d) x = Ret None" for x by (simp add: ctx0_def NewClaimContext_def)
  from access_complete [OF order_ok0 this a] show ?thesis by blast
qed



text \<open>
  The proofs that \<open>VerifySession\<close> claims an attestation from: the \<open>ucan/attest\<close> delegations of the
  pool other than the delegation itself. A delegation of the pool without capabilities panics it,
  whoever issued that delegation.
\<close>

lemma session_proofs_outcome:
  "session_proofs d ps =
     (if \<exists>p \<in> set ps. dlg_Link p \<noteq> dlg_Link d \<and> dlg_Capabilities p = []
      then Panic ''index out of range''
      else Ret (filter (\<lambda>p. dlg_Link p \<noteq> dlg_Link d \<and> cp_Can (hd (dlg_Capabilities p)) = ''ucan/attest'') ps))"
proof (induction ps)
  case (Cons p ps)
  show ?case
  proof (cases "dlg_Capabilities p")
    case Nil
    then show ?thesis using Cons.IH by simp
  next
    case (Cons c cs)
    then show ?thesis using Cons.IH by simp
  qed
qed simp

lemma session_audiences_Ret:
  assumes "session_audiences E C ps = Ret auds" "did_String (ve_L E) (vf_DID (cc_authority C)) = Ret own"
    and "t \<in> set auds"
  shows "(\<exists>p \<in> set ps. \<exists>cap rest. dlg_Capabilities p = cap # rest \<and> cp_Can cap = ''ucan/attest'' \<and> cp_With cap = own \<and>
        did_String (ve_L E) (dlg_Audience (ve_L E) p) = Ret t)"
  using assms(1,3)
proof (induction ps arbitrary: auds)
  case (Cons p ps)
  obtain cap rest as where p: "dlg_Capabilities p = cap # rest" "session_audiences E C ps = Ret as"
    using Cons.prems(1) by (cases "dlg_Capabilities p") auto
  show ?case
  proof (cases "t \<in> set as")
    case True
    then show ?thesis using Cons.IH [OF p(2)] by auto
  next
    case False
    then show ?thesis using Cons.prems p assms(2) by (auto split: if_splits)
  qed
qed simp

lemma attestation_read:
  assumes "bindnode_ok L" "attestation_reader L l nb = Ret (Inr v)"
  shows "v = GAttestation l"
  using assms by (auto simp: attestation_reader_def schema_Struct_def bindnode_ok_def split: sum.splits if_splits)

text \<open>
  C37. What a session is recognised by. When \<open>VerifySession\<close> accepts a delegation, it does so by another
  delegation of the pool, whose \<open>ucan/attest\<close> capability attests this very delegation, for the authority
  or for a principal that one of the authority's own proofs makes an attestor; the attestation itself
  rests on a chain of delegations in force down to one whose issuer may issue that capability, and it
  was not revoked.
\<close>

theorem session_recognised:
  assumes "order_ok E" and "bindnode_ok (ve_L E)"
    and "VerifySession (Claim n E C) E C d prfs = Ret (Inr a)"
  shows "auth_dlg a \<in> set prfs \<and> dlg_Link (auth_dlg a) \<noteq> dlg_Link d \<and>
         cp_Can (auth_Capability a) = ''ucan/attest'' \<and> cp_Nb (auth_Capability a) = GAttestation (dlg_Link d) \<and>
         (\<exists>own. did_String (ve_L E) (vf_DID (cc_authority C)) = Ret own \<and>
            (cp_With (auth_Capability a) = own \<or>
             (\<exists>p \<in> set (cc_authorityProofs C). \<exists>cap rest. dlg_Capabilities p = cap # rest \<and>
                cp_Can cap = ''ucan/attest'' \<and> cp_With cap = own \<and>
                did_String (ve_L E) (dlg_Audience (ve_L E) p) = Ret (cp_With (auth_Capability a))))) \<and>
         list_all (in_force E C) (auth_chain a) \<and> successively (passed_on E C) (auth_chain a) \<and>
         issued_by_owner E C (last (auth_chain a)) \<and> cc_validateAuthorization C a = Ret None"
proof -
  obtain desc aprfs where desc: "session_capability E C d = Ret desc"
    and ap: "session_proofs d prfs = Ret aprfs"
    and cl: "Claim n E C desc (map PDelegation aprfs) = Ret (Inr a)"
    using assms(3) by (auto simp: VerifySession_def)
  obtain auds own where auds: "session_audiences E C (cc_authorityProofs C) = Ret auds"
    and own: "did_String (ve_L E) (vf_DID (cc_authority C)) = Ret own"
    and ds: "desc = NewCapabilityParser ''ucan/attest'' (literal_union (auds @ [own]))
               (attestation_reader (ve_L E) (dlg_Link d)) (Some attestation_derives)"
    using desc by (auto simp: session_capability_def)
  note chain = claimed_chain [OF search_sound(1) [OF assms(1) cl]]
  obtain s where "mt_source (au_match a) = Ret s" "src_delegation s \<in> set aprfs"
    using claim_of_proofs [OF cl] by (auto simp: ResolveProofs_delegations)
  then have pool: "auth_dlg a \<in> set aprfs" by (simp add: auth_dlg_def auth_source_def mt_source_hd)
  have parsed: "cp_Can (auth_Capability a) = ''ucan/attest''" "cp_With (auth_Capability a) \<in> set (auds @ [own])"
    "cp_Nb (auth_Capability a) = GAttestation (dlg_Link d)"
    using chain attestation_read [OF assms(2)]
    by (auto simp: ParseCapability_Inr ds NewCapabilityParser_def Ucan.NewCapability_def lits.read_iff)
  show ?thesis
    using chain parsed pool own session_audiences_Ret [OF auds own, of "cp_With (auth_Capability a)"] ap
    by (auto simp: session_proofs_outcome split: if_splits)
qed

text \<open>An attestation of the authority \<open>did:web:s\<close> for a delegation of a principal with no key of its own.\<close>

theorem session_recognised_witness:
  "\<exists>d p a. VerifySession (Claim 1 venv0 ctx1) venv0 ctx1 d [d, p] = Ret (Inr a) \<and> auth_dlg a = p \<and> dlg_Link d = ''d'' \<and>
     dlg_Issuer lib0 d = did0 ''m'' \<and> cp_Nb (auth_Capability a) = GAttestation ''d'' \<and> cp_With (auth_Capability a) = ''did:web:s''"
proof -
  let ?cap = "Ucan.NewCapability ''ucan/attest'' ''did:web:s'' (GNode (NMap [(''proof'', NLink ''d'')]))"
  let ?att = "[?cap]"
  obtain u where u: "ucan_Issuer lib0 u = did0 ''m''" "ucan_Capabilities u \<noteq> []"
    using issued0 [of "''m''" "''s''" "''store/add''" "''did:web:m''" "[]"] by auto
  obtain v where v: "ucan_VerifySignature lib0 ucanlib0 v (verifier0 (did0 ''s'')) = Ret (Inr True)"
    "ucan_Issuer lib0 v = did0 ''s''" "ucan_Capabilities v = ?att" "um_Exp v = None" "um_Nbf v = None"
    using issued_with [OF wf_did0 wf_did0, of "[WithNoExpiration]" 0 "''s''" "''m''" "''ucan/attest''" "''did:web:s''" "''t''" "[(''proof'', NLink ''d'')]"]
    by (auto simp: ucanConfig0_def issue_exp_def)
  let ?d = "dlg0 ''d'' u" and ?p = "dlg0 ''p'' v"
  have l: "dlg_Link ?d = ''d''" "dlg_Link ?p = ''p''" by (simp_all add: dlg0_def dlg_Link_def NewBlock_def)
  have caps: "dlg_Capabilities ?p = ?att" using v(3) by (simp add: dlg_Capabilities_def dlg0_def)
  have val: "Validate f venv0 ctx1 ?p prfs = Ret (Inr (?p, None))" for f prfs
    using v by (simp add: Validate_def ctx1_def NewClaimContext_def NotExpiredNotTooEarly_def dlg0_def
        IsExpired_def IsTooEarly_def ucan_Expiration_def ucan_NotBefore_def VerifyAuthorization_def
        venv0_def dlg_Issuer_def string_did0 HasPrefix_def verifier0_def v_VerifySignature_def)
  let ?ds = "NewCapabilityParser ''ucan/attest'' (literal_union [''did:web:s'']) (attestation_reader lib0 ''d'') (Some attestation_derives)"
  let ?c = "Ucan.NewCapability ''ucan/attest'' ''did:web:s'' (GAttestation ''d'')"
  let ?m = "NewMatch (NewSource ?cap ?p) ?c ?ds"
  have sc: "session_capability venv0 ctx1 ?d = Ret ?ds"
    by (simp add: session_capability_def ctx1_def NewClaimContext_def venv0_fields verifier0_def edv_verifier_def string_did0 l)
  have sp: "session_proofs ?d [?d, ?p] = Ret [?p]"
    by (simp add: l caps Ucan.NewCapability_def)
  have nb: "attestation_reader lib0 ''d'' (GNode (NMap [(''proof'', NLink ''d'')])) = Ret (Inr (GAttestation ''d''))"
    by (simp add: attestation_reader_def schema_Struct_def any_node_def lib0_def attestation_link_def)
  have sel: "cap_Select ?ds (map (\<lambda>c. NewSource c ?p) (dlg_Capabilities ?p)) = Ret ([?m], [], [])"
    using nb by (simp add: caps cap_Select_def select_source_def cap_Match_def ParseCapability_def
        Let_def Ucan.NewCapability_def NewCapabilityParser_def literal_union_def Literal_def)
  have can: "match_Prune lib0 (canissuer_CanIssue ctx1) ?m = Ret None"
    using v(2) by (simp add: match_Prune_def canissuer_CanIssue_def ctx1_def NewClaimContext_def
        Ucan.NewCapability_def IsSelfIssued_def dlg_Issuer_def dlg0_def string_did0)
  have rp: "ResolveProofs (cc_resolveProof ctx1) [PDelegation ?p] = ([?p], [])"
    by (simp add: proof_Delegation_def)
  have vs: "VerifySession (Claim 1 venv0 ctx1) venv0 ctx1 ?d [?d, ?p] = Ret (Inr (Authorization ?m [] []))"
    by (simp add: VerifySession_def sc sp Claim_body_def rp val sel can attestations_of_def List.map_filter_def
        venv0_fields NewAuthorization_def Let_def del: ResolveProofs.simps session_proofs.simps)
      (simp add: ctx1_def NewClaimContext_def)
  have d: "auth_dlg (Authorization ?m [] []) = ?p" "dlg_Issuer lib0 ?d = did0 ''m''"
      "cp_With (auth_Capability (Authorization ?m [] [])) = ''did:web:s''"
    using u by (simp_all add: auth_dlg_def auth_source_def auth_Capability_def Ucan.NewCapability_def dlg_Issuer_def dlg0_def)
  have "cp_Nb (auth_Capability (Authorization ?m [] [])) = GAttestation ''d''"
    using session_recognised [OF order_ok0 _ vs] lib0_bindnode_ok l(1) by (simp add: venv0_fields)
  with vs d l show ?thesis by (intro exI conjI)
qed

end
