(* ===== verification/Pruning.thy ===== *)
theory Pruning
  imports Search
begin

text \<open>
  validator/proof_pruning.go and validator/util.go: selecting the proofs a delegation needs from
  a pool, by claiming its capability from a draft and walking the authorization that comes back.
\<close>

section \<open>Combinations and intersections\<close>

definition combine :: "'a list list \<Rightarrow> 'a list list comp" where
  "combine dataset =
     cmap (\<lambda>first.
       foldl (\<lambda>tuples values. concat (map (\<lambda>value. map (\<lambda>tuple. tuple @ [value]) tuples) values))
             (map (\<lambda>value. [value]) first) (tl dataset))
       (first_of dataset)"

definition intersection :: "'a list \<Rightarrow> 'a list \<Rightarrow> 'a list" where
  "intersection left right = filter (\<lambda>v. v \<in> set left) right"

section \<open>Selecting the proofs of an authorization\<close>

text \<open>
  The walk: an authorization, the proofs below it and its attestations, each delegation the first
  time its link is seen.
\<close>

type_synonym walked = "link set \<times> delegation list"

fun walk :: "authorization \<Rightarrow> walked \<Rightarrow> walked comp"
and walk_all :: "authorization list \<Rightarrow> walked \<Rightarrow> walked comp" where
  "walk (Authorization m ps as) st =
     cbind (auth_Delegation (Authorization m ps as)) (\<lambda>d.
       let cid = dlg_Link d;
           st' = (if cid \<in> fst st then st else (insert cid (fst st), snd st @ [d]))
       in cbind (walk_all ps st') (walk_all as))"
| "walk_all [] st = Ret st"
| "walk_all (a # as) st = cbind (walk a st) (walk_all as)"

definition selectProofs ::
    "nat \<Rightarrow> venv \<Rightarrow> claim_context \<Rightarrow> descriptor \<Rightarrow> dproof list \<Rightarrow> (unauthorized + delegation list) comp" where
  "selectProofs n E C capability proofs =
     cbind (Claim n E C capability proofs) (\<lambda>r. case r of
       Inl err \<Rightarrow> Ret (Inl err)
     | Inr auth \<Rightarrow> cmap (\<lambda>st. Inr (snd st)) (walk (ConvertUnknownAuthorization auth) ({}, [])))"

section \<open>Pruning\<close>

text \<open>
  A selected delegation over a fresh store of the blocks it exports. \<open>n\<close> is the fuel of the export.
\<close>

definition reexport :: "nat \<Rightarrow> venv \<Rightarrow> descriptor \<Rightarrow> delegation \<Rightarrow> (unauthorized + dproof) comp" where
  "reexport n E capability d =
     cmap (\<lambda>seq.
       case NewBlockStore [] seq of
         Inl err \<Rightarrow> Inl (NewUnauthorizedError capability [] [] [NewUnavailableProofError (dlg_Link d) (Some err)] [])
       | Inr bs \<Rightarrow>
           (case NewDelegation (ve_L E) (ve_U E) (dl_rt d) bs of
              Inl err \<Rightarrow> Inl (NewUnauthorizedError capability [] [] [NewUnavailableProofError (dlg_Link d) (Some err)] [])
            | Inr exported \<Rightarrow> Inr (PDelegation exported)))
       (dlg_Export n (ve_L E) (ve_U E) [] d)"

fun reexport_all ::
    "nat \<Rightarrow> venv \<Rightarrow> descriptor \<Rightarrow> link \<Rightarrow> delegation list \<Rightarrow> (unauthorized + dproof list) comp" where
  "reexport_all n E capability dlgCID [] = Ret (Inr [])"
| "reexport_all n E capability dlgCID (d # ds) =
     (if dlg_Link d = dlgCID then reexport_all n E capability dlgCID ds
      else cbind (reexport n E capability d) (\<lambda>r. case r of
             Inl err \<Rightarrow> Ret (Inl err)
           | Inr p \<Rightarrow>
               cmap (\<lambda>r'. case r' of Inl err \<Rightarrow> Inl err | Inr result \<Rightarrow> Inr (p # result))
                    (reexport_all n E capability dlgCID ds)))"

text \<open>A validation context is a claim context and the capability to look for.\<close>

type_synonym validation_context = "claim_context \<times> descriptor"

definition NewValidationContext ::
    "verifier \<Rightarrow> descriptor \<Rightarrow> can_issue \<Rightarrow> (authorization \<Rightarrow> delegation option comp) \<Rightarrow>
     (link \<Rightarrow> (link \<times> err option) + delegation) \<Rightarrow> (string \<Rightarrow> err + verifier) \<Rightarrow>
     (did \<Rightarrow> (did \<times> err) + did) \<Rightarrow> (delegation \<Rightarrow> invalid_proof option) \<Rightarrow> delegation list \<Rightarrow>
     validation_context" where
  "NewValidationContext authority capability canIssue validateAuthorization resolveProof
      parsePrincipal resolveDIDKey validateTimeBounds authorityProofs =
     (NewClaimContext authority canIssue validateAuthorization resolveProof parsePrincipal
        resolveDIDKey validateTimeBounds authorityProofs, capability)"

definition pruneProofs ::
    "nat \<Rightarrow> venv \<Rightarrow> delegation \<Rightarrow> validation_context \<Rightarrow> (unauthorized + dproof list) comp" where
  "pruneProofs n E dlg vctx =
     cbind (selectProofs n E (fst vctx) (snd vctx) [PDelegation dlg]) (\<lambda>r. case r of
       Inl unauth \<Rightarrow> Ret (Inl unauth)
     | Inr all \<Rightarrow> reexport_all n E (snd vctx) (dlg_Link dlg) all)"

text \<open>
  \<open>zero\<close> is what the zero value of the capability's caveats, or a pointer to it, is as a builder.
\<close>

definition replaceNoCaveatsCaps ::
    "builder option \<Rightarrow> builder capability list \<Rightarrow> descriptor \<Rightarrow> builder capability list" where
  "replaceNoCaveatsCaps zero capabilities cap =
     map (\<lambda>c. if bd_type (cp_Nb c) \<noteq> ''ucan.NoCaveats'' \<or> cp_Can c \<noteq> ds_can cap then c
              else (case zero of
                      Some bc \<Rightarrow> Ucan.NewCapability (cp_Can c) (cp_With c) bc
                    | None \<Rightarrow> c)) capabilities"

text \<open>\<open>fmt.Errorf\<close> renders the error it wraps as under \<open>%v\<close>, and puts a panic of the rendering into the text.\<close>

definition wrapped_text :: "string comp \<Rightarrow> string" where
  "wrapped_text t = (case t of Ret s \<Rightarrow> s | Panic p \<Rightarrow> ''%!v(PANIC=Error method: '' @ p @ '')'' | Fuel \<Rightarrow> [])"

definition ed_parse :: "extlib \<Rightarrow> string \<Rightarrow> err + verifier" where
  "ed_parse L s = (case edv_Parse L s of Inl e \<Rightarrow> Inl e | Inr v \<Rightarrow> Inr (edv_verifier L v))"

definition pruning_context :: "venv \<Rightarrow> int \<Rightarrow> verifier \<Rightarrow> descriptor \<Rightarrow> validation_context" where
  "pruning_context E now attestor cap =
     NewValidationContext attestor cap (IsSelfIssued (ve_L E)) (\<lambda>a. Ret None) ProofUnavailable
       (ed_parse (ve_L E)) FailDIDKeyResolution (NotExpiredNotTooEarly now) []"

text \<open>The clock is read when the draft is issued (\<open>now\<close>) and when it is validated (\<open>later\<close>).\<close>

definition NewProofPruner ::
    "nat \<Rightarrow> venv \<Rightarrow> fmtlib \<Rightarrow> int \<Rightarrow> int \<Rightarrow> builder option \<Rightarrow> verifier \<Rightarrow> descriptor \<Rightarrow> pruner" where
  "NewProofPruner n E F now later zero attestor cap issuer audience capabilities options =
     cbind (Delegate (ve_L E) (ve_U E) now issuer audience (replaceNoCaveatsCaps zero capabilities cap)
              (map DOption options)) (\<lambda>r. case r of
       Inl err \<Rightarrow> Ret (Inl (''building draft delegation: '' @ err))
     | Inr draft \<Rightarrow>
         if length (dlg_Proofs draft) = 0 then Ret (Inr [])
         else cmap (\<lambda>r'. case r' of
                Inl unauth \<Rightarrow> Inl (''pruning proofs: '' @ wrapped_text (unauthorized_Error (ve_L E) F unauth))
              | Inr prunedPfs \<Rightarrow> Inr prunedPfs)
              (pruneProofs n E draft (pruning_context E later attestor cap)))"

section \<open>What the walk selects\<close>

fun auth_tree :: "authorization \<Rightarrow> authorization list" where
  "auth_tree (Authorization m ps as) =
     Authorization m ps as # concat (map auth_tree ps) @ concat (map auth_tree as)"

fun first_of_link :: "link set \<Rightarrow> delegation list \<Rightarrow> delegation list" where
  "first_of_link seen [] = []"
| "first_of_link seen (d # ds) =
     (if dlg_Link d \<in> seen then first_of_link seen ds
      else d # first_of_link (insert (dlg_Link d) seen) ds)"

lemma first_of_link_append:
  "first_of_link seen (xs @ ys) =
     first_of_link seen xs @ first_of_link (seen \<union> dlg_Link ` set xs) ys"
  by (induction xs arbitrary: seen) (auto simp: insert_absorb)

lemma first_of_link_set: "set (first_of_link seen ds) \<subseteq> set ds"
proof (induction ds arbitrary: seen)
  case (Cons d ds)
  have "set (first_of_link seen' ds) \<subseteq> set (d # ds)" for seen' using Cons.IH [of seen'] by auto
  then show ?case by auto
qed simp

lemma first_of_link_links:
  "dlg_Link ` set (first_of_link seen ds) = dlg_Link ` set ds - seen \<and>
   distinct (map dlg_Link (first_of_link seen ds))"
  by (induction ds arbitrary: seen) auto

text \<open>The state of a walk after a list of delegations: those whose links were not seen are added.\<close>

definition walked_over :: "delegation list \<Rightarrow> walked \<Rightarrow> walked" where
  "walked_over ds st = (fst st \<union> dlg_Link ` set ds, snd st @ first_of_link (fst st) ds)"

lemma walked_over_simps:
  "walked_over [] st = st" "walked_over (xs @ ys) st = walked_over ys (walked_over xs st)"
  by (cases st; auto simp: walked_over_def first_of_link_append Un_assoc)+

lemma walked_over_Cons:
  "walked_over (d # ds) st =
     walked_over ds (if dlg_Link d \<in> fst st then st else (insert (dlg_Link d) (fst st), snd st @ [d]))"
  by (cases st) (auto simp: walked_over_def insert_absorb)

definition sourced :: "authorization \<Rightarrow> bool" where
  "sourced a \<longleftrightarrow> (\<forall>b \<in> set (auth_tree a). \<exists>s. mt_source (au_match b) = Ret s)"

lemma sourced_simps:
  "sourced (Authorization m ps as) \<longleftrightarrow>
     (\<exists>s. mt_source m = Ret s) \<and> (\<forall>a \<in> set ps. sourced a) \<and> (\<forall>a \<in> set as. sourced a)"
  by (auto simp: sourced_def)

lemma walk_all_result:
  "(\<And>a st. a \<in> set as \<Longrightarrow> walk a st = Ret (walked_over (map auth_dlg (auth_tree a)) st)) \<Longrightarrow>
     walk_all as st = Ret (walked_over (map auth_dlg (concat (map auth_tree as))) st)"
  by (induction as arbitrary: st) (simp_all add: walked_over_simps)

text \<open>A walk over a tree adds the delegations whose links it has not seen, in preorder.\<close>

lemma walk_result:
  "sourced a \<Longrightarrow> walk a st = Ret (walked_over (map auth_dlg (auth_tree a)) st)"
proof (induction a arbitrary: st)
  case (Authorization m ps as)
  obtain s where s: "mt_source m = Ret s" using Authorization.prems by (auto simp: sourced_simps)
  then have d: "auth_dlg (Authorization m ps as) = src_delegation s"
    by (simp add: auth_dlg_def auth_source_def mt_source_hd)
  have subs: "walk_all ps st' = Ret (walked_over (map auth_dlg (concat (map auth_tree ps))) st')"
      "walk_all as st' = Ret (walked_over (map auth_dlg (concat (map auth_tree as))) st')" for st'
    using Authorization by (auto intro!: walk_all_result simp: sourced_simps)
  have "map auth_dlg (auth_tree (Authorization m ps as)) =
      [src_delegation s] @ map auth_dlg (concat (map auth_tree ps)) @
      map auth_dlg (concat (map auth_tree as))"
    by (simp add: d)
  then show ?case
    by (simp add: auth_Delegation_def s subs walked_over_simps walked_over_Cons Let_def
        del: auth_tree.simps)
qed


text \<open>Every authorization in the tree of a claimed one is in force, attestations included.\<close>

definition in_force_tree :: "venv \<Rightarrow> claim_context \<Rightarrow> authorization \<Rightarrow> bool" where
  "in_force_tree E C a \<longleftrightarrow>
     (\<forall>b \<in> set (auth_tree a). (\<exists>s. mt_source (au_match b) = Ret s) \<and> in_force E C b)"

lemma in_force_tree_simps:
  "in_force_tree E C (Authorization m ps as) \<longleftrightarrow>
     (\<exists>s. mt_source m = Ret s) \<and> in_force E C (Authorization m ps as) \<and>
     (\<forall>a \<in> set ps. in_force_tree E C a) \<and> (\<forall>a \<in> set as. in_force_tree E C a)"
  by (auto simp: in_force_tree_def)

lemma claimed_tree:
  "claimed E C desc a \<Longrightarrow> in_force_tree E C a"
  "rooted E C b \<Longrightarrow> \<forall>p \<in> set (au_proofs b). in_force_tree E C p"
  "attestation E C a' \<Longrightarrow> in_force_tree E C a'"
proof (induction rule: verified_claimed_rooted_attestation.inducts(2-4)
    [where ?P1.0 = "\<lambda>_. True" and ?P2.0 = "\<lambda>desc a. in_force_tree E C a" and
       ?P3.0 = "\<lambda>b. \<forall>p \<in> set (au_proofs b). in_force_tree E C p" and ?P4.0 = "\<lambda>a. in_force_tree E C a"])
  case (claimed desc s c ps as)
  then show ?case
    by (auto simp: in_force_tree_simps in_force_def auth_dlg_def auth_source_def)
next
  case (step m s s' m' as' ps' as)
  have "hd (mt_sources m') = s'" "\<exists>s. mt_source m' = Ret s"
    using step(2) by (auto simp: derived_def)
  with step show ?case
    by (auto simp: in_force_tree_simps in_force_def auth_dlg_def auth_source_def)
qed simp_all

lemma claimed_sourced: "claimed E C desc a \<Longrightarrow> sourced a"
  using claimed_tree(1) unfolding in_force_tree_def sourced_def by blast


text \<open>The delegations an authorization rests on: the first of each link, in preorder.\<close>

definition auth_delegations :: "authorization \<Rightarrow> delegation list" where
  "auth_delegations a = first_of_link {} (map auth_dlg (auth_tree a))"

lemma selectProofs_eq:
  assumes "order_ok E"
  shows "selectProofs n E C cap ps =
     cmap (\<lambda>r. case r of Inl e \<Rightarrow> Inl e | Inr a \<Rightarrow> Inr (auth_delegations a)) (Claim n E C cap ps)"
proof (cases "Claim n E C cap ps")
  case (Ret r)
  then show ?thesis
  proof (cases r)
    case (Inr a)
    then have "sourced a" using claimed_sourced search_sound(1) [OF assms] Ret by blast
    then show ?thesis
      using Ret Inr by (simp add: selectProofs_def ConvertUnknownAuthorization_def walk_result
          walked_over_def auth_delegations_def)
  qed (simp add: selectProofs_def)
qed (simp_all add: selectProofs_def)

lemma reexport_Inr:
  assumes "reexport n E cap d = Ret (Inr p)"
  shows "\<exists>d' bs. p = PDelegation d' \<and> dl_rt d' = dl_rt d \<and>
           dlg_decode (ve_L E) (ve_U E) (dl_rt d) = Inr (dl_ucan d') \<and>
           dlg_Export n (ve_L E) (ve_U E) [] d = Ret (map Inr bs) \<and>
           dlg_Blocks d' = map Inr (first_per_link {} bs)"
proof -
  obtain seq bs d' where seq: "dlg_Export n (ve_L E) (ve_U E) [] d = Ret seq"
    and bs: "NewBlockStore [] seq = Inr bs"
    and d': "NewDelegation (ve_L E) (ve_U E) (dl_rt d) bs = Inr d'" "p = PDelegation d'"
    using assms by (auto simp: reexport_def case_sum_eq')
  obtain blks where blks: "seq = map Inr blks" "bs = foldl bs_Put br_empty blks"
    using bs by (auto simp: NewBlockStore_Inr)
  have "dlg_Blocks d' = br_Iterator bs"
    using d' by (auto simp: NewDelegation_Inr dlg_Blocks_def iter_Concat2_def br_Iterator_def br_empty_def)
  also have "\<dots> = map Inr (first_per_link {} blks)" using store.contents(2) [of blks] blks by simp
  finally show ?thesis using seq blks d' by (auto simp: NewDelegation_Inr)
qed

lemma reexport_all_Inr:
  "reexport_all n E cap l ds = Ret (Inr ps) \<longleftrightarrow>
     list_all2 (\<lambda>d p. reexport n E cap d = Ret (Inr p)) (filter (\<lambda>d. dlg_Link d \<noteq> l) ds) ps"
  by (induction ds arbitrary: ps) (auto simp: case_sum_eq case_sum_eq' list_all2_Cons1)

section \<open>Properties\<close>

text \<open>
  C12. \<open>selectProofs\<close> answers as \<open>Claim\<close> does, and when that is with an authorization, with the delegations
  it rests on: the first of each link in preorder, so that no link is listed twice and none is
  missing; every one of them is within its time bounds and verified.
\<close>

theorem select_proofs_exact:
  assumes "order_ok E"
  shows "selectProofs n E C cap ps =
           cmap (\<lambda>r. case r of Inl e \<Rightarrow> Inl e | Inr a \<Rightarrow> Inr (auth_delegations a)) (Claim n E C cap ps) \<and>
         (\<forall>a. Claim n E C cap ps = Ret (Inr a) \<longrightarrow>
            distinct (map dlg_Link (auth_delegations a)) \<and>
            dlg_Link ` set (auth_delegations a) = (dlg_Link \<circ> auth_dlg) ` set (auth_tree a) \<and>
            (\<forall>d \<in> set (auth_delegations a). cc_validateTimeBounds C d = None \<and> verified E C d))"
proof -
  have "cc_validateTimeBounds C d = None \<and> verified E C d"
    if "Claim n E C cap ps = Ret (Inr a)" "d \<in> set (auth_delegations a)" for a d
  proof -
    have "d \<in> auth_dlg ` set (auth_tree a)"
      using that(2) first_of_link_set [of "{}" "map auth_dlg (auth_tree a)"]
      by (auto simp: auth_delegations_def)
    then show ?thesis
      using claimed_tree(1) [OF search_sound(1) [OF assms that(1)]]
      by (auto simp: in_force_tree_def in_force_def)
  qed
  moreover have "distinct (map dlg_Link (auth_delegations a)) \<and>
      dlg_Link ` set (auth_delegations a) = (dlg_Link \<circ> auth_dlg) ` set (auth_tree a)" for a
    using first_of_link_links [of "{}" "map auth_dlg (auth_tree a)"]
    by (simp add: auth_delegations_def image_comp comp_def)
  ultimately show ?thesis using selectProofs_eq [OF assms] by blast
qed

theorem select_proofs_exact_witness:
  "\<exists>d ivk. dlg_Link ivk \<noteq> dlg_Link d \<and> selectProofs 2 venv0 (ctx0 d) ds0 [PDelegation ivk] = Ret (Inr [ivk, d])"
proof -
  obtain d ivk a m r where a: "Access 2 venv0 (ctx0 d) ds0 ivk = Ret (Inr a)"
    and ch: "map auth_dlg (auth_chain a) = [ivk, d]" and l: "dlg_Link ivk \<noteq> dlg_Link d"
    and t: "a = Authorization m [Authorization r [] []] []"
    using search0 by (elim exE conjE)
  have "auth_delegations a = [ivk, d]" using ch l by (auto simp: auth_delegations_def t)
  then show ?thesis
    using select_proofs_exact [OF order_ok0, of 2 "ctx0 d" ds0 "[PDelegation ivk]"] a l
    by (auto simp: Access_def)
qed

text \<open>
  C8. What a pruner built by \<open>NewProofPruner\<close> keeps: nothing when the draft has no proofs;
  otherwise the draft is authorized, and the kept proofs are the delegations its authorization
  rests on, other than the draft, each with the root and the UCAN it had and a store of
  only the blocks it exports.
\<close>

theorem pruner_keeps:
  assumes "order_ok E"
    and "NewProofPruner n E F now later zero attestor cap issuer audience caps options = Ret (Inr prfs)"
  shows "\<exists>draft. Delegate (ve_L E) (ve_U E) now issuer audience (replaceNoCaveatsCaps zero caps cap)
             (map DOption options) = Ret (Inr draft) \<and>
           (dlg_Proofs draft = [] \<and> prfs = [] \<or>
            (\<exists>a. Access n E (fst (pruning_context E later attestor cap)) cap draft = Ret (Inr a) \<and>
               list_all2 (\<lambda>d p. \<exists>d' bs. p = PDelegation d' \<and> dl_rt d' = dl_rt d \<and>
                    dlg_decode (ve_L E) (ve_U E) (dl_rt d) = Inr (dl_ucan d') \<and>
                    dlg_Export n (ve_L E) (ve_U E) [] d = Ret (map Inr bs) \<and>
                    dlg_Blocks d' = map Inr (first_per_link {} bs))
                 (filter (\<lambda>d. dlg_Link d \<noteq> dlg_Link draft) (auth_delegations a)) prfs))"
proof -
  let ?C = "pruning_context E later attestor cap"
  obtain draft where draft: "Delegate (ve_L E) (ve_U E) now issuer audience
      (replaceNoCaveatsCaps zero caps cap) (map DOption options) = Ret (Inr draft)"
    and r: "dlg_Proofs draft = [] \<and> prfs = [] \<or> pruneProofs n E draft ?C = Ret (Inr prfs)"
    using assms(2) by (auto simp: NewProofPruner_def case_sum_eq case_sum_eq' split: if_splits)
  have "snd ?C = cap" by (simp add: pruning_context_def NewValidationContext_def)
  then have "\<exists>a. Access n E (fst ?C) cap draft = Ret (Inr a) \<and>
      list_all2 (\<lambda>d p. reexport n E cap d = Ret (Inr p))
        (filter (\<lambda>d. dlg_Link d \<noteq> dlg_Link draft) (auth_delegations a)) prfs"
    if "pruneProofs n E draft ?C = Ret (Inr prfs)"
    using that by (auto simp: pruneProofs_def selectProofs_eq [OF assms(1)] Access_def case_sum_eq
        case_sum_eq' reexport_all_Inr)
  then show ?thesis
    using draft r by (blast intro: list_all2_mono reexport_Inr)
qed


text \<open>
  The combinations of a non-empty list of value lists are the tuples taking one value from each
  list, as many as the product of the lengths; an empty list panics.
\<close>

lemma combine_fold:
  "set (foldl (\<lambda>tuples values. concat (map (\<lambda>value. map (\<lambda>tuple. tuple @ [value]) tuples) values)) ts ds) =
     {t @ u | t u. t \<in> set ts \<and> list_all2 (\<lambda>x vs. x \<in> set vs) u ds} \<and>
   length (foldl (\<lambda>tuples values. concat (map (\<lambda>value. map (\<lambda>tuple. tuple @ [value]) tuples) values)) ts ds) =
     length ts * prod_list (map length ds)"
proof (induction ds arbitrary: ts)
  case (Cons d ds)
  let ?ts = "concat (map (\<lambda>value. map (\<lambda>tuple. tuple @ [value]) ts) d)"
  have "length ?ts = length ts * length d"
    by (simp add: length_concat comp_def sum_list_triv)
  moreover have "{t @ u | t u. t \<in> set ?ts \<and> list_all2 (\<lambda>x vs. x \<in> set vs) u ds} =
      {t @ u | t u. t \<in> set ts \<and> list_all2 (\<lambda>x vs. x \<in> set vs) u (d # ds)}"
  proof (intro set_eqI iffI)
    fix x assume "x \<in> {t @ u | t u. t \<in> set ?ts \<and> list_all2 (\<lambda>x vs. x \<in> set vs) u ds}"
    then obtain t v u where "x = t @ v # u" "t \<in> set ts" "v \<in> set d" "list_all2 (\<lambda>x vs. x \<in> set vs) u ds"
      by auto
    then show "x \<in> {t @ u | t u. t \<in> set ts \<and> list_all2 (\<lambda>x vs. x \<in> set vs) u (d # ds)}"
      by (intro CollectI exI [of _ t] exI [of _ "v # u"]) simp
  next
    fix x assume "x \<in> {t @ u | t u. t \<in> set ts \<and> list_all2 (\<lambda>x vs. x \<in> set vs) u (d # ds)}"
    then obtain t v u where "x = t @ v # u" "t \<in> set ts" "v \<in> set d" "list_all2 (\<lambda>x vs. x \<in> set vs) u ds"
      by (auto simp: list_all2_Cons2)
    then show "x \<in> {t @ u | t u. t \<in> set ?ts \<and> list_all2 (\<lambda>x vs. x \<in> set vs) u ds}"
      by (intro CollectI exI [of _ "t @ [v]"] exI [of _ u]) auto
  qed
  ultimately show ?case using Cons.IH [of ?ts] by simp
qed simp

theorem combine_product:
  "combine ([] :: 'a list list) = Panic ''index out of range'' \<and>
   (\<exists>rs. combine (d # ds) = Ret rs \<and> set rs = {t. list_all2 (\<lambda>x vs. x \<in> set vs) t (d # ds)} \<and>
         length rs = length d * prod_list (map length ds))"
  using combine_fold [of "[[]]" "d # ds"] by (simp add: combine_def del: list_all2_Cons2)

section \<open>A draft of a key's own delegation, for the witness\<close>

abbreviation keydid :: did where "keydid \<equiv> DID True pub0"

lemma wf_keydid: "wf_did lib0 keydid"
  by (auto simp: wf_did_def pub0_def edv_Code_def Ed25519_def)

lemma ed_parse_keydid:
  assumes "did_String lib0 keydid = Ret s"
  shows "ed_parse lib0 s = Inr (verifier0 keydid)"
proof -
  have "did_Parse lib0 s = Inr keydid"
    using parse_of_string [OF lib0_varint_ok lib0_multibase_ok wf_keydid] assms by auto
  moreover have "edv_Decode lib0 pub0 = Inr pub0"
    by (simp add: pub0_def edv_Decode_def edv_size_def ed_keySize_def go_copy_def lib0_varint_ok)
  moreover have "edv_verifier lib0 pub0 = verifier0 keydid"
    using eds_did_bytes(3) [OF lib0_varint_ok, of "replicate 32 (CHR ''s'')" "replicate 32 (CHR ''p'')"]
    by (simp add: verifier0_def edv_verifier_def pub0_def)
  ultimately show ?thesis
    using wf_did_defined [OF lib0_varint_ok wf_keydid] by (simp add: ed_parse_def edv_Parse_def did_Bytes_def)
qed

definition U2 :: "ucan_model \<Rightarrow> ucan_model \<Rightarrow> ucanlib" where
  "U2 u v = ucanlib0\<lparr> ul_cbor := table_codec 113 [(''u'', u), (''v'', v)] \<rparr>"

definition E2 :: "ucan_model \<Rightarrow> ucan_model \<Rightarrow> venv" where
  "E2 u v = \<lparr> ve_L = lib0, ve_U = U2 u v, ve_order = rev \<rparr>"

definition blk2 :: "bytes \<Rightarrow> block" where
  "blk2 b = NewBlock (cid_v1 lib0 113 (digest_Bytes (sha256_Sum lib0 b))) b"

definition dlg2 :: "bytes \<Rightarrow> block list \<Rightarrow> ucan_model \<Rightarrow> delegation" where
  "dlg2 b blks u = \<lparr> dl_rt = blk2 b, dl_blks = foldl bs_Put br_empty blks, dl_atch = br_empty, dl_ucan = u \<rparr>"

definition cap2 :: "builder capability" where
  "cap2 = Ucan.NewCapability ''store/add'' ''did:web:s'' NoCaveats"

definition options2 :: "ucan_model \<Rightarrow> dlg_option list" where
  "options2 u = [DWithNoExpiration, DWithProof [PDelegation (dlg2 ''u'' [blk2 ''u''] u)]]"

lemma link2: "blk_link (blk2 ''u'') \<noteq> blk_link (blk2 ''v'')"
  by (simp add: blk2_def NewBlock_def digest_Bytes_def sha256_Sum_def Let_def lib0_def sha256_Code_def)

lemma codec2:
  assumes "u \<noteq> v"
  shows "block_Encode lib0 (ul_cbor (U2 u v)) u = Inr (blk2 ''u'')"
    and "block_Encode lib0 (ul_cbor (U2 u v)) v = Inr (blk2 ''v'')"
    and "dlg_decode lib0 (U2 u v) (blk2 ''u'') = Inr u"
    and "dlg_decode lib0 (U2 u v) (blk2 ''v'') = Inr v"
proof -
  show e: "block_Encode lib0 (ul_cbor (U2 u v)) u = Inr (blk2 ''u'')"
    "block_Encode lib0 (ul_cbor (U2 u v)) v = Inr (blk2 ''v'')"
    using assms by (simp_all add: block_Encode_def U2_def table_codec_def blk2_def)
  have "codec_ok (ul_cbor (U2 u v))" by (simp add: U2_def table_codec_ok)
  then show "dlg_decode lib0 (U2 u v) (blk2 ''u'') = Inr u" "dlg_decode lib0 (U2 u v) (blk2 ''v'') = Inr v"
    unfolding dlg_decode_Inr using block_codec_roundtrip [OF _ e(1)] block_codec_roundtrip [OF _ e(2)]
    by blast+
qed

lemma blocks2:
  "dlg_Blocks (dlg2 b blks u) = map Inr (first_per_link {} blks)"
  "dlg_Link (dlg2 b blks u) = blk_link (blk2 b)"
  using store.contents(2) [of blks] store.iter_empty
  by (simp_all add: dlg_Blocks_def dlg2_def iter_Concat2_def dlg_Link_def)

lemma verify_other_codec [simp]:
  "ucan_VerifySignature L (U\<lparr> ul_cbor := C \<rparr>) u v = ucan_VerifySignature L U u v"
  unfolding ucan_VerifySignature_def encode_other_codec ..

text \<open>The owner's UCAN and the key's, issued for the draft.\<close>

lemma ucans2:
  obtains u v where "u \<noteq> v"
    "ucan_VerifySignature lib0 ucanlib0 u (verifier0 (did0 ''s'')) = Ret (Inr True)"
    "ucan_Issuer lib0 u = did0 ''s''" "ucan_Audience lib0 u = keydid" "um_Prf u = []"
    "ucan_Capabilities u = [Ucan.NewCapability ''store/add'' ''did:web:s'' (GNode (NMap []))]"
    "um_Exp u = None" "um_Nbf u = None"
    "ucan_Issue lib0 ucanlib0 1000 (signer0 keydid) (did0 ''a'') [cap2]
       (issue_options (foldl apply_dlg_option delegationConfig0 (options2 u)) [blk_link (blk2 ''u'')]) = Ret (Inr v)"
    "ucan_VerifySignature lib0 ucanlib0 v (verifier0 keydid) = Ret (Inr True)"
    "ucan_Issuer lib0 v = keydid" "um_Prf v = [blk_link (blk2 ''u'')]"
    "ucan_Capabilities v = [Ucan.NewCapability ''store/add'' ''did:web:s'' (GNode (NMap []))]"
    "um_Exp v = None" "um_Nbf v = None"
proof -
  obtain u where u: "ucan_VerifySignature lib0 ucanlib0 u (verifier0 (did0 ''s'')) = Ret (Inr True)"
    "ucan_Issuer lib0 u = did0 ''s''" "ucan_Audience lib0 u = keydid" "um_Prf u = []"
    "ucan_Capabilities u = [Ucan.NewCapability ''store/add'' ''did:web:s'' (GNode (NMap []))]"
    "um_Exp u = None" "um_Nbf u = None"
    using issued1 [OF wf_did0 wf_keydid, of "[WithNoExpiration]" 0 "''s''" "''store/add''" "''did:web:s''"]
    by (auto simp: ucanConfig0_def issue_exp_def)
  let ?opts = "issue_options (foldl apply_dlg_option delegationConfig0 (options2 u)) [blk_link (blk2 ''u'')]"
  obtain v where v: "ucan_Issue lib0 ucanlib0 1000 (signer0 keydid) (did0 ''a'') [cap2] ?opts = Ret (Inr v)"
    "ucan_VerifySignature lib0 ucanlib0 v (verifier0 keydid) = Ret (Inr True)"
    "ucan_Issuer lib0 v = keydid" "um_Prf v = [blk_link (blk2 ''u'')]"
    "ucan_Capabilities v = [Ucan.NewCapability ''store/add'' ''did:web:s'' (GNode (NMap []))]"
    "um_Exp v = None" "um_Nbf v = None"
    using issued1 [OF wf_keydid wf_did0, of ?opts 1000 "''a''" "''store/add''" "''did:web:s''"]
    by (auto simp: ucanConfig0_def issue_exp_def issue_options_def options2_def delegationConfig0_def cap2_def)
  have "u \<noteq> v" using u(2) v(3) by (auto simp: did0_def)
  with u v show thesis by (intro that)
qed


lemma draft2:
  assumes "u \<noteq> v" "ucan_Issue lib0 ucanlib0 1000 (signer0 keydid) (did0 ''a'') [cap2]
       (issue_options (foldl apply_dlg_option delegationConfig0 (options2 u)) [blk_link (blk2 ''u'')]) = Ret (Inr v)"
  shows "Delegate lib0 (U2 u v) 1000 (signer0 keydid) (did0 ''a'') [cap2] (map DOption (options2 u)) =
           Ret (Inr (dlg2 ''v'' [blk2 ''u'', blk2 ''v''] v))"
proof -
  let ?cfg = "foldl apply_dlg_option delegationConfig0 (options2 u)"
  have cfg: "foldl apply_delegate_option delegationConfig0 (map DOption (options2 u)) = ?cfg"
    by (simp add: options2_def)
  have "dc_pruner ?cfg = None" "dc_prf ?cfg = [PDelegation (dlg2 ''u'' [blk2 ''u''] u)]"
    by (simp_all add: options2_def delegationConfig0_def)
  moreover have "proofs_WriteInto [PDelegation (dlg2 ''u'' [blk2 ''u''] u)] br_empty =
      Ret ([blk_link (blk2 ''u'')], bs_Put br_empty (blk2 ''u''))"
    by (simp add: proof_Delegation_def proof_Link_def blocks2)
  moreover have "ucan_Issue lib0 (U2 u v) 1000 (signer0 keydid) (did0 ''a'') [cap2]
      (issue_options ?cfg [blk_link (blk2 ''u'')]) = Ret (Inr v)"
    using assms(2) by (simp add: U2_def)
  ultimately show ?thesis
    unfolding Delegate_Inr cfg using codec2 [OF assms(1)]
    by (auto simp: prune_config_def NewDelegation_Inr dlg2_def)
qed

text \<open>The proofs of the draft, as its own blocks give them.\<close>

lemma view2:
  assumes "u \<noteq> v" "um_Prf v = [blk_link (blk2 ''u'')]"
  shows "\<exists>br. NewBlockReader [] (dlg_Blocks (dlg2 ''v'' [blk2 ''u'', blk2 ''v''] v)) = Inr br \<and>
     NewProofsView lib0 (U2 u v) (dlg_Proofs (dlg2 ''v'' [blk2 ''u'', blk2 ''v''] v)) br =
       [PDelegation \<lparr> dl_rt = blk2 ''u'', dl_blks = br, dl_atch = br_empty, dl_ucan = u \<rparr>]"
proof -
  let ?d = "dlg2 ''v'' [blk2 ''u'', blk2 ''v''] v"
  have b: "dlg_Blocks ?d = map Inr [blk2 ''u'', blk2 ''v'']" using link2 by (simp add: blocks2)
  obtain br where br: "NewBlockReader [] (dlg_Blocks ?d) = Inr br"
    using NewBlockReader_total [of "[]"] unfolding b by blast
  have "br_Get br (blk_link (blk2 ''u'')) = Some (blk2 ''u'')"
    using NewBlockReader_contents(1) [OF br [unfolded b], of "blk_link (blk2 ''u'')"] by simp
  then have "NewDelegationView lib0 (U2 u v) (blk_link (blk2 ''u'')) br =
      Inr \<lparr> dl_rt = blk2 ''u'', dl_blks = br, dl_atch = br_empty, dl_ucan = u \<rparr>"
    unfolding NewDelegationView_Inr using codec2 [OF assms(1)] by blast
  then show ?thesis
    using br assms(2) by (simp add: NewProofsView_def dlg_Proofs_def ucan_Proofs_def dlg2_def)
qed


lemma order_ok2: "order_ok (E2 u v)"
  by (simp add: order_ok_def E2_def)

lemma fields2: "ve_L (E2 u v) = lib0" "ve_U (E2 u v) = U2 u v"
  by (simp_all add: E2_def)

abbreviation ctx2 :: "ucan_model \<Rightarrow> ucan_model \<Rightarrow> claim_context" where
  "ctx2 u v \<equiv> fst (pruning_context (E2 u v) 1000 (verifier0 (did0 ''s'')) ds0)"

lemma ctx2_fields:
  "cc_authority (ctx2 u v) = verifier0 (did0 ''s'')" "cc_canIssue (ctx2 u v) = IsSelfIssued lib0"
  "cc_validateAuthorization (ctx2 u v) a = Ret None" "cc_resolveProof (ctx2 u v) = ProofUnavailable"
  "cc_parsePrincipal (ctx2 u v) = ed_parse lib0"
  "cc_validateTimeBounds (ctx2 u v) = NotExpiredNotTooEarly 1000"
  by (simp_all add: pruning_context_def NewValidationContext_def NewClaimContext_def fields2)

lemma validate2:
  assumes "ucan_VerifySignature lib0 ucanlib0 (dl_ucan d) w = Ret (Inr True)"
    and "um_Exp (dl_ucan d) = None" "um_Nbf (dl_ucan d) = None"
    and "dlg_Issuer lib0 d = did0 ''s'' \<and> w = verifier0 (did0 ''s'') \<or>
         dlg_Issuer lib0 d = keydid \<and> w = verifier0 keydid"
  shows "Validate f (E2 u v) (ctx2 u v) d prfs = Ret (Inr (d, None))"
proof -
  have t: "NotExpiredNotTooEarly 1000 d = None"
    using assms(2,3) by (simp add: NotExpiredNotTooEarly_def IsExpired_def IsTooEarly_def
        ucan_Expiration_def ucan_NotBefore_def)
  have v: "v_VerifySignature (E2 u v) d w = Ret (Inr d)"
    using assms(1) by (simp add: v_VerifySignature_def fields2 U2_def)
  from assms(4) show ?thesis
  proof
    assume "dlg_Issuer lib0 d = did0 ''s'' \<and> w = verifier0 (did0 ''s'')"
    then show ?thesis
      using t v by (simp add: Validate_def VerifyAuthorization_def Let_def fields2 ctx2_fields
          string_did0 HasPrefix_def vf_DID_verifier0)
  next
    assume k: "dlg_Issuer lib0 d = keydid \<and> w = verifier0 keydid"
    have "HasPrefix (''did:key:'' @ x) ''did:key:''" for x by (simp add: HasPrefix_def)
    then show ?thesis
      using t v k ed_parse_keydid [OF string_key]
      by (simp add: Validate_def VerifyAuthorization_def Let_def fields2 ctx2_fields string_key
          del: append.simps append_Cons)
  qed
qed

lemma search2:
  assumes d: "\<And>f prfs. Validate f (E2 u v) (ctx2 u v) d prfs = Ret (Inr (d, None))"
    and r: "\<And>f prfs. Validate f (E2 u v) (ctx2 u v) r prfs = Ret (Inr (r, None))"
    and br: "NewBlockReader [] (dlg_Blocks d) = Inr br"
      "NewProofsView lib0 (U2 u v) (dlg_Proofs d) br = [PDelegation r]"
    and i: "dlg_Issuer lib0 d = keydid" "dlg_Audience lib0 r = keydid" "dlg_Issuer lib0 r = did0 ''s''"
    and c: "dlg_Capabilities d = [cap]" "dlg_Capabilities r = [cap]"
    and cap: "cap = Ucan.NewCapability ''store/add'' ''did:web:s'' (GNode (NMap []))"
  shows "\<exists>a. Access 2 (E2 u v) (ctx2 u v) ds0 d = Ret (Inr a) \<and>
           map auth_dlg (auth_tree a) = [d, r]"
proof -
  let ?m = "NewMatch (NewSource cap d) cap ds0" and ?r = "NewMatch (NewSource cap r) cap ds0"
  have sel: "cap_Select ds0 [NewSource cap d] = Ret ([?m], [], [])"
    "match_Select ?m [NewSource cap r] = Ret ([?r], [], [])"
    by (simp_all add: cap_Select_def select_source_def cap_Match_def ParseCapability_def
        match_Select_def match_select_source_def ResolveCapability_def Let_def cap
        Ucan.NewCapability_def ds0_def NewCapabilityParser_def anywith_def anynb_def
        ResolveAbility_def ResolveResource_def DefaultDerives_def HasSuffix_def HasPrefix_def)
  have pr: "match_Prune lib0 (canissuer_CanIssue (ctx2 u v)) ?m = Ret (Some ?m)"
    "match_Prune lib0 (canissuer_CanIssue (ctx2 u v)) ?r = Ret None"
    using i by (simp_all add: match_Prune_def canissuer_CanIssue_def ctx2_fields cap IsSelfIssued_def
        Ucan.NewCapability_def string_did0)
  have rp: "ResolveProofs res [PDelegation x] = ([x], [])" for res x
    using ResolveProofs_delegations [of res "[x]"] by simp
  have rm: "ResolveMatch f (E2 u v) (ctx2 u v) ?m = Ret ([NewSource cap r], [], [])" for f
    using order_ok2 by (simp add: ResolveMatch_single ResolveSources_def br rp i c r fields2
        attestations_of_def List.map_filter_def Let_def del: ResolveProofs.simps)
  have au: "Authorize 1 (E2 u v) (ctx2 u v) ?m = Ret (Inr (Authorization ?r [] []))"
    using pr(2) by (simp add: Authorize_body_def rm sel fields2 attestationsFor_def Let_def
        NewAuthorization_def)
  have "Access 2 (E2 u v) (ctx2 u v) ds0 d = Ret (Inr (Authorization ?m [Authorization ?r [] []] []))"
    using pr(1) au by (simp add: Access_def numeral_2_eq_2 Claim_body_def rp d c sel
        attestations_of_def List.map_filter_def fields2 NewAuthorization_def Let_def ctx2_fields
        ConvertUnknownAuthorization_def del: ResolveProofs.simps Authorize.simps)
  then show ?thesis by (simp add: auth_dlg_def auth_source_def)
qed

lemma reexport2:
  assumes "u \<noteq> v" "um_Prf u = []"
    and r: "r = \<lparr> dl_rt = blk2 ''u'', dl_blks = br, dl_atch = br_empty, dl_ucan = u \<rparr>"
  shows "\<exists>p. reexport 2 (E2 u v) cap r = Ret (Inr p)"
proof -
  have "dlg_Export 2 lib0 (U2 u v) [] r = Ret (map Inr [blk2 ''u''])"
    using assms(2) by (simp add: dlg_Export_def r numeral_2_eq_2 ucan_Proofs_def store.iter_empty
        seq_then_def)
  moreover obtain bs where "NewBlockStore [] (map Inr [blk2 ''u'']) = Inr bs"
    by (simp add: NewBlockStore_def seq_fold_Inr)
  moreover obtain d where "NewDelegation lib0 (U2 u v) (blk2 ''u'') bs = Inr d"
    using codec2(3) [OF assms(1)] by (auto simp: NewDelegation_Inr)
  ultimately show ?thesis by (simp add: reexport_def fields2 r)
qed

lemma pruner2:
  "\<exists>u v p. \<forall>F. NewProofPruner 2 (E2 u v) F 1000 1000 None (verifier0 (did0 ''s'')) ds0 (signer0 keydid) (did0 ''a'')
     [cap2] (options2 u) = Ret (Inr [p])"
proof -
  obtain u v where ne: "u \<noteq> v"
    and u: "ucan_VerifySignature lib0 ucanlib0 u (verifier0 (did0 ''s'')) = Ret (Inr True)"
      "ucan_Issuer lib0 u = did0 ''s''" "ucan_Audience lib0 u = keydid" "um_Prf u = []"
      "ucan_Capabilities u = [Ucan.NewCapability ''store/add'' ''did:web:s'' (GNode (NMap []))]"
      "um_Exp u = None" "um_Nbf u = None"
    and issue: "ucan_Issue lib0 ucanlib0 1000 (signer0 keydid) (did0 ''a'') [cap2]
       (issue_options (foldl apply_dlg_option delegationConfig0 (options2 u)) [blk_link (blk2 ''u'')]) = Ret (Inr v)"
    and v: "ucan_VerifySignature lib0 ucanlib0 v (verifier0 keydid) = Ret (Inr True)"
      "ucan_Issuer lib0 v = keydid" "um_Prf v = [blk_link (blk2 ''u'')]"
      "ucan_Capabilities v = [Ucan.NewCapability ''store/add'' ''did:web:s'' (GNode (NMap []))]"
      "um_Exp v = None" "um_Nbf v = None"
    by (rule ucans2)
  let ?d = "dlg2 ''v'' [blk2 ''u'', blk2 ''v''] v"
  obtain br where br: "NewBlockReader [] (dlg_Blocks ?d) = Inr br"
    "NewProofsView lib0 (U2 u v) (dlg_Proofs ?d) br =
       [PDelegation \<lparr> dl_rt = blk2 ''u'', dl_blks = br, dl_atch = br_empty, dl_ucan = u \<rparr>]"
    using view2 [OF ne v(3)] by blast
  let ?r = "\<lparr> dl_rt = blk2 ''u'', dl_blks = br, dl_atch = br_empty, dl_ucan = u \<rparr>"
  have val: "Validate f (E2 u v) (ctx2 u v) ?d prfs = Ret (Inr (?d, None))"
    "Validate f (E2 u v) (ctx2 u v) ?r prfs = Ret (Inr (?r, None))" for f prfs
    using u v by (auto intro!: validate2 simp: dlg2_def dlg_Issuer_def)
  obtain a where a: "Access 2 (E2 u v) (ctx2 u v) ds0 ?d = Ret (Inr a)"
    "map auth_dlg (auth_tree a) = [?d, ?r]"
    using search2 [OF val br] u v by (auto simp: dlg2_def dlg_Issuer_def dlg_Audience_def dlg_Capabilities_def)
  have links: "dlg_Link ?r = blk_link (blk2 ''u'')" "dlg_Link ?d = blk_link (blk2 ''v'')"
    by (simp_all add: dlg_Link_def dlg2_def)
  have ds: "auth_delegations a = [?d, ?r]" using a(2) links link2 by (simp add: auth_delegations_def)
  obtain p where p: "reexport 2 (E2 u v) ds0 ?r = Ret (Inr p)"
    using reexport2 [OF ne u(4), where r = ?r] by blast
  have "pruneProofs 2 (E2 u v) ?d (pruning_context (E2 u v) 1000 (verifier0 (did0 ''s'')) ds0) = Ret (Inr [p])"
  proof -
    have "snd (pruning_context (E2 u v) 1000 (verifier0 (did0 ''s'')) ds0) = ds0"
      by (simp add: pruning_context_def NewValidationContext_def)
    moreover have "selectProofs 2 (E2 u v) (ctx2 u v) ds0 [PDelegation ?d] = Ret (Inr [?d, ?r])"
      using a(1) ds by (simp add: selectProofs_eq [OF order_ok2] Access_def)
    ultimately show ?thesis using links link2 p by (simp add: pruneProofs_def)
  qed
  moreover have "replaceNoCaveatsCaps None [cap2] ds0 = [cap2]" by (simp add: replaceNoCaveatsCaps_def)
  moreover have "dlg_Proofs ?d \<noteq> []" using v(3) by (simp add: dlg_Proofs_def ucan_Proofs_def dlg2_def)
  ultimately have "NewProofPruner 2 (E2 u v) F 1000 1000 None (verifier0 (did0 ''s'')) ds0 (signer0 keydid) (did0 ''a'')
     [cap2] (options2 u) = Ret (Inr [p])" for F
    using draft2 [OF ne issue] by (simp add: NewProofPruner_def fields2)
  then show ?thesis by blast
qed

theorem pruner_keeps_witness:
  "\<exists>u v p. (\<forall>F. NewProofPruner 2 (E2 u v) F 1000 1000 None (verifier0 (did0 ''s'')) ds0 (signer0 keydid)
     (did0 ''a'') [cap2] (options2 u) = Ret (Inr [PDelegation p])) \<and>
     dlg_decode lib0 (U2 u v) (dl_rt p) = Inr (dl_ucan p)"
proof -
  obtain u v p where p: "\<forall>F. NewProofPruner 2 (E2 u v) F 1000 1000 None (verifier0 (did0 ''s'')) ds0
     (signer0 keydid) (did0 ''a'') [cap2] (options2 u) = Ret (Inr [p])"
    using pruner2 by blast
  obtain d' where "p = PDelegation d'" "dlg_decode lib0 (U2 u v) (dl_rt d') = Inr (dl_ucan d')"
    using pruner_keeps [OF order_ok2 p [THEN spec]] by (auto simp: fields2 list_all2_Cons2)
  then show ?thesis using p by auto
qed

end
