(* ===== verification/Receipt.thy ===== *)
theory Receipt
  imports Pruning
begin

text \<open>
  core/receipt, core/receipt/ran, core/receipt/fx and their data models: the receipt of an invocation
  as a view over blocks, issuing and verifying it, its effects, archives and attaching the
  invocation it is for.
\<close>

section \<open>What ran, and the effects\<close>

text \<open>
  \<open>ran.Ran\<close> and \<open>fx.Effect\<close>: an invocation or a link to one; either field may be nil. The two
  structs have the same fields and methods.
\<close>

record inv_ref =
  ir_invocation :: "delegation option"
  ir_link :: "link option"

type_synonym ran = inv_ref
type_synonym effect = inv_ref

definition ran_Invocation :: "ran \<Rightarrow> delegation option" where
  "ran_Invocation r = ir_invocation r"

definition ran_Link :: "ran \<Rightarrow> link option" where
  "ran_Link r = (case ir_invocation r of Some i \<Rightarrow> Some (dlg_Link i) | None \<Rightarrow> ir_link r)"

definition ran_FromInvocation :: "delegation option \<Rightarrow> ran" where
  "ran_FromInvocation i = \<lparr> ir_invocation = i, ir_link = None \<rparr>"

definition ran_FromLink :: "link option \<Rightarrow> ran" where
  "ran_FromLink l = \<lparr> ir_invocation = None, ir_link = l \<rparr>"

definition ran_WriteInto :: "ran \<Rightarrow> blockreader \<Rightarrow> (link option \<times> blockreader) comp" where
  "ran_WriteInto r bs =
     (case ran_Invocation r of
        Some i \<Rightarrow> cmap (\<lambda>bs'. (ran_Link r, bs')) (bs_WriteInto (dlg_Blocks i) bs)
      | None \<Rightarrow> Ret (ran_Link r, bs))"

definition effect0 :: effect where
  "effect0 = \<lparr> ir_invocation = None, ir_link = None \<rparr>"

definition effect_Invocation :: "effect \<Rightarrow> delegation option" where
  "effect_Invocation e = ir_invocation e"

definition effect_Link :: "effect \<Rightarrow> link option" where
  "effect_Link e = (case ir_invocation e of Some i \<Rightarrow> Some (dlg_Link i) | None \<Rightarrow> ir_link e)"

definition effect_FromLink :: "link option \<Rightarrow> effect" where
  "effect_FromLink l = \<lparr> ir_invocation = None, ir_link = l \<rparr>"

definition effect_FromInvocation :: "delegation option \<Rightarrow> effect" where
  "effect_FromInvocation i = \<lparr> ir_invocation = i, ir_link = None \<rparr>"

record effects =
  fx_Fork :: "effect list"
  fx_Join :: effect

datatype fx_option = FxFork "effect list" | FxJoin effect

fun apply_fx_option :: "effects \<Rightarrow> fx_option \<Rightarrow> effects" where
  "apply_fx_option fx (FxFork forks) = fx\<lparr> fx_Fork := forks \<rparr>"
| "apply_fx_option fx (FxJoin join) = fx\<lparr> fx_Join := join \<rparr>"

definition NewEffects :: "fx_option list \<Rightarrow> effects" where
  "NewEffects opts = foldl apply_fx_option \<lparr> fx_Fork = [], fx_Join = effect0 \<rparr> opts"

section \<open>The data model\<close>

text \<open>The values of a result are held as \<open>any\<close>; a link may be nil until it is encoded.\<close>

record effects_model =
  em_Fork :: "link option list"
  em_Join :: "link option"

record meta_model =
  mm_Keys :: "string list"
  mm_Values :: "string \<rightharpoonup> node"

record result_model =
  rm_Ok :: "gany option"
  rm_Error :: "gany option"

record outcome_model =
  om_Ran :: "link option"
  om_Out :: result_model
  om_Fx :: effects_model
  om_Meta :: meta_model
  om_Iss :: "string option"
  om_Prf :: "link list"

record receipt_model =
  rc_Ocm :: outcome_model
  rc_Sig :: bytes

text \<open>
  The encodings: of an outcome of nodes, the codec of a receipt at receipt.ipldsch with any result,
  the codec of the archive descriptor, which is one link, and the wrapping of metadata values.
\<close>

record rcptlib =
  rl_outcome :: "outcome_model \<Rightarrow> err + bytes"
  rl_receipt :: "receipt_model codec"
  rl_archive :: "link codec"
  rl_wrap :: "gany \<Rightarrow> err + node"

definition toResultModel :: "(gany, gany) result \<Rightarrow> result_model comp" where
  "toResultModel res =
     MatchResultR1 res (\<lambda>ok. Ret \<lparr> rm_Ok = Some ok, rm_Error = None \<rparr>)
                       (\<lambda>err. Ret \<lparr> rm_Ok = None, rm_Error = Some err \<rparr>)"

definition fromResultModel :: "result_model \<Rightarrow> (gany, gany) result comp" where
  "fromResultModel m =
     (case rm_Ok m of
        Some ok \<Rightarrow> Ret (okResult ok)
      | None \<Rightarrow> (case rm_Error m of
                   Some err \<Rightarrow> Ret (errResult err)
                 | None \<Rightarrow> Panic ''nil pointer dereference''))"

section \<open>Receipts\<close>

text \<open>\<open>rp_store\<close> says whether the block reader is a block store, into which blocks can be put.\<close>

record receipt =
  rp_rt :: block
  rp_blks :: blockreader
  rp_store :: bool
  rp_data :: receipt_model

definition NewReceipt :: "extlib \<Rightarrow> receipt_model codec \<Rightarrow> link \<Rightarrow> blockreader \<Rightarrow> bool \<Rightarrow> err + receipt" where
  "NewReceipt L C root blocks store =
     (case br_Get blocks root of
        None \<Rightarrow> Inl (''missing receipt root block: '' @ root)
      | Some rblock \<Rightarrow>
          (case block_Decode L C rblock of
             Inl e \<Rightarrow> Inl (''decoding receipt: '' @ e)
           | Inr rmdl \<Rightarrow>
               Inr \<lparr> rp_rt = rblock, rp_blks = blocks, rp_store = store, rp_data = rmdl \<rparr>))"

definition NewAnyReceipt :: "extlib \<Rightarrow> rcptlib \<Rightarrow> link \<Rightarrow> blockreader \<Rightarrow> bool \<Rightarrow> err + receipt" where
  "NewAnyReceipt L R root blocks store = NewReceipt L (rl_receipt R) root blocks store"

definition rcpt_Blocks :: "receipt \<Rightarrow> block_seq" where
  "rcpt_Blocks r = br_Iterator (rp_blks r)"

definition rcpt_Root :: "receipt \<Rightarrow> block" where
  "rcpt_Root r = rp_rt r"

text \<open>
  One effect of a receipt: the error of \<open>NewDelegation\<close> is not looked at, and the nil invocation that
  comes with it makes an effect with neither an invocation nor a link. Looking up a nil link panics.
\<close>

definition fx_effect :: "extlib \<Rightarrow> ucanlib \<Rightarrow> blockreader \<Rightarrow> link option \<Rightarrow> effect comp" where
  "fx_effect L U blks l =
     (case l of
        None \<Rightarrow> Panic ''nil pointer dereference''
      | Some k \<Rightarrow>
          Ret (case br_Get blks k of
                 Some b \<Rightarrow>
                   effect_FromInvocation (case NewDelegation L U b blks of Inr i \<Rightarrow> Some i | Inl _ \<Rightarrow> None)
               | None \<Rightarrow> effect_FromLink l))"

definition rcpt_Fx :: "extlib \<Rightarrow> ucanlib \<Rightarrow> receipt \<Rightarrow> effects comp" where
  "rcpt_Fx L U r =
     (let fx = om_Fx (rc_Ocm (rp_data r))
      in cbind (cmapM (fx_effect L U (rp_blks r)) (em_Fork fx)) (\<lambda>fork.
         cbind (case em_Join fx of
                  None \<Rightarrow> Ret effect0
                | Some l \<Rightarrow> fx_effect L U (rp_blks r) (Some l)) (\<lambda>join.
         Ret (NewEffects [FxFork fork, FxJoin join]))))"

text \<open>The issuer: nil when absent, and the undefined DID when it does not parse.\<close>

definition rcpt_Issuer :: "extlib \<Rightarrow> receipt \<Rightarrow> did option" where
  "rcpt_Issuer L r =
     (case om_Iss (rc_Ocm (rp_data r)) of
        None \<Rightarrow> None
      | Some s \<Rightarrow> Some (case did_Parse L s of Inl e \<Rightarrow> Undef | Inr d \<Rightarrow> d))"

definition rcpt_Proofs :: "extlib \<Rightarrow> ucanlib \<Rightarrow> receipt \<Rightarrow> dproof list" where
  "rcpt_Proofs L U r = NewProofsView L U (om_Prf (rc_Ocm (rp_data r))) (rp_blks r)"

definition rcpt_Meta :: "receipt \<Rightarrow> string \<rightharpoonup> node" where
  "rcpt_Meta r = mm_Values (om_Meta (rc_Ocm (rp_data r)))"

definition rcpt_Out :: "receipt \<Rightarrow> (gany, gany) result comp" where
  "rcpt_Out r = fromResultModel (om_Out (rc_Ocm (rp_data r)))"

definition rcpt_Ran :: "extlib \<Rightarrow> ucanlib \<Rightarrow> receipt \<Rightarrow> ran comp" where
  "rcpt_Ran L U r =
     (case om_Ran (rc_Ocm (rp_data r)) of
        None \<Rightarrow> Panic ''nil pointer dereference''
      | Some l \<Rightarrow>
          Ret (case br_Get (rp_blks r) l of
                 None \<Rightarrow> ran_FromLink (Some l)
               | Some _ \<Rightarrow>
                   (case NewInvocationView L U l (rp_blks r) of
                      Inl _ \<Rightarrow> ran_FromLink (Some l)
                    | Inr ivk \<Rightarrow> ran_FromInvocation (Some ivk))))"

definition rcpt_Signature :: "receipt \<Rightarrow> signature" where
  "rcpt_Signature r = NewSignatureView (sig_Decode (rc_Sig (rp_data r)))"

text \<open>\<open>toIPLDNode\<close> on \<open>any\<close>: a node, or a builder.\<close>

definition toIPLDNode :: "extlib \<Rightarrow> gany \<Rightarrow> err + node" where
  "toIPLDNode L b =
     (case b of
        GNode n \<Rightarrow> Inr n
      | GBuilder _ r \<Rightarrow> r
      | GAttestation l \<Rightarrow> wrap_attestation L l
      | GNil \<Rightarrow> Inl ''expected IPLD node or builder, got <nil>''
      | GLink _ \<Rightarrow> Inl ''expected IPLD node or builder''
      | GOpaque t \<Rightarrow> Inl (''expected IPLD node or builder, got '' @ t))"

text \<open>A conversion as a value and an error: the node is nil when there is an error.\<close>

definition node_or_nil :: "err + node \<Rightarrow> gany \<times> err option" where
  "node_or_nil r = (case r of Inl e \<Rightarrow> (GNil, Some e) | Inr n \<Rightarrow> (GNode n, None))"

definition rcpt_VerifySignature :: "extlib \<Rightarrow> rcptlib \<Rightarrow> receipt \<Rightarrow> verifier \<Rightarrow> (err + bool) comp" where
  "rcpt_VerifySignature L R r vf =
     cbind (rcpt_Out r) (\<lambda>out.
     cbind (MapResultR1 out (\<lambda>b. node_or_nil (toIPLDNode L b)) (\<lambda>b. node_or_nil (toIPLDNode L b)))
       (\<lambda>(nodeResult, e). case e of
          Some e \<Rightarrow> Ret (Inl e)
        | None \<Rightarrow>
            cbind (toResultModel nodeResult) (\<lambda>resultModel.
            let ocm = rc_Ocm (rp_data r);
                outcomeModel = \<lparr> om_Ran = om_Ran ocm, om_Out = resultModel, om_Fx = om_Fx ocm,
                                 om_Meta = om_Meta ocm, om_Iss = om_Iss ocm, om_Prf = om_Prf ocm \<rparr>
            in case rl_outcome R outcomeModel of
                 Inl e \<Rightarrow> Ret (Inl e)
               | Inr outcomeBytes \<Rightarrow>
                   cmap Inr (sigview_Verify (rcpt_Signature r) outcomeBytes (vf_Verify vf)))))"

text \<open>The blocks of the invocation, the effects and the proofs at hand, then the root.\<close>

definition export_refs :: "nat \<Rightarrow> extlib \<Rightarrow> ucanlib \<Rightarrow> delegation option list \<Rightarrow> block_seq list comp" where
  "export_refs n L U refs = cmapM (\<lambda>i. dlg_Export n L U [] i) (List.map_filter (\<lambda>r. r) refs)"

definition rcpt_Export :: "nat \<Rightarrow> extlib \<Rightarrow> ucanlib \<Rightarrow> receipt \<Rightarrow> block_seq comp" where
  "rcpt_Export n L U r =
     cbind (rcpt_Ran L U r) (\<lambda>rn.
     cbind (rcpt_Fx L U r) (\<lambda>fx.
     cmap (\<lambda>seqs. iter_Concat2 (seqs @ [[Inr (rcpt_Root r)]]))
       (export_refs n L U
          ([ran_Invocation rn] @ map effect_Invocation (fx_Fork fx) @ [effect_Invocation (fx_Join fx)] @
           map proof_Delegation (rcpt_Proofs L U r)))))"

definition rcpt_Archive :: "nat \<Rightarrow> extlib \<Rightarrow> ucanlib \<Rightarrow> rcptlib \<Rightarrow> carlib \<Rightarrow> receipt \<Rightarrow> stream comp" where
  "rcpt_Archive n L U R K r =
     (case block_Encode L (rl_archive R) (blk_link (rp_rt r)) of
        Inl e \<Rightarrow> Ret ([], Some ''io: read/write on closed pipe'')
      | Inr variant \<Rightarrow>
          cmap (\<lambda>seq. car_Encode K [blk_link variant] (seq_then seq [Inr variant]))
               (rcpt_Export n L U r))"

definition rcpt_Clone :: "receipt \<Rightarrow> err + receipt" where
  "rcpt_Clone r =
     (case NewBlockStore [] (br_Iterator (rp_blks r)) of
        Inl e \<Rightarrow> Inl (''creating block reader: '' @ e)
      | Inr blks \<Rightarrow> Inr (r\<lparr> rp_blks := blks, rp_store := True \<rparr>))"

text \<open>
  Attaching: the error, if any, and the receipt afterwards. A block store keeps the blocks put before
  an error; a block reader is replaced by a new one.
\<close>

fun put_until_error :: "block_seq \<Rightarrow> blockreader \<Rightarrow> err option \<times> blockreader" where
  "put_until_error [] bs = (None, bs)"
| "put_until_error (Inl e # rest) bs = (Some (''attaching invocation blocks: '' @ e), bs)"
| "put_until_error (Inr b # rest) bs = put_until_error rest (bs_Put bs b)"

definition AttachInvocation ::
    "nat \<Rightarrow> extlib \<Rightarrow> ucanlib \<Rightarrow> receipt \<Rightarrow> delegation \<Rightarrow> (err option \<times> receipt) comp" where
  "AttachInvocation n L U r ivk =
     cbind (rcpt_Ran L U r) (\<lambda>rn.
       if ran_Link rn \<noteq> Some (dlg_Link ivk) then
         Ret (Some (''expected invocation with CID '' @ (case ran_Link rn of Some l \<Rightarrow> l | None \<Rightarrow> []) @
                    '', got '' @ dlg_Link ivk), r)
       else if ran_Invocation rn \<noteq> None then Ret (None, r)
       else cmap (\<lambda>exported.
              if rp_store r then
                let (e, blks) = put_until_error exported (rp_blks r) in (e, r\<lparr> rp_blks := blks \<rparr>)
              else
                (case NewBlockReader [] (iter_Concat2 [br_Iterator (rp_blks r), exported]) of
                   Inl e \<Rightarrow> (Some (''creating block reader: '' @ e), r)
                 | Inr blks \<Rightarrow> (None, r\<lparr> rp_blks := blks \<rparr>)))
            (dlg_Export n L U [] ivk))"

section \<open>Readers\<close>

text \<open>
  A receipt reader is the codec of its type. The types come from a schema, or from the types of the two
  results; loading them is a parameter.
\<close>

type_synonym receipt_reader = "receipt_model codec"

definition rr_Read :: "extlib \<Rightarrow> receipt_reader \<Rightarrow> link \<Rightarrow> block_seq \<Rightarrow> err + receipt" where
  "rr_Read L rr rcpt blks =
     (case NewBlockReader [] blks of
        Inl e \<Rightarrow> Inl (''creating block reader: '' @ e)
      | Inr br \<Rightarrow> NewReceipt L rr rcpt br False)"

definition NewReceiptReader :: "err + receipt_reader \<Rightarrow> err + receipt_reader" where
  "NewReceiptReader typ =
     (case typ of Inl e \<Rightarrow> Inl (''loading receipt data model: '' @ e) | Inr C \<Rightarrow> Inr C)"

definition NewAnyReceiptReader :: "rcptlib \<Rightarrow> receipt_reader" where
  "NewAnyReceiptReader R = rl_receipt R"

definition NewReceiptReaderFromTypes :: "err + receipt_reader \<Rightarrow> err + receipt_reader" where
  "NewReceiptReaderFromTypes typ =
     (case typ of Inl e \<Rightarrow> Inl (''loading receipt data model: '' @ e) | Inr C \<Rightarrow> Inr C)"

definition rcpt_Rebind :: "extlib \<Rightarrow> err + receipt_reader \<Rightarrow> receipt \<Rightarrow> err + receipt" where
  "rcpt_Rebind L typ from =
     (case NewReceiptReaderFromTypes typ of
        Inl e \<Rightarrow> Inl e
      | Inr rdr \<Rightarrow> rr_Read L rdr (blk_link (rcpt_Root from)) (rcpt_Blocks from))"

definition rcpt_Extract :: "extlib \<Rightarrow> rcptlib \<Rightarrow> carlib \<Rightarrow> bytes \<Rightarrow> err + receipt" where
  "rcpt_Extract L R K b =
     (case car_Decode L K b of
        Inl e \<Rightarrow> Inl (''decoding CAR: '' @ e)
      | Inr (roots, blks) \<Rightarrow>
          (case roots of
             [] \<Rightarrow> Inl ''missing root CID in receipt archive''
           | root # others \<Rightarrow>
               if others \<noteq> [] then Inl ''unexpected number of root CIDs in archive''
               else (case NewBlockReader [] (plain_seq blks) of
                       Inl e \<Rightarrow> Inl (''creating block reader: '' @ e)
                     | Inr br \<Rightarrow>
                         (case br_Get br root of
                            None \<Rightarrow> Inl (''missing root block: '' @ root)
                          | Some rt \<Rightarrow>
                              (case block_Decode L (rl_archive R) rt of
                                 Inl e \<Rightarrow> Inl (''decoding root block: '' @ e)
                               | Inr model \<Rightarrow> NewAnyReceipt L R model br False)))))"

section \<open>Issuing\<close>

text \<open>The metadata as the pairs of the map in the order its iteration takes, or nil.\<close>

datatype rcpt_option =
    RWithProofs "dproof list" | RWithMeta "(string \<times> gany) list option" | RWithFork "effect list"
  | RWithJoin effect

record receiptConfig =
  rg_meta :: "(string \<times> gany) list option"
  rg_prf :: "dproof list"
  rg_forks :: "effect list"
  rg_join :: effect

definition receiptConfig0 :: receiptConfig where
  "receiptConfig0 = \<lparr> rg_meta = None, rg_prf = [], rg_forks = [], rg_join = effect0 \<rparr>"

fun apply_rcpt_option :: "receiptConfig \<Rightarrow> rcpt_option \<Rightarrow> receiptConfig" where
  "apply_rcpt_option cfg (RWithProofs prf) = cfg\<lparr> rg_prf := prf \<rparr>"
| "apply_rcpt_option cfg (RWithMeta meta) = cfg\<lparr> rg_meta := meta \<rparr>"
| "apply_rcpt_option cfg (RWithFork forks) = cfg\<lparr> rg_forks := forks \<rparr>"
| "apply_rcpt_option cfg (RWithJoin join) = cfg\<lparr> rg_join := join \<rparr>"

text \<open>The link of an effect, and the store after the blocks of its invocation are put.\<close>

definition effect_WriteInto :: "effect \<Rightarrow> blockreader \<Rightarrow> blockreader comp" where
  "effect_WriteInto e bs =
     (case effect_Invocation e of
        Some i \<Rightarrow> bs_WriteInto (dlg_Blocks i) bs
      | None \<Rightarrow> Ret bs)"

fun forks_WriteInto :: "effect list \<Rightarrow> blockreader \<Rightarrow> (link option list \<times> blockreader) comp" where
  "forks_WriteInto [] bs = Ret ([], bs)"
| "forks_WriteInto (e # es) bs =
     cbind (effect_WriteInto e bs) (\<lambda>bs'.
     cbind (forks_WriteInto es bs') (\<lambda>(links, bs''). Ret (effect_Link e # links, bs'')))"

definition join_WriteInto :: "effect \<Rightarrow> blockreader \<Rightarrow> (link option \<times> blockreader) comp" where
  "join_WriteInto e bs =
     (if e \<noteq> effect0 then cmap (\<lambda>bs'. (effect_Link e, bs')) (effect_WriteInto e bs)
      else Ret (None, bs))"

definition issue_meta :: "rcptlib \<Rightarrow> (string \<times> gany) list option \<Rightarrow> err + meta_model" where
  "issue_meta R meta =
     (case meta of
        None \<Rightarrow> Inr \<lparr> mm_Keys = [], mm_Values = Map.empty \<rparr>
      | Some kvs \<Rightarrow>
          (case emapM (\<lambda>(k, v). case rl_wrap R v of Inl e \<Rightarrow> Inl e | Inr nd \<Rightarrow> Inr (k, nd)) kvs of
             Inl e \<Rightarrow> Inl e
           | Inr nds \<Rightarrow> Inr \<lparr> mm_Keys = map fst nds,
                            mm_Values = foldl (\<lambda>m (k, nd). m(k \<mapsto> nd)) Map.empty nds \<rparr>))"

text \<open>The result holds \<open>ipld.Builder\<close>s, by what their \<open>ToIPLD\<close> returns.\<close>

definition rcpt_Issue ::
    "extlib \<Rightarrow> rcptlib \<Rightarrow> signer \<Rightarrow> (err + node, err + node) result \<Rightarrow> ran \<Rightarrow> rcpt_option list \<Rightarrow>
     (err + receipt) comp" where
  "rcpt_Issue L R issuer out rn opts =
     (let cfg = foldl apply_rcpt_option receiptConfig0 opts
      in case NewBlockStore [] [] of
           Inl e \<Rightarrow> Ret (Inl e)
         | Inr bs0 \<Rightarrow>
             cbind (ran_WriteInto rn bs0) (\<lambda>(invocationLink, bs1).
             cbind (forks_WriteInto (rg_forks cfg) bs1) (\<lambda>(forks, bs2).
             cbind (join_WriteInto (rg_join cfg) bs2) (\<lambda>(join, bs3).
             cbind (proofs_WriteInto (rg_prf cfg) bs3) (\<lambda>(prooflinks, bs).
             case issue_meta R (rg_meta cfg) of
               Inl e \<Rightarrow> Ret (Inl e)
             | Inr metaModel \<Rightarrow>
                 cbind (MapResultR1 out node_or_nil node_or_nil) (\<lambda>(nodeResult, e). case e of
                   Some e \<Rightarrow> Ret (Inl e)
                 | None \<Rightarrow>
                     cbind (toResultModel nodeResult) (\<lambda>resultModel.
                     cbind (did_String L (sg_DID issuer)) (\<lambda>issString.
                     let outcomeModel =
                           \<lparr> om_Ran = invocationLink, om_Out = resultModel,
                             om_Fx = \<lparr> em_Fork = forks, em_Join = join \<rparr>, om_Meta = metaModel,
                             om_Iss = Some issString, om_Prf = prooflinks \<rparr>
                     in case rl_outcome R outcomeModel of
                          Inl e \<Rightarrow> Ret (Inl e)
                        | Inr outcomeBytes \<Rightarrow>
                            cbind (sg_Sign issuer outcomeBytes) (\<lambda>sig.
                            let receiptModel = \<lparr> rc_Ocm = outcomeModel, rc_Sig = sig_Bytes sig \<rparr>
                            in case block_Encode L (rl_receipt R) receiptModel of
                                 Inl e \<Rightarrow> Ret (Inl (''encoding receipt: '' @ e))
                               | Inr rt \<Rightarrow>
                                   Ret (Inr \<lparr> rp_rt = rt, rp_blks = bs_Put bs rt, rp_store = True,
                                              rp_data = receiptModel \<rparr>))))))))))"

section \<open>What is issued\<close>

text \<open>The nodes of a result, each as the value the data model holds.\<close>

definition node_result :: "(err + node, err + node) result \<Rightarrow> (gany, gany) result \<Rightarrow> bool" where
  "node_result out r \<longleftrightarrow>
     (\<exists>n. out = okResult (Inr n) \<and> r = okResult (GNode n)) \<or>
     (\<exists>n. out = errResult (Inr n) \<and> r = errResult (GNode n))"

lemma MapResultR1_node:
  "MapResultR1 out node_or_nil node_or_nil = Ret (r, None) \<longleftrightarrow> node_result out r"
  by (cases out)
     (auto simp: MapResultR1_def MatchResultR2_def node_or_nil_def node_result_def Let_def
        split: sum.splits)

lemma toResultModel_Ret:
  "toResultModel r = Ret m \<longleftrightarrow>
     (\<exists>v. r = okResult v \<and> m = \<lparr> rm_Ok = Some v, rm_Error = None \<rparr>) \<or>
     (\<exists>v. r = errResult v \<and> m = \<lparr> rm_Ok = None, rm_Error = Some v \<rparr>)"
  by (cases r) (auto simp: toResultModel_def MatchResultR1_def)

lemma from_to_ResultModel: "toResultModel r = Ret m \<Longrightarrow> fromResultModel m = Ret r"
  by (auto simp: toResultModel_Ret fromResultModel_def)

lemma rcpt_Issue_inversion:
  assumes "rcpt_Issue L R issuer out rn opts = Ret (Inr r)"
  obtains cfg bs1 forks bs2 join bs3 links bs meta res resm iss msg sig rt where
    "cfg = foldl apply_rcpt_option receiptConfig0 opts"
    "ran_WriteInto rn br_empty = Ret (om_Ran (rc_Ocm (rp_data r)), bs1)"
    "forks_WriteInto (rg_forks cfg) bs1 = Ret (forks, bs2)"
    "join_WriteInto (rg_join cfg) bs2 = Ret (join, bs3)"
    "proofs_WriteInto (rg_prf cfg) bs3 = Ret (links, bs)"
    "issue_meta R (rg_meta cfg) = Inr meta"
    "node_result out res" "toResultModel res = Ret resm"
    "did_String L (sg_DID issuer) = Ret iss"
    "om_Out (rc_Ocm (rp_data r)) = resm" "om_Fx (rc_Ocm (rp_data r)) = \<lparr> em_Fork = forks, em_Join = join \<rparr>"
    "om_Meta (rc_Ocm (rp_data r)) = meta" "om_Iss (rc_Ocm (rp_data r)) = Some iss"
    "om_Prf (rc_Ocm (rp_data r)) = links"
    "rl_outcome R (rc_Ocm (rp_data r)) = Inr msg"
    "sg_Sign issuer msg = Ret sig" "rc_Sig (rp_data r) = sig"
    "block_Encode L (rl_receipt R) (rp_data r) = Inr rt"
    "rp_rt r = rt" "rp_blks r = bs_Put bs rt" "rp_store r"
proof -
  from assms obtain link bs1 forks bs2 join bs3 links bs meta res resm iss msg sig rt where
    a: "ran_WriteInto rn br_empty = Ret (link, bs1)"
    "forks_WriteInto (rg_forks (foldl apply_rcpt_option receiptConfig0 opts)) bs1 = Ret (forks, bs2)"
    "join_WriteInto (rg_join (foldl apply_rcpt_option receiptConfig0 opts)) bs2 = Ret (join, bs3)"
    "proofs_WriteInto (rg_prf (foldl apply_rcpt_option receiptConfig0 opts)) bs3 = Ret (links, bs)"
    "issue_meta R (rg_meta (foldl apply_rcpt_option receiptConfig0 opts)) = Inr meta"
    "MapResultR1 out node_or_nil node_or_nil = Ret (res, None)" "toResultModel res = Ret resm"
    "did_String L (sg_DID issuer) = Ret iss"
    "rl_outcome R \<lparr> om_Ran = link, om_Out = resm, om_Fx = \<lparr> em_Fork = forks, em_Join = join \<rparr>,
       om_Meta = meta, om_Iss = Some iss, om_Prf = links \<rparr> = Inr msg"
    "sg_Sign issuer msg = Ret sig"
    "block_Encode L (rl_receipt R) \<lparr> rc_Ocm = \<lparr> om_Ran = link, om_Out = resm,
       om_Fx = \<lparr> em_Fork = forks, em_Join = join \<rparr>, om_Meta = meta, om_Iss = Some iss, om_Prf = links \<rparr>,
       rc_Sig = sig_Bytes sig \<rparr> = Inr rt"
    "r = \<lparr> rp_rt = rt, rp_blks = bs_Put bs rt, rp_store = True,
       rp_data = \<lparr> rc_Ocm = \<lparr> om_Ran = link, om_Out = resm,
       om_Fx = \<lparr> em_Fork = forks, em_Join = join \<rparr>, om_Meta = meta, om_Iss = Some iss, om_Prf = links \<rparr>,
       rc_Sig = sig_Bytes sig \<rparr> \<rparr>"
    by (auto simp: rcpt_Issue_def Let_def NewBlockStore_def case_sum_eq case_option_eq)
  show thesis by (rule that [OF refl]) (use a in \<open>auto simp: MapResultR1_node sig_Bytes_def\<close>)
qed

text \<open>Putting a view's blocks leaves what is there and adds the rest.\<close>

definition store_grows :: "blockreader \<Rightarrow> blockreader \<Rightarrow> bool" where
  "store_grows s t \<longleftrightarrow> (\<exists>bs. t = foldl bs_Put s bs)"

lemma store_grows_refl [simp, intro]: "store_grows s s"
  by (auto simp: store_grows_def intro: exI [of _ "[]"])

lemma store_grows_trans [trans]: "store_grows s t \<Longrightarrow> store_grows t u \<Longrightarrow> store_grows s u"
  unfolding store_grows_def by (metis foldl_append)

lemma store_grows_Put [intro]: "store_grows s (bs_Put s b)"
  by (auto simp: store_grows_def intro: exI [of _ "[b]"])

lemma store_grows_WriteInto: "bs_WriteInto seq s = Ret t \<Longrightarrow> store_grows s t"
  by (auto simp: WriteInto_Ret store_grows_def)

lemma store_grows_get: "wf_store s \<Longrightarrow> store_grows s t \<Longrightarrow> br_Get s l = Some b \<Longrightarrow> br_Get t l = Some b"
  by (auto simp: store_grows_def store.get_puts)

lemma store_grows_wf: "wf_store s \<Longrightarrow> store_grows s t \<Longrightarrow> wf_store t"
  by (auto simp: store_grows_def store.inv_puts)

lemma WriteInto_has:
  assumes "wf_store s" "bs_WriteInto seq s = Ret t" "Inr b \<in> set seq"
  shows "br_Get t (blk_link b) \<noteq> None"
proof -
  obtain bs where bs: "seq = map Inr bs" "t = foldl bs_Put s bs" using assms(2) by (auto simp: WriteInto_Ret)
  have "b \<in> set bs" using assms(3) bs(1) by auto
  then have "find (\<lambda>x. blk_link x = blk_link b) bs \<noteq> None" by (auto simp: find_link_None)
  then show ?thesis using assms(1) by (auto simp: bs(2) store.get_puts split: option.splits)
qed

lemma forks_WriteInto_Ret:
  "forks_WriteInto es s = Ret (links, t) \<Longrightarrow> links = map effect_Link es \<and> store_grows s t"
  by (induction es arbitrary: s links)
     (auto simp: effect_WriteInto_def case_option_eq
        intro: store_grows_trans [OF store_grows_WriteInto])

lemma join_WriteInto_Ret:
  "join_WriteInto e s = Ret (l, t) \<Longrightarrow> l = effect_Link e \<and> store_grows s t"
  by (auto simp: join_WriteInto_def effect_WriteInto_def effect_Link_def effect0_def case_option_eq
      case_option_eq' store_grows_WriteInto split: if_splits)

lemma proofs_WriteInto_grows: "proofs_WriteInto ps s = Ret (links, t) \<Longrightarrow> store_grows s t"
  using proofs_WriteInto_Ret [of ps s links t] by (auto simp: store_grows_def)

lemma ran_WriteInto_Ret:
  assumes "ran_WriteInto rn s = Ret (l, t)" "wf_store s"
  shows "l = ran_Link rn" "store_grows s t"
    and "ran_Invocation rn = Some i \<Longrightarrow> Inr b \<in> set (dlg_Blocks i) \<Longrightarrow> br_Get t (blk_link b) \<noteq> None"
  using assms
  by (auto simp: ran_WriteInto_def case_option_eq store_grows_WriteInto dest: WriteInto_has [rotated 1])

text \<open>What a signature is checked against: a result's values as nodes.\<close>

definition as_nodes :: "extlib \<Rightarrow> result_model \<Rightarrow> (err + node) option \<times> (err + node) option" where
  "as_nodes L m = (map_option (toIPLDNode L) (rm_Ok m), map_option (toIPLDNode L) (rm_Error m))"

definition rebound :: "extlib \<Rightarrow> receipt \<Rightarrow> receipt \<Rightarrow> bool" where
  "rebound L r r' \<longleftrightarrow>
     rc_Sig (rp_data r') = rc_Sig (rp_data r) \<and>
     (\<exists>m. rc_Ocm (rp_data r') = (rc_Ocm (rp_data r))\<lparr> om_Out := m \<rparr> \<and>
          as_nodes L m = as_nodes L (om_Out (rc_Ocm (rp_data r))))"

lemma rebound_refl: "rp_data r' = rp_data r \<Longrightarrow> rebound L r r'"
  by (auto simp: rebound_def intro: exI [of _ "om_Out (rc_Ocm (rp_data r))"])

text \<open>Verifying hands the verifier the encoded outcome, whatever form the values have.\<close>

lemma VerifySignature_rebound:
  assumes "rebound L r r'" "om_Out (rc_Ocm (rp_data r)) = m" "toResultModel res = Ret m" "node_result out res"
    and "rl_outcome R (rc_Ocm (rp_data r)) = Inr msg"
  shows "rcpt_VerifySignature L R r' vf = cmap Inr (vf_Verify vf msg (rc_Sig (rp_data r)))"
proof -
  obtain m' where m': "rc_Ocm (rp_data r') = (rc_Ocm (rp_data r))\<lparr> om_Out := m' \<rparr>"
    "as_nodes L m' = as_nodes L m" "rc_Sig (rp_data r') = rc_Sig (rp_data r)"
    using assms(1,2) by (auto simp: rebound_def)
  obtain ocm where ocm: "rc_Ocm (rp_data r) = ocm" "om_Out ocm = m" using assms(2) by simp
  have e: "\<lparr> om_Ran = om_Ran ocm, om_Out = m, om_Fx = om_Fx ocm, om_Meta = om_Meta ocm,
             om_Iss = om_Iss ocm, om_Prf = om_Prf ocm \<rparr> = ocm"
    using ocm(2) by (cases ocm) simp
  note unf = rcpt_VerifySignature_def rcpt_Out_def fromResultModel_def MapResultR1_def
      MatchResultR2_def node_or_nil_def toResultModel_def MatchResultR1_def Let_def
      rcpt_Signature_def sigview_Verify_def NewSignatureView_def sig_Decode_def sig_Bytes_def
  from assms(3,4) consider n where "m = \<lparr> rm_Ok = Some (GNode n), rm_Error = None \<rparr>"
    | n where "m = \<lparr> rm_Ok = None, rm_Error = Some (GNode n) \<rparr>"
    by (auto simp: node_result_def toResultModel_Ret)
  then show ?thesis
  proof cases
    case (1 n)
    then obtain v where "m' = \<lparr> rm_Ok = Some v, rm_Error = None \<rparr>" "toIPLDNode L v = Inr n"
      using m'(2) by (cases m') (auto simp: as_nodes_def toIPLDNode_def)
    then show ?thesis using m'(1,3) assms(5) ocm(1) by (simp add: unf e [unfolded 1])
  next
    case (2 n)
    then obtain v where "m' = \<lparr> rm_Ok = None, rm_Error = Some v \<rparr>" "toIPLDNode L v = Inr n"
      using m'(2) by (cases m') (auto simp: as_nodes_def toIPLDNode_def)
    then show ?thesis using m'(1,3) assms(5) ocm(1) by (simp add: unf e [unfolded 2])
  qed
qed

lemma rcpt_issued:
  assumes "rcpt_Issue L R issuer out rn opts = Ret (Inr r)"
  defines "cfg \<equiv> foldl apply_rcpt_option receiptConfig0 opts"
  shows "om_Ran (rc_Ocm (rp_data r)) = ran_Link rn"
    and "\<exists>res. node_result out res \<and> rcpt_Out r = Ret res"
    and "em_Fork (om_Fx (rc_Ocm (rp_data r))) = map effect_Link (rg_forks cfg)"
    and "em_Join (om_Fx (rc_Ocm (rp_data r))) = effect_Link (rg_join cfg)"
    and "om_Prf (rc_Ocm (rp_data r)) = map proof_Link (rg_prf cfg)"
    and "wf_store (rp_blks r)" and "br_Get (rp_blks r) (blk_link (rcpt_Root r)) \<noteq> None"
    and "ran_Invocation rn = Some i \<Longrightarrow> Inr b \<in> set (dlg_Blocks i) \<Longrightarrow> br_Get (rp_blks r) (blk_link b) \<noteq> None"
    and "(\<And>m s. sg_Sign issuer m = Ret s \<Longrightarrow> vf_Verify vf m s = Ret ok) \<Longrightarrow> rebound L r r' \<Longrightarrow>
           rcpt_VerifySignature L R r' vf = Ret (Inr ok)"
proof -
  from assms(1) obtain bs1 forks bs2 join bs3 links bs res resm msg sig rt where
    w: "ran_WriteInto rn br_empty = Ret (om_Ran (rc_Ocm (rp_data r)), bs1)"
      "forks_WriteInto (rg_forks cfg) bs1 = Ret (forks, bs2)" "join_WriteInto (rg_join cfg) bs2 = Ret (join, bs3)"
      "proofs_WriteInto (rg_prf cfg) bs3 = Ret (links, bs)"
    and n: "node_result out res" "toResultModel res = Ret resm"
    and o: "om_Out (rc_Ocm (rp_data r)) = resm" "om_Fx (rc_Ocm (rp_data r)) = \<lparr> em_Fork = forks, em_Join = join \<rparr>"
      "om_Prf (rc_Ocm (rp_data r)) = links"
    and sig: "rl_outcome R (rc_Ocm (rp_data r)) = Inr msg" "sg_Sign issuer msg = Ret sig" "rc_Sig (rp_data r) = sig"
    and rt: "rp_rt r = rt" "rp_blks r = bs_Put bs rt"
    unfolding cfg_def by (rule rcpt_Issue_inversion) metis
  note ran = ran_WriteInto_Ret [OF w(1) store.inv_empty]
  note wf1 = store_grows_wf [OF store.inv_empty ran(2)]
  have g: "store_grows bs1 bs"
    using forks_WriteInto_Ret [OF w(2)] join_WriteInto_Ret [OF w(3)] proofs_WriteInto_grows [OF w(4)]
    by (blast intro: store_grows_trans)
  then have wf: "wf_store bs" by (rule store_grows_wf [OF wf1])
  show "om_Ran (rc_Ocm (rp_data r)) = ran_Link rn" by (rule ran(1))
  show "\<exists>res. node_result out res \<and> rcpt_Out r = Ret res"
    using n from_to_ResultModel [OF n(2)] o(1) by (auto simp: rcpt_Out_def)
  show "em_Fork (om_Fx (rc_Ocm (rp_data r))) = map effect_Link (rg_forks cfg)"
    using forks_WriteInto_Ret [OF w(2)] o(2) by simp
  show "em_Join (om_Fx (rc_Ocm (rp_data r))) = effect_Link (rg_join cfg)"
    using join_WriteInto_Ret [OF w(3)] o(2) by simp
  show "om_Prf (rc_Ocm (rp_data r)) = map proof_Link (rg_prf cfg)"
    using proofs_WriteInto_Ret [OF w(4)] o(3) by blast
  show "wf_store (rp_blks r)" using store.inv_put [OF wf] rt(2) by simp
  show "br_Get (rp_blks r) (blk_link (rcpt_Root r)) \<noteq> None"
    using wf rt by (auto simp: rcpt_Root_def store.get_put)
  show "br_Get (rp_blks r) (blk_link b) \<noteq> None" if "ran_Invocation rn = Some i" "Inr b \<in> set (dlg_Blocks i)"
    using ran(3) [OF that] store_grows_get [OF wf1 store_grows_trans [OF g store_grows_Put]] rt(2) by auto
  show "rcpt_VerifySignature L R r' vf = Ret (Inr ok)"
    if "\<And>m s. sg_Sign issuer m = Ret s \<Longrightarrow> vf_Verify vf m s = Ret ok" "rebound L r r'"
    using VerifySignature_rebound [OF that(2) o(1) n(2,1) sig(1)] that(1) [OF sig(2)] sig(3) by simp
qed

section \<open>A receipt of the concrete signer, for the witnesses\<close>

definition R0 :: "receipt_model \<Rightarrow> rcptlib" where
  "R0 m = \<lparr> rl_outcome = (\<lambda>_. Inr ''ocm''), rl_receipt = table_codec 113 [(''r'', m)],
             rl_archive = \<lparr> cd_Code = 113, cd_Encode = (\<lambda>l. Inr l), cd_Decode = (\<lambda>b. Inr b) \<rparr>,
             rl_wrap = (\<lambda>_. Inl ''unsupported'') \<rparr>"

lemma R0_codecs: "codec_ok (rl_receipt (R0 m))" "codec_ok (rl_archive (R0 m))"
  using table_codec_ok [of "[(''r'', m)]" 113] by (auto simp: R0_def codec_ok_def)

lemma receipt0:
  obtains r where
    "rcpt_Issue lib0 (R0 (rp_data r)) (signer0 (did0 ''s'')) (okResult (Inr (NString ''ok'')))
       (ran_FromLink (Some l)) [] = Ret (Inr r)"
    "om_Ran (rc_Ocm (rp_data r)) = Some l" "rp_blks r = bs_Put br_empty (rp_rt r)" "rp_rt r = blk2 ''r''"
    "om_Fx (rc_Ocm (rp_data r)) = \<lparr> em_Fork = [], em_Join = None \<rparr>" "om_Prf (rc_Ocm (rp_data r)) = []"
proof -
  obtain sig where sig: "sg_Sign (signer0 (did0 ''s'')) ''ocm'' = Ret sig" using signer0_signs by blast
  let ?ocm = "\<lparr> om_Ran = Some l, om_Out = \<lparr> rm_Ok = Some (GNode (NString ''ok'')), rm_Error = None \<rparr>,
      om_Fx = \<lparr> em_Fork = [], em_Join = None \<rparr>, om_Meta = \<lparr> mm_Keys = [], mm_Values = Map.empty \<rparr>,
      om_Iss = Some ''did:web:s'', om_Prf = [] \<rparr>"
  let ?m = "\<lparr> rc_Ocm = ?ocm, rc_Sig = sig \<rparr>"
  have e: "block_Encode lib0 (rl_receipt (R0 ?m)) ?m = Inr (blk2 ''r'')"
    by (simp add: block_Encode_def R0_def table_codec_def blk2_def)
  have "rcpt_Issue lib0 (R0 ?m) (signer0 (did0 ''s'')) (okResult (Inr (NString ''ok'')))
      (ran_FromLink (Some l)) [] =
      Ret (Inr \<lparr> rp_rt = blk2 ''r'', rp_blks = bs_Put br_empty (blk2 ''r''), rp_store = True, rp_data = ?m \<rparr>)"
    using sig e by (simp add: rcpt_Issue_def NewBlockStore_def ran_WriteInto_def ran_FromLink_def ran_Invocation_def
        ran_Link_def receiptConfig0_def join_WriteInto_def issue_meta_def MapResultR1_def MatchResultR2_def
        node_or_nil_def toResultModel_def MatchResultR1_def string_did0 sig_Bytes_def Let_def)
       (simp add: R0_def sig_Bytes_def Let_def)
  then show thesis by (rule that [rotated -1, where r = "\<lparr> rp_rt = blk2 ''r'',
      rp_blks = bs_Put br_empty (blk2 ''r''), rp_store = True, rp_data = ?m \<rparr>", simplified])
qed

lemma signer0_verifier0:
  assumes "sg_Sign (signer0 d) m = Ret s" shows "vf_Verify (verifier0 d') m s = Ret True"
  using assms eds_sign_bytes [OF lib0_varint_ok lib0_ed25519_ok, of "replicate 32 (CHR ''s'')" "replicate 32 (CHR ''p'')" m]
    edv_accepts [OF lib0_varint_ok lib0_ed25519_ok, of "replicate 32 (CHR ''s'')" "replicate 32 (CHR ''p'')" m]
  by (simp add: signer0_def verifier0_def edv_verifier_def key0_def pub0_def)

lemma wf_receipt0: "wf_store (bs_Put br_empty b)"
  by (rule store.inv_put [OF store.inv_empty])

section \<open>Properties\<close>

text \<open>
  C20. A receipt verifies under any verifier that accepts what its issuer signs: the receipt itself, and
  every receipt that holds the same signature and outcome with the values of the result rebound to
  other types that convert to the same nodes. A verifier that refuses the signature makes the answer
  false, not an error.
\<close>

theorem issued_receipt_verifies:
  assumes "rcpt_Issue L R issuer out rn opts = Ret (Inr r)" and "rebound L r r'"
    and "\<And>m s. sg_Sign issuer m = Ret s \<Longrightarrow> vf_Verify vf m s = Ret b"
  shows "rcpt_VerifySignature L R r' vf = Ret (Inr b)"
  by (rule rcpt_issued(9) [OF assms(1,3,2)])

theorem issued_receipt_verifies_witness:
  "\<exists>r. rcpt_Issue lib0 (R0 (rp_data r)) (signer0 (did0 ''s'')) (okResult (Inr (NString ''ok'')))
         (ran_FromLink (Some ''ivk'')) [] = Ret (Inr r) \<and>
       rcpt_VerifySignature lib0 (R0 (rp_data r)) r (verifier0 (did0 ''s'')) = Ret (Inr True)"
proof -
  obtain r where r: "rcpt_Issue lib0 (R0 (rp_data r)) (signer0 (did0 ''s'')) (okResult (Inr (NString ''ok'')))
      (ran_FromLink (Some ''ivk'')) [] = Ret (Inr r)"
    by (rule receipt0)
  have "rcpt_VerifySignature lib0 (R0 (rp_data r)) r (verifier0 (did0 ''s'')) = Ret (Inr True)"
    by (rule issued_receipt_verifies [OF r rebound_refl [OF refl]]) (rule signer0_verifier0)
  with r show ?thesis by blast
qed

text \<open>
  C27. What is issued: the receipt holds the link that ran, the result's node, the links of the effects
  and the proofs in order, and the issuer's DID reads back; its root decodes to its data and is in its
  store, as is every block of the invocation that ran.
\<close>

theorem issued_receipt_contents:
  assumes "varint_ok L" "multibase_ok L" "wf_did L (sg_DID issuer)" "codec_ok (rl_receipt R)"
    and "rcpt_Issue L R issuer out rn opts = Ret (Inr r)"
  shows "om_Ran (rc_Ocm (rp_data r)) = ran_Link rn \<and>
         (\<exists>res. node_result out res \<and> rcpt_Out r = Ret res) \<and>
         em_Fork (om_Fx (rc_Ocm (rp_data r))) =
           map effect_Link (rg_forks (foldl apply_rcpt_option receiptConfig0 opts)) \<and>
         em_Join (om_Fx (rc_Ocm (rp_data r))) =
           effect_Link (rg_join (foldl apply_rcpt_option receiptConfig0 opts)) \<and>
         om_Prf (rc_Ocm (rp_data r)) =
           map proof_Link (rg_prf (foldl apply_rcpt_option receiptConfig0 opts)) \<and>
         rcpt_Issuer L r = Some (sg_DID issuer) \<and>
         block_Decode L (rl_receipt R) (rcpt_Root r) = Inr (rp_data r) \<and>
         br_Get (rp_blks r) (blk_link (rcpt_Root r)) \<noteq> None \<and>
         (\<forall>i b. ran_Invocation rn = Some i \<and> Inr b \<in> set (dlg_Blocks i) \<longrightarrow>
            br_Get (rp_blks r) (blk_link b) \<noteq> None)"
proof -
  obtain iss rt where iss: "did_String L (sg_DID issuer) = Ret iss" "om_Iss (rc_Ocm (rp_data r)) = Some iss"
    and rt: "block_Encode L (rl_receipt R) (rp_data r) = Inr rt" "rp_rt r = rt"
    using assms(5) by (rule rcpt_Issue_inversion)
  have "rcpt_Issuer L r = Some (sg_DID issuer)"
    using parse_of_string [OF assms(1-3)] iss by (auto simp: rcpt_Issuer_def)
  then show ?thesis
    using rcpt_issued(1-5,7,8) [OF assms(5)] block_codec_roundtrip [OF assms(4) rt(1)] rt(2)
    by (auto simp: rcpt_Root_def)
qed

theorem issued_receipt_contents_witness:
  "\<exists>r. rcpt_Issue lib0 (R0 (rp_data r)) (signer0 (did0 ''s'')) (okResult (Inr (NString ''ok'')))
         (ran_FromLink (Some ''ivk'')) [] = Ret (Inr r) \<and> rcpt_Issuer lib0 r = Some (did0 ''s'') \<and>
       block_Decode lib0 (rl_receipt (R0 (rp_data r))) (rcpt_Root r) = Inr (rp_data r)"
proof -
  obtain r where r: "rcpt_Issue lib0 (R0 (rp_data r)) (signer0 (did0 ''s'')) (okResult (Inr (NString ''ok'')))
      (ran_FromLink (Some ''ivk'')) [] = Ret (Inr r)"
    by (rule receipt0)
  have "wf_did lib0 (sg_DID (signer0 (did0 ''s'')))" by (simp add: wf_did0)
  from issued_receipt_contents [OF lib0_varint_ok lib0_multibase_ok this R0_codecs(1) r] r
  show ?thesis by auto
qed

text \<open>
  C31. Archiving a receipt and extracting the archive gives a receipt with the same root and data and every
  exported block, and so the same outcome and signature. The blocks have to be intact and no two
  of them may share a link.
\<close>

theorem receipt_archive_roundtrip:
  assumes "carlib_ok L K" "codec_ok (rl_archive R)"
    and "rcpt_Export n L U r = Ret (map Inr bs)"
    and "block_Encode L (rl_archive R) (blk_link (rcpt_Root r)) = Inr variant"
    and "inj_on blk_link (set (bs @ [variant]))" and "\<forall>b \<in> set (bs @ [variant]). car_intact K b"
    and "block_Decode L (rl_receipt R) (rcpt_Root r) = Inr (rp_data r)"
  shows "\<exists>b r'. rcpt_Archive n L U R K r = Ret (b, None) \<and> rcpt_Extract L R K b = Inr r' \<and>
           rcpt_Root r' = rcpt_Root r \<and> rp_data r' = rp_data r \<and>
           (\<forall>blk \<in> set bs. br_Get (rp_blks r') (blk_link blk) = Some blk)"
proof -
  obtain b cbs br where b: "car_Encode K [blk_link variant] (seq_then (map Inr bs) [Inr variant]) = (b, None)"
    "car_Decode L K b = Inr ([blk_link variant], cbs)" "NewBlockReader [] (plain_seq cbs) = Inr br"
    and get: "\<And>x. x \<in> set (bs @ [variant]) \<Longrightarrow> br_Get br (blk_link x) = Some x"
    using archived_blocks [OF assms(1,5,6)] by blast
  obtain seqs :: "block_seq list" where "map Inr bs = concat seqs @ [Inr (rcpt_Root r)]"
    using assms(3) by (auto simp: rcpt_Export_def iter_Concat2_def)
  then have "Inr (rcpt_Root r) \<in> set (map Inr bs :: block_seq)" by simp
  then have "rcpt_Root r \<in> set bs" by auto
  then have root: "br_Get br (blk_link (rcpt_Root r)) = Some (rcpt_Root r)" using get by simp
  have "rcpt_Archive n L U R K r = Ret (b, None)"
    using b(1) assms(3,4) by (simp add: rcpt_Archive_def rcpt_Root_def)
  moreover have "rcpt_Extract L R K b =
      Inr \<lparr> rp_rt = rcpt_Root r, rp_blks = br, rp_store = False, rp_data = rp_data r \<rparr>"
    using b(2,3) get [of variant] block_codec_roundtrip [OF assms(2,4)] root assms(7)
    by (simp add: rcpt_Extract_def NewAnyReceipt_def NewReceipt_def)
  ultimately show ?thesis using get by (auto simp: rcpt_Root_def)
qed

lemma blk2_link: "blk_link (blk2 b) = char_of (113::nat) # char_of (18::nat) # take 32 (b @ replicate 32 (CHR 0x00))"
  by (simp add: blk2_def NewBlock_def digest_Bytes_def sha256_Sum_def Let_def lib0_def sha256_Code_def)

theorem receipt_archive_roundtrip_witness:
  "\<exists>r b r'. rcpt_Issue lib0 (R0 (rp_data r)) (signer0 (did0 ''s'')) (okResult (Inr (NString ''ok'')))
         (ran_FromLink (Some ''ivk'')) [] = Ret (Inr r) \<and>
       rcpt_Archive 1 lib0 ucanlib0 (R0 (rp_data r)) car0 r = Ret (b, None) \<and>
       rcpt_Extract lib0 (R0 (rp_data r)) car0 b = Inr r' \<and> rp_data r' = rp_data r"
proof -
  obtain r where r: "rcpt_Issue lib0 (R0 (rp_data r)) (signer0 (did0 ''s'')) (okResult (Inr (NString ''ok'')))
      (ran_FromLink (Some ''ivk'')) [] = Ret (Inr r)"
    and s: "om_Ran (rc_Ocm (rp_data r)) = Some ''ivk''" "rp_blks r = bs_Put br_empty (rp_rt r)" "rp_rt r = blk2 ''r''"
      "om_Fx (rc_Ocm (rp_data r)) = \<lparr> em_Fork = [], em_Join = None \<rparr>" "om_Prf (rc_Ocm (rp_data r)) = []"
    by (rule receipt0)
  have "br_Get (rp_blks r) ''ivk'' = None"
    using s(2,3) by (simp add: store.get_put store.inv_empty store.get_empty blk2_link)
  then have ex: "rcpt_Export 1 lib0 ucanlib0 r = Ret (map Inr [rcpt_Root r])"
    using s by (simp add: rcpt_Export_def rcpt_Ran_def rcpt_Fx_def rcpt_Proofs_def NewProofsView_def
        export_refs_def ran_FromLink_def ran_Invocation_def NewEffects_def effect0_def effect_Invocation_def
        iter_Concat2_def List.map_filter_def Let_def)
  let ?R = "R0 (rp_data r)"
  obtain w where w: "block_Encode lib0 (rl_archive ?R) (blk_link (rcpt_Root r)) = Inr w"
    "blk_bytes w = blk_link (rcpt_Root r)"
    using block_Encode_ok [of "rl_archive ?R" "blk_link (rcpt_Root r)" "blk_link (rcpt_Root r)" lib0]
    by (auto simp: R0_def)
  have "blk_link w = char_of (113::nat) # char_of (18::nat) # take 32 (blk_link (blk2 ''r'') @ replicate 32 (CHR 0x00))"
    using w s(3) by (simp add: block_Encode_Inr intact_def R0_def rcpt_Root_def lib0_def sha256_Code_def)
  moreover have "char_of (113::nat) \<noteq> CHR ''r''" by code_simp
  ultimately have "blk_link w \<noteq> blk_link (rcpt_Root r)" using s(3) by (simp add: blk2_link rcpt_Root_def)
  then have inj: "inj_on blk_link (set ([rcpt_Root r] @ [w]))" by auto
  have rt: "block_Encode lib0 (rl_receipt ?R) (rp_data r) = Inr (rcpt_Root r)"
    using s(3) by (simp add: block_Encode_def R0_def table_codec_def blk2_def rcpt_Root_def)
  have "\<forall>b \<in> set ([rcpt_Root r] @ [w]). car_intact car0 b"
    using encoded_car_intact [OF rt] encoded_car_intact [OF w(1)] by simp
  from receipt_archive_roundtrip [OF car0_ok R0_codecs(2) ex w(1) inj this
      block_codec_roundtrip [OF R0_codecs(1) rt]] r
  show ?thesis by blast
qed

lemma put_until_error_ok: "put_until_error (map Inr bs) s = (None, foldl bs_Put s bs)"
  by (induction bs arbitrary: s) auto

text \<open>The blocks of a store, put into an empty one, make it again.\<close>

lemma refill:
  assumes "distinct ks" "\<And>k. k \<in> set ks \<Longrightarrow> \<exists>b. m k = Some b \<and> blk_link b = k"
  shows "foldl bs_Put br_empty (map (the \<circ> m) ks) = \<lparr> br_keys = ks, br_blks = m |` set ks \<rparr>"
  using assms
proof (induction ks rule: rev_induct)
  case (snoc k ks)
  obtain b where b: "m k = Some b" "blk_link b = k" using snoc.prems(2) by auto
  have "br_blks \<lparr> br_keys = ks, br_blks = m |` set ks \<rparr> (blk_link b) = None"
    using snoc.prems(1) b(2) by simp
  moreover have "(m |` set ks)(k \<mapsto> b) = m |` set (ks @ [k])"
    using b(1) by (auto simp: restrict_map_def fun_eq_iff)
  ultimately show ?case using snoc b by (simp add: bs_Put_new)
qed (simp add: br_empty_def)

lemma reader_of_store:
  assumes "wf_store s"
  shows "NewBlockReader [] (br_Iterator s @ map Inr bs) = Inr (foldl bs_Put s bs)"
proof -
  let ?blks = "map (the \<circ> br_blks s) (br_keys s)"
  have k: "\<exists>b. br_blks s k = Some b \<and> blk_link b = k" if "k \<in> set (br_keys s)" for k
    using assms that by (auto simp: wf_store_def)
  then have "br_Iterator s = map Inr ?blks" by (fastforce simp: br_Iterator_def)
  moreover have "br_blks s |` set (br_keys s) = br_blks s"
    using assms by (auto simp: wf_store_def restrict_map_def fun_eq_iff domIff)
  then have "foldl bs_Put br_empty ?blks = s"
    using refill [of "br_keys s" "br_blks s"] k assms by (simp add: wf_store_def)
  moreover have "NewBlockReader [] (map Inr (?blks @ bs)) = Inr (foldl bs_Put br_empty (?blks @ bs))"
    by (simp only: NewBlockReader_eq_NewBlockStore NewBlockStore_def seq_fold_ok foldl.simps)
  ultimately show ?thesis by simp
qed

text \<open>
  C32. Attaching an invocation whose blocks export: another link than the one that ran is refused and
  leaves the receipt alone; otherwise the receipt keeps every block it had and gains those it lacked,
  \<open>Ran\<close> gives the invocation, and attaching it again changes nothing.
\<close>

theorem attach_invocation:
  assumes "wf_store (rp_blks r)" "om_Ran (rc_Ocm (rp_data r)) = Some l" "br_Get (rp_blks r) l = None"
    and "dlg_Export n L U [] ivk = Ret (map Inr bs)" "inj_on blk_link (set bs)"
    and "dlg_decode L U (dl_rt ivk) = Inr (dl_ucan ivk)"
  shows "if dlg_Link ivk = l
         then \<exists>r' i. AttachInvocation n L U r ivk = Ret (None, r') \<and> rp_data r' = rp_data r \<and>
           (\<forall>k. br_Get (rp_blks r') k =
              (case br_Get (rp_blks r) k of Some b \<Rightarrow> Some b | None \<Rightarrow> find (\<lambda>b. blk_link b = k) bs)) \<and>
           rcpt_Ran L U r' = Ret (ran_FromInvocation (Some i)) \<and>
           dl_rt i = dl_rt ivk \<and> dl_ucan i = dl_ucan ivk \<and>
           AttachInvocation n L U r' ivk = Ret (None, r')
         else \<exists>e. AttachInvocation n L U r ivk = Ret (Some e, r)"
proof -
  have ran: "rcpt_Ran L U r = Ret (ran_FromLink (Some l))" using assms(2,3) by (simp add: rcpt_Ran_def)
  note ran_simps = ran_FromLink_def ran_FromInvocation_def ran_Link_def ran_Invocation_def
  show ?thesis
  proof (cases "dlg_Link ivk = l")
    case True
    let ?blks = "foldl bs_Put (rp_blks r) bs"
    let ?r' = "r\<lparr> rp_blks := ?blks \<rparr>"
    have at: "AttachInvocation n L U r ivk = Ret (None, ?r')"
      using True assms(4) ran reader_of_store [OF assms(1), of bs]
      by (simp add: AttachInvocation_def ran_simps put_until_error_ok iter_Concat2_def)
    have get: "br_Get ?blks k =
        (case br_Get (rp_blks r) k of Some b \<Rightarrow> Some b | None \<Rightarrow> find (\<lambda>b. blk_link b = k) bs)" for k
      by (rule store.get_puts [OF assms(1)])
    have "dl_rt ivk \<in> set bs"
      using export_exact [of n L U "[]" "dl_ucan ivk" "dl_rt ivk" "dl_blks ivk" "Some (dl_atch ivk)"
          "map Inr bs" "dl_rt ivk"] assms(4) by (auto simp: dlg_Export_def)
    then have "br_Get ?blks l = Some (dl_rt ivk)"
      using get [of l] assms(3) find_link_inj [OF assms(5), of "dl_rt ivk"] True
      by (simp add: dlg_Link_def)
    then obtain i where i: "NewInvocationView L U l ?blks = Inr i" "dl_rt i = dl_rt ivk"
      "dl_ucan i = dl_ucan ivk" "br_Get ?blks l = Some (dl_rt ivk)"
      using assms(6) by (auto simp: NewInvocationView_def NewDelegationView_Inr)
    then have ran': "rcpt_Ran L U ?r' = Ret (ran_FromInvocation (Some i))"
      using assms(2) by (simp add: rcpt_Ran_def)
    then have "AttachInvocation n L U ?r' ivk = Ret (None, ?r')"
      using i(2) by (simp add: AttachInvocation_def ran_simps dlg_Link_def)
    then show ?thesis using True at get ran' i(2,3) by (auto intro!: exI [of _ ?r'])
  qed (use ran in \<open>auto simp: AttachInvocation_def ran_simps\<close>)
qed

theorem attach_invocation_witness:
  "\<exists>u ivk r r' i. Delegate lib0 (ucanlib0\<lparr> ul_cbor := table_codec 113 [(''u'', u)] \<rparr>) 1000
            (signer0 (did0 ''s'')) (did0 ''a'') [] [] = Ret (Inr ivk) \<and>
     rcpt_Ran lib0 (ucanlib0\<lparr> ul_cbor := table_codec 113 [(''u'', u)] \<rparr>) r = Ret (ran_FromLink (Some (dlg_Link ivk))) \<and>
     AttachInvocation 1 lib0 (ucanlib0\<lparr> ul_cbor := table_codec 113 [(''u'', u)] \<rparr>) r ivk = Ret (None, r') \<and>
     rcpt_Ran lib0 (ucanlib0\<lparr> ul_cbor := table_codec 113 [(''u'', u)] \<rparr>) r' = Ret (ran_FromInvocation (Some i))"
proof -
  obtain u d where u: "Delegate lib0 (ucanlib0\<lparr> ul_cbor := table_codec 113 [(''u'', u)] \<rparr>) 1000
      (signer0 (did0 ''s'')) (did0 ''a'') [] [] = Ret (Inr d)" and p: "um_Prf u = []"
    by (rule delegate0)
  let ?U = "ucanlib0\<lparr> ul_cbor := table_codec 113 [(''u'', u)] \<rparr>"
  obtain v where enc: "block_Encode lib0 (ul_cbor ?U) v = Inr (dl_rt d)"
    and dec: "dlg_decode lib0 ?U (dl_rt d) = Inr (dl_ucan d)" and at: "dl_atch d = br_empty"
    using u by (auto simp: Delegate_Inr NewDelegation_Inr)
  then have rb: "blk_bytes (dl_rt d) = ''u''" and ru: "um_Prf (dl_ucan d) = []"
    using p by (auto simp: block_Encode_Inr dlg_decode_Inr block_Decode_Inr table_codec_def split: if_splits)
  have rt: "dl_rt d = blk2 ''u''"
    using enc rb by (cases "dl_rt d")
      (auto simp: block_Encode_Inr intact_def table_codec_def blk2_def NewBlock_def digest_Bytes_def sha256_Sum_def Let_def)
  have ex: "dlg_Export 1 lib0 ?U [] d = Ret (map Inr [dl_rt d])"
    using ru at by (simp add: dlg_Export_def ucan_Proofs_def seq_then_eq store.iter_empty)
  obtain r where "rcpt_Issue lib0 (R0 (rp_data r)) (signer0 (did0 ''s'')) (okResult (Inr (NString ''ok'')))
      (ran_FromLink (Some (dlg_Link d))) [] = Ret (Inr r)"
    and r: "om_Ran (rc_Ocm (rp_data r)) = Some (dlg_Link d)" "rp_blks r = bs_Put br_empty (rp_rt r)"
    "rp_rt r = blk2 ''r''"
    by (rule receipt0)
  have n: "br_Get (rp_blks r) (dlg_Link d) = None"
    using r(2,3) by (simp add: store.get_put store.inv_empty store.get_empty blk2_link dlg_Link_def rt)
  have wf: "wf_store (rp_blks r)" using r(2) wf_receipt0 by simp
  have "inj_on blk_link (set [dl_rt d])" by simp
  from attach_invocation [OF wf r(1) n ex this dec] obtain r' i where
    "AttachInvocation 1 lib0 ?U r d = Ret (None, r')" "rcpt_Ran lib0 ?U r' = Ret (ran_FromInvocation (Some i))"
    by auto
  moreover have "rcpt_Ran lib0 ?U r = Ret (ran_FromLink (Some (dlg_Link d)))"
    using r(1) n by (simp add: rcpt_Ran_def)
  ultimately show ?thesis using u by (intro exI conjI)
qed

text \<open>
  The links of a receipt's effects: an effect keeps its link when its block is absent or decodes to
  an invocation; a block that does not decode makes an effect that has lost its link.
\<close>

definition effect_kept :: "extlib \<Rightarrow> ucanlib \<Rightarrow> blockreader \<Rightarrow> link option \<Rightarrow> bool" where
  "effect_kept L U blks l \<longleftrightarrow>
     (case l of
        None \<Rightarrow> True
      | Some k \<Rightarrow> (case br_Get blks k of None \<Rightarrow> True | Some b \<Rightarrow> \<not> isl (dlg_decode L U b)))"

lemma fx_effect_link:
  assumes "wf_store blks" "fx_effect L U blks l = Ret e"
  shows "effect_Link e = (if effect_kept L U blks l then l else None)"
proof -
  have "blk_link b = k" if "br_Get blks k = Some b" for k b
    using assms(1) that by (auto simp: wf_store_def br_Get_def)
  then show ?thesis
    using assms(2)
    by (auto simp: fx_effect_def effect_kept_def effect_Link_def effect_FromLink_def effect_FromInvocation_def
        NewDelegation_def NewBlockStore_def dlg_Link_def split: option.splits sum.splits)
qed

lemma effect_links:
  assumes "wf_store (rp_blks r)" "rcpt_Fx L U r = Ret fx"
  shows "map effect_Link (fx_Fork fx) =
           map (\<lambda>l. if effect_kept L U (rp_blks r) l then l else None) (em_Fork (om_Fx (rc_Ocm (rp_data r)))) \<and>
         effect_Link (fx_Join fx) =
           (let l = em_Join (om_Fx (rc_Ocm (rp_data r))) in if effect_kept L U (rp_blks r) l then l else None)"
proof -
  let ?fx = "om_Fx (rc_Ocm (rp_data r))"
  obtain fork where f: "cmapM (fx_effect L U (rp_blks r)) (em_Fork ?fx) = Ret fork" "fx_Fork fx = fork"
    and j: "(case em_Join ?fx of None \<Rightarrow> Ret effect0 | Some l \<Rightarrow> fx_effect L U (rp_blks r) (Some l)) = Ret (fx_Join fx)"
    using assms(2) by (auto simp: rcpt_Fx_def Let_def NewEffects_def)
  have "list_all2 (\<lambda>l e. fx_effect L U (rp_blks r) l = Ret e) (em_Fork ?fx) fork"
    using f(1) by (simp add: cmapM_eq_Ret)
  then have "map effect_Link fork =
      map (\<lambda>l. if effect_kept L U (rp_blks r) l then l else None) (em_Fork ?fx)"
    by (induction rule: list_all2_induct) (auto simp: fx_effect_link [OF assms(1)])
  moreover have "effect_Link (fx_Join fx) =
      (if effect_kept L U (rp_blks r) (em_Join ?fx) then em_Join ?fx else None)"
  proof (cases "em_Join ?fx")
    case None
    with j have "fx_Join fx = effect0" by simp
    then show ?thesis using None by (simp add: effect_kept_def effect0_def effect_Link_def)
  next
    case (Some l)
    with j have "fx_effect L U (rp_blks r) (Some l) = Ret (fx_Join fx)" by simp
    from fx_effect_link [OF assms(1) this] Some show ?thesis by simp
  qed
  ultimately show ?thesis using f(2) by simp
qed

end
