(* ===== verification/Message.thy ===== *)
theory Message
  imports Receipt
begin

text \<open>
  core/message: an agent message is a root block over a block reader, with caches of the invocations
  and receipts decoded from it. The locale \<open>read_through\<close> is the contract of a lookup with a
  cache; it is interpreted on both lookups of a message.
\<close>

section \<open>The data model\<close>

text \<open>The keyed union of messages has one member, so its value is the data.\<close>

record report_model =
  rt_Keys :: "string list"
  rt_Values :: "string \<rightharpoonup> link"

record data_model =
  dm_Execute :: "link list"
  dm_Report :: "report_model option"

text \<open>
  A message and what its operations need: \<open>ms_store\<close> says whether the reader is a block store. The codec
  of messages at agentmessage.ipldsch is a parameter.
\<close>

record message =
  ms_root :: block
  ms_data :: data_model
  ms_blks :: blockreader
  ms_store :: bool
  ms_invs :: "link \<rightharpoonup> delegation"
  ms_rcpts :: "link \<rightharpoonup> receipt"

definition msg_Root :: "message \<Rightarrow> block" where
  "msg_Root m = ms_root m"

definition msg_Blocks :: "message \<Rightarrow> block_seq" where
  "msg_Blocks m = br_Iterator (ms_blks m)"

definition msg_Invocations :: "message \<Rightarrow> link list" where
  "msg_Invocations m = dm_Execute (ms_data m)"

text \<open>A lookup gives an error, nothing, or what was found, and the message with its cache updated.\<close>

definition msg_Invocation :: "extlib \<Rightarrow> ucanlib \<Rightarrow> message \<Rightarrow> link \<Rightarrow> (err + delegation option) \<times> message" where
  "msg_Invocation L U m root =
     (case ms_invs m root of
        Some ivk \<Rightarrow> (Inr (Some ivk), m)
      | None \<Rightarrow>
          (case br_Get (ms_blks m) root of
             None \<Rightarrow> (Inr None, m)
           | Some rtBlk \<Rightarrow>
               (case NewInvocation L U rtBlk (ms_blks m) of
                  Inl e \<Rightarrow> (Inl e, m)
                | Inr ivk \<Rightarrow> (Inr (Some ivk), m\<lparr> ms_invs := (ms_invs m)(root \<mapsto> ivk) \<rparr>))))"

definition msg_Receipts :: "message \<Rightarrow> link list" where
  "msg_Receipts m =
     (case dm_Report (ms_data m) of
        None \<Rightarrow> []
      | Some report \<Rightarrow> List.map_filter (rt_Values report) (rt_Keys report))"

definition msg_Receipt :: "extlib \<Rightarrow> rcptlib \<Rightarrow> message \<Rightarrow> link \<Rightarrow> (err + receipt option) \<times> message" where
  "msg_Receipt L R m root =
     (case ms_rcpts m root of
        Some rcpt \<Rightarrow> (Inr (Some rcpt), m)
      | None \<Rightarrow>
          (case br_Get (ms_blks m) root of
             None \<Rightarrow> (Inr None, m)
           | Some _ \<Rightarrow>
               (case NewAnyReceipt L R root (ms_blks m) (ms_store m) of
                  Inl e \<Rightarrow> (Inl e, m)
                | Inr rcpt \<Rightarrow> (Inr (Some rcpt), m\<lparr> ms_rcpts := (ms_rcpts m)(root \<mapsto> rcpt) \<rparr>))))"

text \<open>
  \<open>Get\<close>: the first key that is the link; the value at it, which is nil when the map lacks the key.
\<close>

definition msg_Get :: "message \<Rightarrow> link \<Rightarrow> link option option" where
  "msg_Get m l =
     (case dm_Report (ms_data m) of
        None \<Rightarrow> None
      | Some report \<Rightarrow>
          (case find (\<lambda>k. k = l) (rt_Keys report) of
             None \<Rightarrow> None
           | Some k \<Rightarrow> Some (rt_Values report k)))"

section \<open>Building\<close>

text \<open>The loops over the invocations and the receipts: the links, the cache and the store.\<close>

fun build_invs :: "delegation list \<Rightarrow> link list \<times> (link \<rightharpoonup> delegation) \<times> blockreader \<Rightarrow>
    (link list \<times> (link \<rightharpoonup> delegation) \<times> blockreader) comp" where
  "build_invs [] st = Ret st"
| "build_invs (ivk # invs) (ex, invCache, bs) =
     cbind (bs_WriteInto (dlg_Blocks ivk) bs) (\<lambda>bs'.
       build_invs invs (ex @ [dlg_Link ivk], invCache(dlg_Link ivk \<mapsto> ivk), bs'))"

fun build_rcpts :: "extlib \<Rightarrow> ucanlib \<Rightarrow> receipt list \<Rightarrow>
    report_model \<times> (link \<rightharpoonup> receipt) \<times> blockreader \<Rightarrow>
    (report_model \<times> (link \<rightharpoonup> receipt) \<times> blockreader) comp" where
  "build_rcpts L U [] st = Ret st"
| "build_rcpts L U (rcpt # rcpts) (report, rcptCache, bs) =
     cbind (bs_WriteInto (rcpt_Blocks rcpt) bs) (\<lambda>bs'.
     cbind (rcpt_Ran L U rcpt) (\<lambda>rn.
       case ran_Link rn of
         None \<Rightarrow> Panic ''nil pointer dereference''
       | Some key \<Rightarrow>
           build_rcpts L U rcpts
             (\<lparr> rt_Keys = rt_Keys report @ [key],
                rt_Values = (if rt_Values report key = None
                             then (rt_Values report)(key \<mapsto> blk_link (rcpt_Root rcpt))
                             else rt_Values report) \<rparr>,
              rcptCache(blk_link (rcpt_Root rcpt) \<mapsto> rcpt), bs')))"

definition msg_Build :: "extlib \<Rightarrow> ucanlib \<Rightarrow> data_model codec \<Rightarrow> delegation list \<Rightarrow> receipt list \<Rightarrow>
    (err + message) comp" where
  "msg_Build L U C invocations receipts =
     (case NewBlockStore [] [] of
        Inl e \<Rightarrow> Ret (Inl e)
      | Inr bs0 \<Rightarrow>
          cbind (build_invs invocations ([], Map.empty, bs0)) (\<lambda>(ex, invCache, bs1).
          cbind (if length receipts > 0
                 then cmap (\<lambda>(report, rcptCache, bs). (Some report, rcptCache, bs))
                        (build_rcpts L U receipts (\<lparr> rt_Keys = [], rt_Values = Map.empty \<rparr>, Map.empty, bs1))
                 else Ret (None, Map.empty, bs1)) (\<lambda>(report, rcptCache, bs).
          let msg = \<lparr> dm_Execute = ex, dm_Report = report \<rparr>
          in case block_Encode L C msg of
               Inl e \<Rightarrow> Ret (Inl e)
             | Inr rt \<Rightarrow>
                 Ret (Inr \<lparr> ms_root = rt, ms_data = msg, ms_blks = bs_Put bs rt, ms_store = True,
                            ms_invs = invCache, ms_rcpts = rcptCache \<rparr>))))"

definition NewMessage :: "extlib \<Rightarrow> data_model codec \<Rightarrow> link \<Rightarrow> blockreader \<Rightarrow> bool \<Rightarrow> err + message" where
  "NewMessage L C root blks store =
     (case br_Get blks root of
        None \<Rightarrow> Inl (''missing root block: '' @ root)
      | Some rblock \<Rightarrow>
          (case block_Decode L C rblock of
             Inl e \<Rightarrow> Inl (''decoding message: '' @ e)
           | Inr msg \<Rightarrow>
               Inr \<lparr> ms_root = rblock, ms_data = msg, ms_blks = blks, ms_store = store,
                     ms_invs = Map.empty, ms_rcpts = Map.empty \<rparr>))"

section \<open>The contract of a lookup with a cache\<close>

text \<open>
  \<open>fetch\<close> is the lookup without the cache. A hit answers from the cache; a miss answers as \<open>fetch\<close> does
  and keeps what it found; nothing else that \<open>fetch\<close> reads is changed.
\<close>

locale read_through =
  fixes lookup :: "'m \<Rightarrow> link \<Rightarrow> (err + 'v option) \<times> 'm"
    and fetch :: "'m \<Rightarrow> link \<Rightarrow> err + 'v option"
    and cached :: "'m \<Rightarrow> link \<rightharpoonup> 'v"
  assumes hit: "cached m l = Some v \<Longrightarrow> lookup m l = (Inr (Some v), m)"
    and miss: "cached m l = None \<Longrightarrow> fst (lookup m l) = fetch m l"
    and fetch_lookup: "fetch (snd (lookup m l)) = fetch m"
    and cached_lookup: "cached m l = None \<Longrightarrow> cached (snd (lookup m l)) =
          (case fetch m l of Inr (Some v) \<Rightarrow> (cached m)(l \<mapsto> v) | _ \<Rightarrow> cached m)"
begin

lemma coherent_lookup:
  assumes "\<forall>k v. cached m k = Some v \<longrightarrow> fetch m k = Inr (Some v)"
  shows "fst (lookup m l) = fetch m l"
    and "\<forall>k v. cached (snd (lookup m l)) k = Some v \<longrightarrow> fetch (snd (lookup m l)) k = Inr (Some v)"
proof -
  show "fst (lookup m l) = fetch m l"
    using assms hit miss by (cases "cached m l") auto
  show "\<forall>k v. cached (snd (lookup m l)) k = Some v \<longrightarrow> fetch (snd (lookup m l)) k = Inr (Some v)"
  proof (cases "cached m l")
    case None
    then show ?thesis
      using assms by (auto simp: cached_lookup fetch_lookup split: sum.splits option.splits if_splits)
  qed (use assms hit in auto)
qed

lemma lookups:
  assumes "\<forall>k v. cached m k = Some v \<longrightarrow> fetch m k = Inr (Some v)"
  shows "fst (lookup (foldl (\<lambda>m l. snd (lookup m l)) m ls) l) = fetch m l"
  using assms
proof (induction ls arbitrary: m)
  case Nil
  then show ?case by (simp add: coherent_lookup(1))
next
  case (Cons k ls)
  from Cons.IH [OF coherent_lookup(2) [OF Cons.prems, of k]] show ?case by (simp add: fetch_lookup)
qed

end

text \<open>The lookups without their caches, as a reader of the message's blocks would make them.\<close>

definition fetch_invocation :: "extlib \<Rightarrow> ucanlib \<Rightarrow> message \<Rightarrow> link \<Rightarrow> err + delegation option" where
  "fetch_invocation L U m l =
     (case br_Get (ms_blks m) l of
        None \<Rightarrow> Inr None
      | Some b \<Rightarrow> (case NewInvocation L U b (ms_blks m) of Inl e \<Rightarrow> Inl e | Inr ivk \<Rightarrow> Inr (Some ivk)))"

definition fetch_receipt :: "extlib \<Rightarrow> rcptlib \<Rightarrow> message \<Rightarrow> link \<Rightarrow> err + receipt option" where
  "fetch_receipt L R m l =
     (case br_Get (ms_blks m) l of
        None \<Rightarrow> Inr None
      | Some _ \<Rightarrow> (case NewAnyReceipt L R l (ms_blks m) (ms_store m) of
                    Inl e \<Rightarrow> Inl e | Inr rcpt \<Rightarrow> Inr (Some rcpt)))"

interpretation invs: read_through "msg_Invocation L U" "fetch_invocation L U" ms_invs for L U
  by unfold_locales
     (auto simp: msg_Invocation_def fetch_invocation_def fun_eq_iff split: option.splits sum.splits)

interpretation rcpts: read_through "msg_Receipt L R" "fetch_receipt L R" ms_rcpts for L R
  by unfold_locales
     (auto simp: msg_Receipt_def fetch_receipt_def fun_eq_iff split: option.splits sum.splits)

text \<open>The messages a consumer has after any lookups of invocations and receipts, in any order.\<close>

inductive consulted :: "extlib \<Rightarrow> ucanlib \<Rightarrow> rcptlib \<Rightarrow> message \<Rightarrow> message \<Rightarrow> bool" for L U R m0 where
  fresh: "consulted L U R m0 m0"
| invocation: "consulted L U R m0 m \<Longrightarrow> consulted L U R m0 (snd (msg_Invocation L U m l))"
| receipt: "consulted L U R m0 m \<Longrightarrow> consulted L U R m0 (snd (msg_Receipt L R m l))"

lemma lookup_frame:
  "ms_blks (snd (msg_Invocation L U m l)) = ms_blks m" "ms_store (snd (msg_Invocation L U m l)) = ms_store m"
  "ms_data (snd (msg_Invocation L U m l)) = ms_data m" "ms_rcpts (snd (msg_Invocation L U m l)) = ms_rcpts m"
  "ms_blks (snd (msg_Receipt L R m l)) = ms_blks m" "ms_store (snd (msg_Receipt L R m l)) = ms_store m"
  "ms_data (snd (msg_Receipt L R m l)) = ms_data m" "ms_invs (snd (msg_Receipt L R m l)) = ms_invs m"
  by (auto simp: msg_Invocation_def msg_Receipt_def split: option.splits sum.splits)

lemma fetch_frame:
  "ms_blks m = ms_blks m' \<Longrightarrow> fetch_invocation L U m = fetch_invocation L U m'"
  "ms_blks m = ms_blks m' \<Longrightarrow> ms_store m = ms_store m' \<Longrightarrow> fetch_receipt L R m = fetch_receipt L R m'"
  by (simp_all add: fetch_invocation_def fetch_receipt_def fun_eq_iff split: option.split)

definition coherent :: "extlib \<Rightarrow> ucanlib \<Rightarrow> rcptlib \<Rightarrow> message \<Rightarrow> bool" where
  "coherent L U R m \<longleftrightarrow>
     (\<forall>k v. ms_invs m k = Some v \<longrightarrow> fetch_invocation L U m k = Inr (Some v)) \<and>
     (\<forall>k v. ms_rcpts m k = Some v \<longrightarrow> fetch_receipt L R m k = Inr (Some v))"

lemma consulted_coherent:
  assumes "consulted L U R m0 m" "coherent L U R m0"
  shows "coherent L U R m \<and> ms_blks m = ms_blks m0 \<and> ms_store m = ms_store m0 \<and> ms_data m = ms_data m0"
  using assms
proof (induction rule: consulted.induct)
  case (invocation m l)
  then have c: "coherent L U R m" by simp
  have "fetch_receipt L R (snd (msg_Invocation L U m l)) = fetch_receipt L R m"
    by (rule fetch_frame) (simp_all add: lookup_frame)
  with c invs.coherent_lookup(2) [where L = L and U = U and m = m and l = l] invocation
  show ?case by (simp add: coherent_def lookup_frame)
next
  case (receipt m l)
  then have c: "coherent L U R m" by simp
  have "fetch_invocation L U (snd (msg_Receipt L R m l)) = fetch_invocation L U m"
    by (rule fetch_frame) (simp_all add: lookup_frame)
  with c rcpts.coherent_lookup(2) [where L = L and R = R and m = m and l = l] receipt
  show ?case by (simp add: coherent_def lookup_frame)
qed simp

section \<open>Properties\<close>


section \<open>What is built\<close>

lemma WriteInto_kept:
  assumes "wf_store s" "bs_WriteInto seq s = Ret t" "store_grows t u" "Inr b \<in> set seq"
  shows "br_Get u (blk_link b) \<noteq> None"
proof -
  obtain x where "br_Get t (blk_link b) = Some x" using WriteInto_has [OF assms(1,2,4)] by blast
  from store_grows_get [OF store_grows_wf [OF assms(1) store_grows_WriteInto [OF assms(2)]] assms(3) this]
  show ?thesis by simp
qed

lemma build_invs_Ret:
  assumes "build_invs invs (ex, c, bs) = Ret (ex', c', bs')" "wf_store bs"
  shows "ex' = ex @ map dlg_Link invs \<and> store_grows bs bs' \<and>
         (\<forall>ivk b. ivk \<in> set invs \<and> Inr b \<in> set (dlg_Blocks ivk) \<longrightarrow> br_Get bs' (blk_link b) \<noteq> None)"
  using assms
proof (induction invs arbitrary: ex c bs)
  case (Cons ivk invs)
  then obtain bs1 where w: "bs_WriteInto (dlg_Blocks ivk) bs = Ret bs1"
    and r: "build_invs invs (ex @ [dlg_Link ivk], c(dlg_Link ivk \<mapsto> ivk), bs1) = Ret (ex', c', bs')" by auto
  have g: "store_grows bs bs1" by (rule store_grows_WriteInto [OF w])
  have wf: "wf_store bs1" by (rule store_grows_wf [OF Cons.prems(2) g])
  note ih = Cons.IH [OF r wf]
  have "br_Get bs' (blk_link b) \<noteq> None" if "Inr b \<in> set (dlg_Blocks ivk)" for b
    using WriteInto_kept [OF Cons.prems(2) w _ that] ih by blast
  with ih g show ?case by (auto intro: store_grows_trans)
qed auto

definition rcpt_key :: "receipt \<Rightarrow> link option" where
  "rcpt_key r = om_Ran (rc_Ocm (rp_data r))"

lemma rcpt_Ran_link:
  assumes "rcpt_Ran L U r = Ret rn" "wf_store (rp_blks r)"
  shows "ran_Link rn = rcpt_key r" "rcpt_key r \<noteq> None"
proof -
  have "blk_link b = k" if "br_Get (rp_blks r) k = Some b" for k b
    using assms(2) that by (auto simp: wf_store_def br_Get_def)
  then show "ran_Link rn = rcpt_key r" "rcpt_key r \<noteq> None"
    using assms(1)
    by (auto simp: rcpt_Ran_def rcpt_key_def ran_Link_def ran_FromLink_def ran_FromInvocation_def
        NewInvocationView_def NewDelegationView_Inr dlg_Link_def split: option.splits sum.splits)
qed

lemma build_rcpts_Ret:
  assumes "build_rcpts L U rs (rep, c, bs) = Ret (rep', c', bs')" "wf_store bs" "\<forall>r \<in> set rs. wf_store (rp_blks r)"
  shows "map Some (rt_Keys rep') = map Some (rt_Keys rep) @ map rcpt_key rs \<and>
         rt_Values rep' = (\<lambda>k. case rt_Values rep k of Some l \<Rightarrow> Some l
            | None \<Rightarrow> map_option (\<lambda>r. blk_link (rcpt_Root r)) (find (\<lambda>r. rcpt_key r = Some k) rs)) \<and>
         store_grows bs bs' \<and>
         (\<forall>r b. r \<in> set rs \<and> Inr b \<in> set (rcpt_Blocks r) \<longrightarrow> br_Get bs' (blk_link b) \<noteq> None)"
  using assms
proof (induction rs arbitrary: rep c bs)
  case (Cons r rs)
  obtain bs1 rn key where w: "bs_WriteInto (rcpt_Blocks r) bs = Ret bs1"
    and rn: "rcpt_Ran L U r = Ret rn" "ran_Link rn = Some key"
    and b: "build_rcpts L U rs (\<lparr> rt_Keys = rt_Keys rep @ [key], rt_Values = (if rt_Values rep key = None
         then (rt_Values rep)(key \<mapsto> blk_link (rcpt_Root r)) else rt_Values rep) \<rparr>,
         c(blk_link (rcpt_Root r) \<mapsto> r), bs1) = Ret (rep', c', bs')"
    using Cons.prems(1) by (auto simp: case_option_eq)
  have key: "rcpt_key r = Some key" using rcpt_Ran_link [OF rn(1)] rn(2) Cons.prems(3) by simp
  have g: "store_grows bs bs1" by (rule store_grows_WriteInto [OF w])
  have wf: "wf_store bs1" by (rule store_grows_wf [OF Cons.prems(2) g])
  have "\<forall>r \<in> set rs. wf_store (rp_blks r)" using Cons.prems(3) by simp
  note ih = Cons.IH [OF b wf this]
  have "br_Get bs' (blk_link b) \<noteq> None" if "Inr b \<in> set (rcpt_Blocks r)" for b
    using WriteInto_kept [OF Cons.prems(2) w _ that] ih by blast
  moreover have "store_grows bs bs'" using ih g by (blast intro: store_grows_trans)
  moreover have "rt_Values rep' k = (case rt_Values rep k of Some l \<Rightarrow> Some l
      | None \<Rightarrow> map_option (\<lambda>r. blk_link (rcpt_Root r)) (find (\<lambda>r. rcpt_key r = Some k) (r # rs)))" for k
    using ih key by (auto split: option.split)
  ultimately show ?case using ih key by auto
qed (auto simp: fun_eq_iff split: option.splits)

lemma map_filter_total: "\<forall>k \<in> set ks. f k \<noteq> None \<Longrightarrow> map Some (List.map_filter f ks) = map f ks"
  by (induction ks) (auto simp: List.map_filter_def)

lemma find_eq_key: "find (\<lambda>k. k = l) ks = (if l \<in> set ks then Some l else None)"
  by (induction ks) auto

lemma build_decodes:
  assumes "codec_ok C" "msg_Build L U C invs rcpts = Ret (Inr m)"
    and "br_Get (ms_blks m) (blk_link (msg_Root m)) = Some (msg_Root m)"
  shows "\<exists>m'. NewMessage L C (blk_link (msg_Root m)) (ms_blks m) True = Inr m' \<and>
           ms_data m' = ms_data m \<and> ms_blks m' = ms_blks m"
proof -
  have "block_Encode L C (ms_data m) = Inr (ms_root m)"
    using assms(2) by (auto simp: msg_Build_def NewBlockStore_def Let_def case_sum_eq)
  with assms(3) block_codec_roundtrip [OF assms(1), of L "ms_data m" "ms_root m"]
  show ?thesis by (simp add: NewMessage_def msg_Root_def)
qed

lemma build_contents:
  assumes "msg_Build L U C invs rcpts = Ret (Inr m)" and "\<forall>r \<in> set rcpts. wf_store (rp_blks r)"
  shows "msg_Invocations m = map dlg_Link invs \<and>
         (\<forall>l. msg_Get m l = map_option (\<lambda>r. Some (blk_link (rcpt_Root r))) (find (\<lambda>r. rcpt_key r = Some l) rcpts)) \<and>
         map Some (msg_Receipts m) =
           map (\<lambda>r. map_option (\<lambda>r. blk_link (rcpt_Root r)) (find (\<lambda>r'. rcpt_key r' = rcpt_key r) rcpts)) rcpts \<and>
         (\<forall>b. (\<exists>ivk \<in> set invs. Inr b \<in> set (dlg_Blocks ivk)) \<or> (\<exists>r \<in> set rcpts. Inr b \<in> set (rcpt_Blocks r)) \<longrightarrow>
            br_Get (ms_blks m) (blk_link b) \<noteq> None)"
proof -
  obtain ex ic bs1 report rc bs rt where
    i: "build_invs invs ([], Map.empty, br_empty) = Ret (ex, ic, bs1)"
    and r: "(if length rcpts > 0 then cmap (\<lambda>(report, rcptCache, bs). (Some report, rcptCache, bs))
        (build_rcpts L U rcpts (\<lparr> rt_Keys = [], rt_Values = Map.empty \<rparr>, Map.empty, bs1))
        else Ret (None, Map.empty, bs1)) = Ret (report, rc, bs)"
    and rt: "block_Encode L C \<lparr> dm_Execute = ex, dm_Report = report \<rparr> = Inr rt"
    and m: "m = \<lparr> ms_root = rt, ms_data = \<lparr> dm_Execute = ex, dm_Report = report \<rparr>, ms_blks = bs_Put bs rt,
       ms_store = True, ms_invs = ic, ms_rcpts = rc \<rparr>"
    using assms(1) by (auto simp: msg_Build_def NewBlockStore_def Let_def case_sum_eq)
  note inv = build_invs_Ret [OF i store.inv_empty]
  have wf1: "wf_store bs1" using store_grows_wf [OF store.inv_empty] inv by blast
  have rep: "(if rcpts = [] then report = None \<and> bs = bs1
      else \<exists>rp. report = Some rp \<and> map Some (rt_Keys rp) = map rcpt_key rcpts \<and>
        rt_Values rp = (\<lambda>k. map_option (\<lambda>r. blk_link (rcpt_Root r)) (find (\<lambda>r. rcpt_key r = Some k) rcpts))) \<and>
      store_grows bs1 bs \<and>
      (\<forall>r b. r \<in> set rcpts \<and> Inr b \<in> set (rcpt_Blocks r) \<longrightarrow> br_Get bs (blk_link b) \<noteq> None)"
  proof (cases "rcpts = []")
    case False
    with r obtain rp where rp: "build_rcpts L U rcpts (\<lparr> rt_Keys = [], rt_Values = Map.empty \<rparr>, Map.empty, bs1)
        = Ret (rp, rc, bs)" "report = Some rp" by auto
    from build_rcpts_Ret [OF rp(1) wf1 assms(2)] False rp(2) show ?thesis by simp
  qed (use r in auto)
  have wf: "wf_store bs" using store_grows_wf [OF wf1] rep by blast
  have kept: "br_Get (ms_blks m) l \<noteq> None" if "br_Get bs l \<noteq> None" for l
    using that store.get_put [OF wf] m by auto
  have get: "msg_Get m l = map_option (\<lambda>r. Some (blk_link (rcpt_Root r))) (find (\<lambda>r. rcpt_key r = Some l) rcpts)" for l
  proof (cases "rcpts = []")
    case False
    then obtain rp where rp: "report = Some rp" "map Some (rt_Keys rp) = map rcpt_key rcpts"
      "rt_Values rp l = map_option (\<lambda>r. blk_link (rcpt_Root r)) (find (\<lambda>r. rcpt_key r = Some l) rcpts)"
      using rep by auto
    have "l \<in> set (rt_Keys rp) \<longleftrightarrow> Some l \<in> set (map rcpt_key rcpts)" by (simp flip: rp(2)) force
    then have "find (\<lambda>k. k = l) (rt_Keys rp) =
        (if find (\<lambda>r. rcpt_key r = Some l) rcpts = None then None else Some l)"
      unfolding find_eq_key find_None_iff by (auto simp: image_iff)
    then show ?thesis using m rp by (auto simp: msg_Get_def)
  qed (use m rep in \<open>simp add: msg_Get_def\<close>)
  have "msg_Invocations m = map dlg_Link invs" using m inv by (simp add: msg_Invocations_def)
  moreover have "map Some (msg_Receipts m) =
      map (\<lambda>r. map_option (\<lambda>r. blk_link (rcpt_Root r)) (find (\<lambda>r'. rcpt_key r' = rcpt_key r) rcpts)) rcpts"
  proof (cases "rcpts = []")
    case False
    let ?g = "\<lambda>k. map_option (\<lambda>r. blk_link (rcpt_Root r)) (find (\<lambda>r'. rcpt_key r' = k) rcpts)"
    from False obtain rp where rp: "report = Some rp" "map Some (rt_Keys rp) = map rcpt_key rcpts"
      "rt_Values rp = (\<lambda>k. ?g (Some k))"
      using rep by auto
    have "\<forall>k \<in> set (rt_Keys rp). rt_Values rp k \<noteq> None"
    proof
      fix k assume "k \<in> set (rt_Keys rp)"
      then have "Some k \<in> set (map rcpt_key rcpts)" by (simp flip: rp(2))
      then show "rt_Values rp k \<noteq> None" by (auto simp: rp(3) find_None_iff)
    qed
    then have "map Some (msg_Receipts m) = map (rt_Values rp) (rt_Keys rp)"
      using m rp(1) by (simp add: msg_Receipts_def map_filter_total)
    also have "\<dots> = map ?g (map Some (rt_Keys rp))" by (simp add: rp(3))
    also have "\<dots> = map (\<lambda>r. ?g (rcpt_key r)) rcpts" by (simp add: rp(2))
    finally show ?thesis .
  qed (use m rep in \<open>simp add: msg_Receipts_def\<close>)
  moreover have "br_Get (ms_blks m) (blk_link b) \<noteq> None"
    if "(\<exists>ivk \<in> set invs. Inr b \<in> set (dlg_Blocks ivk)) \<or> (\<exists>r \<in> set rcpts. Inr b \<in> set (rcpt_Blocks r))" for b
    using that
  proof
    assume "\<exists>ivk \<in> set invs. Inr b \<in> set (dlg_Blocks ivk)"
    then obtain x where "br_Get bs1 (blk_link b) = Some x" using inv by blast
    then have "br_Get bs (blk_link b) = Some x" using store_grows_get [OF wf1] rep by blast
    then show ?thesis by (intro kept) simp
  next
    assume "\<exists>r \<in> set rcpts. Inr b \<in> set (rcpt_Blocks r)"
    then have "br_Get bs (blk_link b) \<noteq> None" using rep by blast
    then show ?thesis by (rule kept)
  qed
  ultimately show ?thesis using get by blast
qed


section \<open>A built message, for the witnesses\<close>

lemma blk2_distinct: "take 32 (a @ replicate 32 (CHR 0x00)) \<noteq> take 32 (b @ replicate 32 (CHR 0x00)) \<Longrightarrow>
    blk_link (blk2 a) \<noteq> blk_link (blk2 b)"
  by (simp add: blk2_link)

definition data0 :: data_model where
  "data0 = \<lparr> dm_Execute = [], dm_Report = Some \<lparr> rt_Keys = [''ivk''],
               rt_Values = [''ivk'' \<mapsto> blk_link (blk2 ''r'')] \<rparr> \<rparr>"

definition msgcodec0 :: "data_model codec" where
  "msgcodec0 = table_codec 113 [(''m'', data0)]"

lemma msgcodec0_ok: "codec_ok msgcodec0"
  by (simp add: msgcodec0_def table_codec_ok)

lemma message0:
  obtains r m where "msg_Build lib0 ucanlib0 msgcodec0 [] [r] = Ret (Inr m)" "wf_store (rp_blks r)"
    "br_Get (ms_blks m) (blk_link (msg_Root m)) = Some (msg_Root m)" "blk_link (rcpt_Root r) = blk_link (blk2 ''r'')"
    "rcpt_key r = Some ''ivk''" "br_Get (ms_blks m) (blk_link (blk2 ''r'')) = Some (blk2 ''r'')"
proof -
  obtain r where "rcpt_Issue lib0 (R0 (rp_data r)) (signer0 (did0 ''s'')) (okResult (Inr (NString ''ok'')))
      (ran_FromLink (Some ''ivk'')) [] = Ret (Inr r)"
    and r: "om_Ran (rc_Ocm (rp_data r)) = Some ''ivk''" "rp_blks r = bs_Put br_empty (rp_rt r)" "rp_rt r = blk2 ''r''"
    by (rule receipt0)
  have g: "br_Get (rp_blks r) ''ivk'' = None"
    using r(2,3) by (simp add: store.get_put store.inv_empty store.get_empty blk2_link)
  have it: "rcpt_Blocks r = map Inr [blk2 ''r'']"
    using r(2,3) store.contents(2) [of "[blk2 ''r'']"] by (simp add: rcpt_Blocks_def)
  have e: "block_Encode lib0 msgcodec0 data0 = Inr (blk2 ''m'')"
    by (simp add: block_Encode_def msgcodec0_def table_codec_def blk2_def)
  let ?bs = "bs_Put (bs_Put br_empty (blk2 ''r'')) (blk2 ''m'')"
  let ?m = "\<lparr> ms_root = blk2 ''m'', ms_data = data0, ms_blks = ?bs, ms_store = True, ms_invs = Map.empty,
      ms_rcpts = [blk_link (blk2 ''r'') \<mapsto> r] \<rparr>"
  have "msg_Build lib0 ucanlib0 msgcodec0 [] [r] = Ret (Inr ?m)"
    using e r g it by (simp add: msg_Build_def NewBlockStore_def rcpt_Ran_def ran_FromLink_def ran_Link_def
        rcpt_Root_def data0_def)
  moreover have "br_Get ?bs (blk_link (blk2 ''m'')) = Some (blk2 ''m'')" "br_Get ?bs (blk_link (blk2 ''r'')) = Some (blk2 ''r'')"
    using blk2_distinct [of "''m''" "''r''"]
    by (simp_all add: store.get_put store.inv_put store.inv_empty store.get_empty)
  ultimately show thesis
    using that [of r ?m] r wf_receipt0 by (simp add: msg_Root_def rcpt_Root_def rcpt_key_def)
qed



end
