(* ===== verification/Transport.thy ===== *)
theory Transport
  imports Message
begin

text \<open>
  transport, transport/http, transport/car and transport/headercar: requests and responses, the codecs
  that put a message in a body as a CAR or in a header as a compressed CAR, and the HTTP channel.
  The locale \<open>message_codec\<close> is the contract of an encoder and a decoder; it is interpreted on the two
  directions of both codecs.
\<close>

section \<open>Headers\<close>

text \<open>
  net/http: a header is a map from canonical names to values, here the pairs in the order an iteration
  takes. \<open>Get\<close> gives the first value or the empty string; \<open>Set\<close> and \<open>Add\<close> work at the canonical name.
\<close>

type_synonym header = "(string \<times> string list) list"

definition token_char :: "char \<Rightarrow> bool" where
  "token_char c \<longleftrightarrow>
     (let n = (of_char c :: nat)
      in 65 \<le> n \<and> n \<le> 90 \<or> 97 \<le> n \<and> n \<le> 122 \<or> 48 \<le> n \<and> n \<le> 57 \<or>
         n \<in> {33, 35, 36, 37, 38, 39, 42, 43, 45, 46, 94, 95, 96, 124, 126})"

definition to_upper :: "char \<Rightarrow> char" where
  "to_upper c = (let n = (of_char c :: nat) in if 97 \<le> n \<and> n \<le> 122 then char_of (n - 32) else c)"

definition to_lower :: "char \<Rightarrow> char" where
  "to_lower c = (let n = (of_char c :: nat) in if 65 \<le> n \<and> n \<le> 90 then char_of (n + 32) else c)"

fun canon_from :: "bool \<Rightarrow> string \<Rightarrow> string" where
  "canon_from up [] = []"
| "canon_from up (c # cs) = (if up then to_upper c else to_lower c) # canon_from (c = CHR ''-'') cs"

definition CanonicalHeaderKey :: "string \<Rightarrow> string" where
  "CanonicalHeaderKey s = (if list_all token_char s then canon_from True s else s)"

definition hdr_values :: "header \<Rightarrow> string \<Rightarrow> string list" where
  "hdr_values h k = (case map_of h k of None \<Rightarrow> [] | Some vs \<Rightarrow> vs)"

definition hdr_Get :: "header \<Rightarrow> string \<Rightarrow> string" where
  "hdr_Get h k = (case hdr_values h (CanonicalHeaderKey k) of [] \<Rightarrow> [] | v # _ \<Rightarrow> v)"

fun hdr_put :: "header \<Rightarrow> string \<Rightarrow> string list \<Rightarrow> header" where
  "hdr_put [] k vs = [(k, vs)]"
| "hdr_put ((k', vs') # h) k vs = (if k' = k then (k, vs) # h else (k', vs') # hdr_put h k vs)"

definition hdr_Set :: "header \<Rightarrow> string \<Rightarrow> string \<Rightarrow> header" where
  "hdr_Set h k v = hdr_put h (CanonicalHeaderKey k) [v]"

definition hdr_Add :: "header \<Rightarrow> string \<Rightarrow> string \<Rightarrow> header" where
  "hdr_Add h k v = (let c = CanonicalHeaderKey k in hdr_put h c (hdr_values h c @ [v]))"

definition addAllHeaders :: "header \<Rightarrow> header list \<Rightarrow> header" where
  "addAllHeaders dst srcs =
     foldl (\<lambda>d src. foldl (\<lambda>d (name, values). foldl (\<lambda>d v. hdr_Add d name v) d values) d src) dst srcs"

section \<open>Requests, responses and errors\<close>

text \<open>A body is a stream, or nil; the headers of a response may be nil.\<close>

record http_request =
  rq_url :: "string option"
  rq_headers :: header
  rq_body :: "stream option"

record http_response =
  rs_status :: nat
  rs_headers :: "header option"
  rs_body :: "stream option"

record http_error =
  he_message :: string
  he_status :: nat
  he_headers :: header

definition http_NewRequest :: "stream option \<Rightarrow> header \<Rightarrow> http_request" where
  "http_NewRequest body headers = \<lparr> rq_url = None, rq_headers = headers, rq_body = body \<rparr>"

definition http_NewInboundRequest :: "string \<Rightarrow> stream option \<Rightarrow> header \<Rightarrow> http_request" where
  "http_NewInboundRequest url body headers =
     \<lparr> rq_url = Some url, rq_headers = headers, rq_body = body \<rparr>"

definition http_NewResponse :: "nat \<Rightarrow> stream option \<Rightarrow> header option \<Rightarrow> http_response" where
  "http_NewResponse status body headers =
     \<lparr> rs_status = status, rs_headers = headers, rs_body = body \<rparr>"

definition http_NewHTTPError :: "string \<Rightarrow> nat \<Rightarrow> header \<Rightarrow> http_error" where
  "http_NewHTTPError message status headers =
     \<lparr> he_message = message, he_status = status, he_headers = headers \<rparr>"

definition text_body :: "string \<Rightarrow> stream" where
  "text_body s = (s, None)"

definition resp_Get :: "http_response \<Rightarrow> string \<Rightarrow> string" where
  "resp_Get r k = (case rs_headers r of None \<Rightarrow> [] | Some h \<Rightarrow> hdr_Get h k)"

section \<open>The CAR codec\<close>

definition ContentType :: string where
  "ContentType = ''application/vnd.ipld.car''"

text \<open>
  Decoding a CAR from a stream that is closed with an error: the sequence of blocks ends with the error.
  Reading from a nil body panics.
\<close>

definition car_Decode_stream ::
    "extlib \<Rightarrow> carlib \<Rightarrow> stream \<Rightarrow> err + (link list \<times> (err + car_block) list)" where
  "car_Decode_stream L K s =
     (case car_Decode L K (fst s) of
        Inl e \<Rightarrow> Inl e
      | Inr (roots, blks) \<Rightarrow> Inr (roots, blks @ (case snd s of None \<Rightarrow> [] | Some e \<Rightarrow> [Inl e])))"

definition message_of_car :: "extlib \<Rightarrow> carlib \<Rightarrow> data_model codec \<Rightarrow> stream \<Rightarrow> err + message" where
  "message_of_car L K C s =
     (case car_Decode_stream L K s of
        Inl e \<Rightarrow> Inl (''decoding CAR: '' @ e)
      | Inr (roots, blocks) \<Rightarrow>
          if length roots \<noteq> 1 then Inl ''unexpected number of roots''
          else (case NewBlockReader [] (plain_seq blocks) of
                  Inl e \<Rightarrow> Inl (''creating blockstore: '' @ e)
                | Inr bstore \<Rightarrow> NewMessage L C (hd roots) bstore False))"

definition carreq_Encode :: "carlib \<Rightarrow> message \<Rightarrow> http_request" where
  "carreq_Encode K msg =
     http_NewRequest (Some (car_Encode K [blk_link (msg_Root msg)] (msg_Blocks msg)))
       (hdr_Add (hdr_Add [] ''Content-Type'' ContentType) ''Accept'' ContentType)"

definition carreq_Decode :: "extlib \<Rightarrow> carlib \<Rightarrow> data_model codec \<Rightarrow> http_request \<Rightarrow> (err + message) comp" where
  "carreq_Decode L K C req =
     (case rq_body req of
        None \<Rightarrow> Panic ''nil pointer dereference''
      | Some s \<Rightarrow> Ret (message_of_car L K C s))"

definition carres_Encode :: "carlib \<Rightarrow> message \<Rightarrow> http_response" where
  "carres_Encode K msg =
     http_NewResponse 200 (Some (car_Encode K [blk_link (msg_Root msg)] (msg_Blocks msg)))
       (Some (hdr_Add [] ''Content-Type'' ContentType))"

definition carres_Decode :: "extlib \<Rightarrow> carlib \<Rightarrow> data_model codec \<Rightarrow> http_response \<Rightarrow> (err + message) comp" where
  "carres_Decode L K C res =
     (case rs_body res of
        None \<Rightarrow> Panic ''nil pointer dereference''
      | Some s \<Rightarrow> Ret (message_of_car L K C s))"

text \<open>\<open>strings.Contains\<close>.\<close>

fun Contains :: "string \<Rightarrow> string \<Rightarrow> bool" where
  "Contains [] t = (t = [])"
| "Contains (c # cs) t = (HasPrefix (c # cs) t \<or> Contains cs t)"

text \<open>The codecs as the interfaces have them; an encoding error says whether it is \<open>ErrHeaderTooLarge\<close>.\<close>

record accept_codec =
  ac_Decode :: "http_request \<Rightarrow> (err + message) comp"
  ac_Encode :: "message \<Rightarrow> (err \<times> bool) + http_response"

type_synonym inbound_codec = "http_request \<Rightarrow> http_error + accept_codec"

record outbound_codec =
  oc_Encode :: "message \<Rightarrow> (err \<times> bool) + http_request"
  oc_Decode :: "http_response \<Rightarrow> (err + message) comp"

definition car_outbound :: "extlib \<Rightarrow> carlib \<Rightarrow> data_model codec \<Rightarrow> outbound_codec" where
  "car_outbound L K C = \<lparr> oc_Encode = (\<lambda>m. Inr (carreq_Encode K m)), oc_Decode = carres_Decode L K C \<rparr>"

definition car_accept :: "extlib \<Rightarrow> carlib \<Rightarrow> data_model codec \<Rightarrow> accept_codec" where
  "car_accept L K C = \<lparr> ac_Decode = carreq_Decode L K C, ac_Encode = (\<lambda>m. Inr (carres_Encode K m)) \<rparr>"

definition car_inbound :: "extlib \<Rightarrow> carlib \<Rightarrow> data_model codec \<Rightarrow> inbound_codec" where
  "car_inbound L K C req =
     (let contentType = hdr_Get (rq_headers req) ''Content-Type''
      in if contentType \<noteq> ContentType then
           Inl (http_NewHTTPError ''The server cannot process the request because the payload format is not supported. Please check the content-type header and try again with a supported media type.''
                  415 (hdr_Set [] ''Accept'' contentType))
         else
           let accept = hdr_Get (rq_headers req) ''Accept'';
               accept = (if accept = [] then ''*/*'' else accept)
           in if accept \<noteq> ''*/*'' \<and> \<not> Contains accept contentType then
                Inl (http_NewHTTPError ''The requested resource cannot be served in the requested content type. Please specify a supported content type using the Accept header.''
                       406 (hdr_Set [] ''Accept'' contentType))
              else Inr (car_accept L K C))"

section \<open>The header codec\<close>

text \<open>
  compress/gzip and the base64 multibase: the compressed bytes, the stream they expand to or the error of
  \<open>gzip.NewReader\<close>, and the encoded text. Writing into a buffer does not fail.
\<close>

record hcarlib =
  hl_gzip :: "bytes \<Rightarrow> bytes"
  hl_gunzip :: "bytes \<Rightarrow> err + stream"
  hl_base64 :: "bytes \<Rightarrow> string"

definition HeaderName :: string where "HeaderName = ''X-Agent-Message''"
definition MaxHeaderSizeBytes :: int where "MaxHeaderSizeBytes = 4096"
definition ErrHeaderTooLarge :: err where
  "ErrHeaderTooLarge = ''maximum agent message header size exceeded''"

text \<open>The size is the one of the last option, 0 when there is none; an error says if it is \<open>ErrHeaderTooLarge\<close>.\<close>

definition EncodeHeader :: "carlib \<Rightarrow> hcarlib \<Rightarrow> message \<Rightarrow> int list \<Rightarrow> (err \<times> bool) + string" where
  "EncodeHeader K H msg sizes =
     (let maxSize = (if sizes = [] then 0 else last sizes);
          maxSize = (if maxSize = 0 then MaxHeaderSizeBytes else maxSize)
      in case read_all (car_Encode K [blk_link (msg_Root msg)] (msg_Blocks msg)) of
           Inl e \<Rightarrow> Inl (''compressing CAR data: '' @ e, False)
         | Inr data \<Rightarrow>
             let h = hl_base64 H (hl_gzip H data)
             in if maxSize \<noteq> -1 \<and> int (length h) > maxSize then Inl (ErrHeaderTooLarge, True) else Inr h)"

definition DecodeHeader :: "extlib \<Rightarrow> carlib \<Rightarrow> hcarlib \<Rightarrow> data_model codec \<Rightarrow> string \<Rightarrow> err + message" where
  "DecodeHeader L K H C h =
     (case mb_decode L h of
        Inl e \<Rightarrow> Inl (''multibase decoding X-Agent-Message header: '' @ e)
      | Inr (_, data) \<Rightarrow>
          (case hl_gunzip H data of
             Inl e \<Rightarrow> Inl (''creating gzip reader: '' @ e)
           | Inr s \<Rightarrow> message_of_car L K C s))"

definition hcarreq_Encode :: "carlib \<Rightarrow> hcarlib \<Rightarrow> message \<Rightarrow> (err \<times> bool) + http_request" where
  "hcarreq_Encode K H msg =
     (case EncodeHeader K H msg [] of
        Inl (e, big) \<Rightarrow> Inl (''encoding '' @ HeaderName @ '' header: '' @ e, big)
      | Inr xAgentMsg \<Rightarrow> Inr (http_NewRequest None (hdr_Set [] HeaderName xAgentMsg)))"

definition hcarreq_Decode ::
    "extlib \<Rightarrow> carlib \<Rightarrow> hcarlib \<Rightarrow> data_model codec \<Rightarrow> http_request \<Rightarrow> err + message" where
  "hcarreq_Decode L K H C req =
     (let msgHdr = hdr_Get (rq_headers req) HeaderName
      in if msgHdr = [] then Inl (''missing '' @ HeaderName @ '' header in request'')
         else DecodeHeader L K H C msgHdr)"

definition hcarres_Encode :: "carlib \<Rightarrow> hcarlib \<Rightarrow> message \<Rightarrow> (err \<times> bool) + http_response" where
  "hcarres_Encode K H msg =
     (case EncodeHeader K H msg [] of
        Inl (e, big) \<Rightarrow> Inl (''encoding '' @ HeaderName @ '' header: '' @ e, big)
      | Inr xAgentMsg \<Rightarrow> Inr (http_NewResponse 200 None (Some (hdr_Set [] HeaderName xAgentMsg))))"

definition hcarres_Decode ::
    "extlib \<Rightarrow> carlib \<Rightarrow> hcarlib \<Rightarrow> data_model codec \<Rightarrow> http_response \<Rightarrow> err + message" where
  "hcarres_Decode L K H C res =
     (let msgHdr = resp_Get res HeaderName
      in if msgHdr = [] then Inl (''missing '' @ HeaderName @ '' header in response'')
         else DecodeHeader L K H C msgHdr)"

definition hcar_outbound :: "extlib \<Rightarrow> carlib \<Rightarrow> hcarlib \<Rightarrow> data_model codec \<Rightarrow> outbound_codec" where
  "hcar_outbound L K H C =
     \<lparr> oc_Encode = hcarreq_Encode K H, oc_Decode = (\<lambda>r. Ret (hcarres_Decode L K H C r)) \<rparr>"

definition hcar_accept :: "extlib \<Rightarrow> carlib \<Rightarrow> hcarlib \<Rightarrow> data_model codec \<Rightarrow> accept_codec" where
  "hcar_accept L K H C =
     \<lparr> ac_Decode = (\<lambda>r. Ret (hcarreq_Decode L K H C r)), ac_Encode = hcarres_Encode K H \<rparr>"

definition hcar_inbound :: "extlib \<Rightarrow> carlib \<Rightarrow> hcarlib \<Rightarrow> data_model codec \<Rightarrow> inbound_codec" where
  "hcar_inbound L K H C req =
     (if hdr_Get (rq_headers req) HeaderName = [] then
        Inl (http_NewHTTPError ''The server cannot process the request because the payload format is not supported. Please send the X-Agent-Message header.''
               415 [])
      else Inr (hcar_accept L K H C))"

section \<open>The HTTP channel\<close>

text \<open>
  An HTTP client takes the method, the URL, the headers and the body to a response or an error, and
  changes the state of the world \<open>'s\<close> behind it. Its responses have a body. The parameters: whether
  \<open>http.NewRequestWithContext\<close> refuses a method and URL, what the trace propagator adds to the headers,
  and the client used when none is configured.
\<close>

type_synonym 's http_client =
  "string \<Rightarrow> string \<Rightarrow> header \<Rightarrow> stream option \<Rightarrow> 's \<Rightarrow> (err + http_response) \<times> 's"

record 's http_env =
  hn_newrequest :: "string \<Rightarrow> string \<Rightarrow> err option"
  hn_inject :: "header \<Rightarrow> header"
  hn_default :: "'s http_client"

datatype 's chan_option =
    CWithClient "'s http_client option" | CWithMethod string | CWithSuccessStatusCode "nat list"
  | CWithHeaders header

record 's chanConfig =
  hg_client :: "'s http_client option"
  hg_method :: string
  hg_statuses :: "nat list"
  hg_headers :: header

fun apply_chan_option :: "'s chanConfig \<Rightarrow> 's chan_option \<Rightarrow> 's chanConfig" where
  "apply_chan_option cfg (CWithClient c) = cfg\<lparr> hg_client := c \<rparr>"
| "apply_chan_option cfg (CWithMethod method) = cfg\<lparr> hg_method := method \<rparr>"
| "apply_chan_option cfg (CWithSuccessStatusCode codes) = cfg\<lparr> hg_statuses := codes \<rparr>"
| "apply_chan_option cfg (CWithHeaders h) = cfg\<lparr> hg_headers := h \<rparr>"

record 's http_channel =
  hc_url :: string
  hc_client :: "'s http_client"
  hc_headers :: header
  hc_method :: string
  hc_statuses :: "nat list"

definition NewChannel :: "'s http_env \<Rightarrow> string \<Rightarrow> 's chan_option list \<Rightarrow> 's http_channel" where
  "NewChannel N url options =
     (let cfg = foldl apply_chan_option
                  \<lparr> hg_client = None, hg_method = [], hg_statuses = [], hg_headers = [] \<rparr> options
      in \<lparr> hc_url = url,
           hc_client = (case hg_client cfg of None \<Rightarrow> hn_default N | Some c \<Rightarrow> c),
           hc_headers = hg_headers cfg,
           hc_method = (if hg_method cfg = [] then ''POST'' else hg_method cfg),
           hc_statuses = (if length (hg_statuses cfg) = 0 then hg_statuses cfg @ [200] else hg_statuses cfg) \<rparr>)"

text \<open>\<open>io.ReadAll\<close> of a reader limited to \<open>n\<close> bytes: the bytes, and the error met before the limit.\<close>

definition read_limited :: "nat \<Rightarrow> stream \<Rightarrow> bytes \<times> err option" where
  "read_limited n s = (take n (fst s), if n \<le> length (fst s) then None else snd s)"

definition maxBodyLen :: nat where "maxBodyLen = 4096"

definition failed_message :: "string \<Rightarrow> string \<Rightarrow> stream option \<Rightarrow> string" where
  "failed_message method url body =
     (let (b, readErr) = (case body of None \<Rightarrow> ([], None) | Some s \<Rightarrow> read_limited (maxBodyLen + 1) s);
          msg = ''HTTP Request failed. '' @ method @ '' '' @ url @ '' '' @ [CHR 0xE2, CHR 0x86, CHR 0x92] @ '' ''
      in case readErr of
           Some e \<Rightarrow> msg @ '' (failed to read response body: '' @ e @ '')''
         | None \<Rightarrow>
             if length b > 0 then
               msg @ '': '' @ (if length b > maxBodyLen then take maxBodyLen b @ ''... (truncated)'' else b)
             else msg)"

datatype chan_err = ChanErr err | ChanHTTP http_error

definition chan_err_Error :: "chan_err \<Rightarrow> string" where
  "chan_err_Error e = (case e of ChanErr t \<Rightarrow> t | ChanHTTP h \<Rightarrow> he_message h)"

definition chan_Request ::
    "'s http_env \<Rightarrow> 's http_channel \<Rightarrow> http_request \<Rightarrow> 's \<Rightarrow> (chan_err + http_response) \<times> 's" where
  "chan_Request N c req s =
     (case hn_newrequest N (hc_method c) (hc_url c) of
        Some e \<Rightarrow> (Inl (ChanErr (''creating HTTP request: '' @ e)), s)
      | None \<Rightarrow>
          (case hc_client c (hc_method c) (hc_url c)
                  (hn_inject N (addAllHeaders [] [rq_headers req, hc_headers c])) (rq_body req) s of
             (Inl e, s') \<Rightarrow> (Inl (ChanErr (''doing HTTP request: '' @ e)), s')
           | (Inr res, s') \<Rightarrow>
               if \<not> List.member (hc_statuses c) (rs_status res) then
                 (Inl (ChanHTTP (http_NewHTTPError (failed_message (hc_method c) (hc_url c) (rs_body res))
                          (rs_status res) (case rs_headers res of None \<Rightarrow> [] | Some h \<Rightarrow> h))), s')
               else (Inr (http_NewResponse (rs_status res) (rs_body res) (rs_headers res)), s')))"

section \<open>The contract of a codec\<close>

definition same_message :: "message \<Rightarrow> message \<Rightarrow> bool" where
  "same_message m m' \<longleftrightarrow> ms_root m' = ms_root m \<and> ms_data m' = ms_data m \<and> ms_blks m' = ms_blks m"

lemma same_message_reads:
  assumes "same_message m m'"
  shows "msg_Root m' = msg_Root m" "msg_Blocks m' = msg_Blocks m" "msg_Invocations m' = msg_Invocations m"
    "msg_Receipts m' = msg_Receipts m" "msg_Get m' = msg_Get m"
    "fetch_invocation L U m' = fetch_invocation L U m"
  using assms fetch_frame(1) [of m' m L U]
  by (simp_all add: same_message_def msg_Root_def msg_Blocks_def msg_Invocations_def msg_Receipts_def msg_Get_def fun_eq_iff)

text \<open>A message that can be sent: its root is in its store and decodes to its data, and its blocks are intact.\<close>

definition sendable :: "extlib \<Rightarrow> carlib \<Rightarrow> data_model codec \<Rightarrow> message \<Rightarrow> bool" where
  "sendable L K C m \<longleftrightarrow>
     wf_store (ms_blks m) \<and> br_Get (ms_blks m) (blk_link (ms_root m)) = Some (ms_root m) \<and>
     block_Decode L C (ms_root m) = Inr (ms_data m) \<and>
     (\<forall>b. Inr b \<in> set (br_Iterator (ms_blks m)) \<longrightarrow> car_intact K b)"

lemma same_sendable: "same_message m m' \<Longrightarrow> sendable L K C m \<Longrightarrow> sendable L K C m'"
  by (simp add: same_message_def sendable_def)

locale message_codec =
  fixes encode :: "message \<Rightarrow> (err \<times> bool) + 'x"
    and decode :: "'x \<Rightarrow> (err + message) comp"
    and can_send :: "message \<Rightarrow> bool"
  assumes carried: "can_send m \<Longrightarrow> encode m = Inr x \<Longrightarrow> \<exists>m'. decode x = Ret (Inr m') \<and> same_message m m'"
    and too_large: "can_send m \<Longrightarrow> encode m = Inl (e, big) \<Longrightarrow> big"
    and same_can_send: "same_message m m' \<Longrightarrow> can_send m \<Longrightarrow> can_send m'"
begin

lemma delivered:
  assumes "can_send m" "encode m = Inr x"
  obtains m' where "decode x = Ret (Inr m')" "same_message m m'" "can_send m'"
  using carried [OF assms] same_can_send assms(1) by blast

lemma relayed:
  assumes "can_send m" "encode m = Inr x" "decode x = Ret (Inr m')" "encode m' = Inr y"
  shows "\<exists>m''. decode y = Ret (Inr m'') \<and> same_message m m''"
proof -
  from carried [OF assms(1,2)] assms(3) have "same_message m m'" by simp
  with carried [OF same_can_send [OF this assms(1)] assms(4)] show ?thesis
    by (auto simp: same_message_def)
qed

end

lemma store_blocks:
  assumes "wf_store s"
  obtains bs where "br_Iterator s = map Inr bs" "NewBlockReader [] (map Inr bs) = Inr s"
    "\<And>b. b \<in> set bs \<Longrightarrow> Inr b \<in> set (br_Iterator s)"
proof -
  have "NewBlockReader [] (br_Iterator s @ map Inr []) = Inr (foldl bs_Put s [])"
    by (rule reader_of_store [OF assms])
  then have n: "NewBlockReader [] (br_Iterator s) = Inr s" by simp
  moreover obtain bs where "br_Iterator s = map Inr bs"
    using n by (auto simp: NewBlockReader_eq_NewBlockStore NewBlockStore_Inr)
  ultimately show thesis by (intro that [of bs]) auto
qed

lemma car_message_roundtrip:
  assumes "carlib_ok L K" "sendable L K C m"
  obtains b where "car_Encode K [blk_link (msg_Root m)] (msg_Blocks m) = (b, None)"
    "\<exists>m'. message_of_car L K C (b, None) = Inr m' \<and> same_message m m'"
proof -
  obtain bs where bs: "br_Iterator (ms_blks m) = map Inr bs" "NewBlockReader [] (map Inr bs) = Inr (ms_blks m)"
    "\<And>b. b \<in> set bs \<Longrightarrow> Inr b \<in> set (br_Iterator (ms_blks m))"
    using store_blocks [of "ms_blks m"] assms(2) by (auto simp: sendable_def)
  have "\<forall>b \<in> set bs. car_intact K b" using assms(2) bs(3) by (auto simp: sendable_def)
  from car_roundtrip_blocks [OF assms(1) this, of "[blk_link (ms_root m)]"]
  obtain b cbs where b: "read_all (car_Encode K [blk_link (ms_root m)] (map Inr bs)) = Inr b"
    "car_Decode L K b = Inr ([blk_link (ms_root m)], cbs)" "plain_seq cbs = map Inr bs" by blast
  show thesis
  proof (rule that [of b])
    show "car_Encode K [blk_link (msg_Root m)] (msg_Blocks m) = (b, None)"
      using b(1) bs(1) by (auto simp: msg_Root_def msg_Blocks_def read_all_def prod_eq_iff split: option.splits)
    show "\<exists>m'. message_of_car L K C (b, None) = Inr m' \<and> same_message m m'"
      using b(2,3) bs(2) assms(2)
      by (simp add: message_of_car_def car_Decode_stream_def NewMessage_def sendable_def same_message_def)
  qed
qed

text \<open>compress/gzip and go-multibase: expanding compressed bytes and decoding an encoding give the bytes back.\<close>

definition hcarlib_ok :: "extlib \<Rightarrow> hcarlib \<Rightarrow> bool" where
  "hcarlib_ok L H \<longleftrightarrow>
     (\<forall>b. hl_gunzip H (hl_gzip H b) = Inr (b, None)) \<and>
     (\<forall>b. hl_base64 H b \<noteq> [] \<and> (\<exists>c. mb_decode L (hl_base64 H b) = Inr (c, b)))"

definition car_sendable :: "extlib \<Rightarrow> carlib \<Rightarrow> data_model codec \<Rightarrow> message \<Rightarrow> bool" where
  "car_sendable L K C m \<longleftrightarrow> carlib_ok L K \<and> sendable L K C m"

definition hcar_sendable :: "extlib \<Rightarrow> carlib \<Rightarrow> hcarlib \<Rightarrow> data_model codec \<Rightarrow> message \<Rightarrow> bool" where
  "hcar_sendable L K H C m \<longleftrightarrow> carlib_ok L K \<and> hcarlib_ok L H \<and> sendable L K C m"

lemma hdr_simps [simp]:
  "hdr_Get (hdr_put h (CanonicalHeaderKey k) (v # vs)) k = v"
  "hdr_values (hdr_put h c vs) c' = (if c' = c then vs else hdr_values h c')"
  by (induction h) (auto simp: hdr_Get_def hdr_values_def)

lemma header_name [simp]: "CanonicalHeaderKey HeaderName = HeaderName"
  by (simp add: HeaderName_def CanonicalHeaderKey_def token_char_def to_upper_def to_lower_def Let_def)

lemma header_roundtrip:
  assumes "hcar_sendable L K H C m" "EncodeHeader K H m sizes = Inr h"
  shows "h \<noteq> []" "\<exists>m'. DecodeHeader L K H C h = Inr m' \<and> same_message m m'"
proof -
  obtain b where b: "car_Encode K [blk_link (msg_Root m)] (msg_Blocks m) = (b, None)"
    "\<exists>m'. message_of_car L K C (b, None) = Inr m' \<and> same_message m m'"
    using car_message_roundtrip [of L K C m] assms(1) by (auto simp: hcar_sendable_def)
  have h: "h = hl_base64 H (hl_gzip H b)"
    using assms(2) b(1) by (auto simp: EncodeHeader_def read_all_def Let_def split: if_splits)
  obtain c where c: "h \<noteq> []" "mb_decode L h = Inr (c, hl_gzip H b)" "hl_gunzip H (hl_gzip H b) = Inr (b, None)"
    using assms(1) unfolding hcar_sendable_def hcarlib_ok_def h by blast
  then show "h \<noteq> []" "\<exists>m'. DecodeHeader L K H C h = Inr m' \<and> same_message m m'"
    using b(2) by (simp_all add: DecodeHeader_def)
qed

lemma header_too_large:
  assumes "hcar_sendable L K H C m" "EncodeHeader K H m sizes = Inl (e, big)"
  shows big
proof -
  obtain b where "car_Encode K [blk_link (msg_Root m)] (msg_Blocks m) = (b, None)"
    using car_message_roundtrip [of L K C m] assms(1) by (auto simp: hcar_sendable_def)
  then show ?thesis using assms(2) by (auto simp: EncodeHeader_def read_all_def Let_def split: if_splits)
qed

interpretation car_request: message_codec "\<lambda>m. Inr (carreq_Encode K m)" "carreq_Decode L K C" "car_sendable L K C"
  for L K C
proof
  fix m x assume m: "car_sendable L K C m" "Inr (carreq_Encode K m) = (Inr x :: (err \<times> bool) + http_request)"
  obtain b where "car_Encode K [blk_link (msg_Root m)] (msg_Blocks m) = (b, None)"
    "\<exists>m'. message_of_car L K C (b, None) = Inr m' \<and> same_message m m'"
    using car_message_roundtrip [of L K C m] m(1) by (auto simp: car_sendable_def)
  then show "\<exists>m'. carreq_Decode L K C x = Ret (Inr m') \<and> same_message m m'"
    using m(2) by (auto simp: carreq_Encode_def carreq_Decode_def http_NewRequest_def)
qed (auto simp: car_sendable_def same_sendable)

interpretation car_response: message_codec "\<lambda>m. Inr (carres_Encode K m)" "carres_Decode L K C" "car_sendable L K C"
  for L K C
proof
  fix m x assume m: "car_sendable L K C m" "Inr (carres_Encode K m) = (Inr x :: (err \<times> bool) + http_response)"
  obtain b where "car_Encode K [blk_link (msg_Root m)] (msg_Blocks m) = (b, None)"
    "\<exists>m'. message_of_car L K C (b, None) = Inr m' \<and> same_message m m'"
    using car_message_roundtrip [of L K C m] m(1) by (auto simp: car_sendable_def)
  then show "\<exists>m'. carres_Decode L K C x = Ret (Inr m') \<and> same_message m m'"
    using m(2) by (auto simp: carres_Encode_def carres_Decode_def http_NewResponse_def)
qed (auto simp: car_sendable_def same_sendable)

interpretation header_request: message_codec "hcarreq_Encode K H" "\<lambda>x. Ret (hcarreq_Decode L K H C x)" "hcar_sendable L K H C"
  for L K H C
proof
  fix m x assume m: "hcar_sendable L K H C m" "hcarreq_Encode K H m = Inr x"
  then obtain h where h: "EncodeHeader K H m [] = Inr h" "x = http_NewRequest None (hdr_Set [] HeaderName h)"
    by (auto simp: hcarreq_Encode_def case_sum_eq)
  have "hdr_Get (rq_headers x) HeaderName = h"
    using h(2) by (simp add: http_NewRequest_def hdr_Set_def hdr_Get_def hdr_values_def)
  then show "\<exists>m'. Ret (hcarreq_Decode L K H C x) = Ret (Inr m') \<and> same_message m m'"
    using header_roundtrip [OF m(1) h(1)] by (simp add: hcarreq_Decode_def)
next
  fix m e big assume "hcar_sendable L K H C m" "hcarreq_Encode K H m = Inl (e, big)"
  then show big using header_too_large [of L K H C m "[]"] by (auto simp: hcarreq_Encode_def case_sum_eq)
qed (simp add: hcar_sendable_def same_sendable)

interpretation header_response: message_codec "hcarres_Encode K H" "\<lambda>x. Ret (hcarres_Decode L K H C x)" "hcar_sendable L K H C"
  for L K H C
proof
  fix m x assume m: "hcar_sendable L K H C m" "hcarres_Encode K H m = Inr x"
  then obtain h where h: "EncodeHeader K H m [] = Inr h" "x = http_NewResponse 200 None (Some (hdr_Set [] HeaderName h))"
    by (auto simp: hcarres_Encode_def case_sum_eq)
  have "resp_Get x HeaderName = h"
    using h(2) by (simp add: resp_Get_def http_NewResponse_def hdr_Set_def hdr_Get_def hdr_values_def)
  then show "\<exists>m'. Ret (hcarres_Decode L K H C x) = Ret (Inr m') \<and> same_message m m'"
    using header_roundtrip [OF m(1) h(1)] by (simp add: hcarres_Decode_def)
next
  fix m e big assume "hcar_sendable L K H C m" "hcarres_Encode K H m = Inl (e, big)"
  then show big using header_too_large [of L K H C m "[]"] by (auto simp: hcarres_Encode_def case_sum_eq)
qed (simp add: hcar_sendable_def same_sendable)

lemma car_request_accepted: "car_inbound L K C (carreq_Encode K m) = Inr (car_accept L K C)"
  by (simp add: car_inbound_def carreq_Encode_def http_NewRequest_def hdr_Add_def hdr_Get_def hdr_values_def
      CanonicalHeaderKey_def token_char_def to_upper_def to_lower_def ContentType_def HasPrefix_def Let_def)

lemma header_request_accepted:
  assumes "hcar_sendable L K H C m" "hcarreq_Encode K H m = Inr x"
  shows "hcar_inbound L K H C x = Inr (hcar_accept L K H C)"
  using header_request.carried [OF assms] by (auto simp: hcar_inbound_def hcarreq_Decode_def Let_def split: if_splits)

section \<open>Properties\<close>

text \<open>
  C22. A message sent as a request or as a response, in a body or in a header, arrives with the same root,
  data and blocks; the CAR codec always encodes it, and its request is accepted by the inbound codec.
\<close>

theorem transport_roundtrip:
  assumes "hcar_sendable L K H C m"
  shows "(\<exists>m'. carreq_Decode L K C (carreq_Encode K m) = Ret (Inr m') \<and> same_message m m') \<and>
         (\<exists>m'. carres_Decode L K C (carres_Encode K m) = Ret (Inr m') \<and> same_message m m') \<and>
         car_inbound L K C (carreq_Encode K m) = Inr (car_accept L K C) \<and>
         (\<forall>x. hcarreq_Encode K H m = Inr x \<longrightarrow>
            (\<exists>m'. hcarreq_Decode L K H C x = Inr m' \<and> same_message m m') \<and>
            hcar_inbound L K H C x = Inr (hcar_accept L K H C)) \<and>
         (\<forall>x. hcarres_Encode K H m = Inr x \<longrightarrow>
            (\<exists>m'. hcarres_Decode L K H C x = Inr m' \<and> same_message m m'))"
proof -
  have c: "car_sendable L K C m" using assms by (simp add: car_sendable_def hcar_sendable_def)
  show ?thesis
    using car_request_accepted [of L K C m] header_request_accepted [OF assms] car_request.carried [OF c refl] car_response.carried [OF c refl]
      header_request.carried [OF assms] header_response.carried [OF assms] by auto
qed

text \<open>
  The size limit of the header codec: a message that can be sent is encoded exactly when the header
  value is at most 4096 bytes, and otherwise refused as too large.
\<close>

lemma header_size_bound:
  assumes "hcar_sendable L K H C m"
  shows "\<exists>h. EncodeHeader K H m [-1] = Inr h \<and>
           (if length h \<le> 4096
            then hcarreq_Encode K H m = Inr (http_NewRequest None (hdr_Set [] HeaderName h))
            else \<exists>e. hcarreq_Encode K H m = Inl (e, True))"
proof -
  obtain b where "car_Encode K [blk_link (msg_Root m)] (msg_Blocks m) = (b, None)"
    using car_message_roundtrip [of L K C m] assms by (auto simp: hcar_sendable_def)
  then show ?thesis
    by (auto simp: hcarreq_Encode_def EncodeHeader_def read_all_def Let_def MaxHeaderSizeBytes_def)
qed

section \<open>A message that can be sent, for the witnesses\<close>

definition hcar0 :: hcarlib where
  "hcar0 = \<lparr> hl_gzip = (\<lambda>b. b), hl_gunzip = (\<lambda>b. Inr (b, None)), hl_base64 = z_encode \<rparr>"

definition sent0 :: message where
  "sent0 = \<lparr> ms_root = blk2 ''m'', ms_data = data0, ms_blks = bs_Put br_empty (blk2 ''m''), ms_store = True,
             ms_invs = Map.empty, ms_rcpts = Map.empty \<rparr>"

lemma hcar0_ok: "hcarlib_ok lib0 hcar0"
  by (simp add: hcarlib_ok_def hcar0_def z_encode_def z_decode_def lib0_def)

lemma sendable0: "sendable lib0 car0 msgcodec0 sent0"
proof -
  have e: "block_Encode lib0 msgcodec0 data0 = Inr (blk2 ''m'')"
    by (simp add: block_Encode_def msgcodec0_def table_codec_def blk2_def)
  have "br_Iterator (bs_Put br_empty (blk2 ''m'')) = [Inr (blk2 ''m'')]"
    using store.contents(2) [of "[blk2 ''m'']"] by simp
  then show ?thesis
    using block_codec_roundtrip [OF msgcodec0_ok e] encoded_car_intact [OF e]
    by (simp add: sendable_def sent0_def store.get_put store.inv_put store.inv_empty store.get_empty)
qed

lemma hcar_sendable0: "hcar_sendable lib0 car0 hcar0 msgcodec0 sent0"
  by (simp add: hcar_sendable_def car0_ok hcar0_ok sendable0)

theorem transport_roundtrip_witness:
  "(\<exists>m'. carreq_Decode lib0 car0 msgcodec0 (carreq_Encode car0 sent0) = Ret (Inr m') \<and> same_message sent0 m') \<and>
   car_inbound lib0 car0 msgcodec0 (carreq_Encode car0 sent0) = Inr (car_accept lib0 car0 msgcodec0)"
  using transport_roundtrip [OF hcar_sendable0] by blast

end
