(* ===== verification/Server.thy ===== *)
theory Server
  imports Transport
begin

text \<open>
  server, server/datamodel and server/transaction: the errors of the server, its options and context,
  the capability provider that validates before it calls a handler, and running, executing and
  answering requests. What handlers, loggers and error handlers act on is a state \<open>'s\<close> that every
  operation passes on. The locale \<open>guarded_service\<close> is the contract of a service method that changes
  what a view shows of the state only when a guard holds; it is interpreted on providers.
\<close>

section \<open>Passing the state\<close>

type_synonym ('s, 'a) act = "'s \<Rightarrow> ('a \<times> 's) comp"

definition sret :: "'a \<Rightarrow> ('s, 'a) act" where
  "sret x s = Ret (x, s)"

definition sbind :: "('s, 'a) act \<Rightarrow> ('a \<Rightarrow> ('s, 'b) act) \<Rightarrow> ('s, 'b) act" where
  "sbind m f s = cbind (m s) (\<lambda>(x, s'). f x s')"

definition slift :: "'a comp \<Rightarrow> ('s, 'a) act" where
  "slift c s = cmap (\<lambda>x. (x, s)) c"

lemma act_Ret [simp]:
  "sret x s = Ret (y, t) \<longleftrightarrow> y = x \<and> t = s"
  "sbind m f s = Ret (z, t) \<longleftrightarrow> (\<exists>x s'. m s = Ret (x, s') \<and> f x s' = Ret (z, t))"
  "slift c s = Ret (y, t) \<longleftrightarrow> c = Ret y \<and> t = s"
  by (auto simp: sret_def sbind_def slift_def)

lemma act_laws [simp]:
  "sbind (sret x) f = f x" "sbind (slift (Ret x)) f = f x" "slift (Ret x) = sret x"
  "sbind (slift (Panic p)) f = slift (Panic p)" "sbind (slift Fuel) f = slift Fuel"
  by (simp_all add: sret_def sbind_def slift_def fun_eq_iff)

lemma act_case:
  "case_sum f g x s = Ret y \<longleftrightarrow> (\<exists>e. x = Inl e \<and> f e s = Ret y) \<or> (\<exists>v. x = Inr v \<and> g v s = Ret y)"
  "case_option k h z s = Ret y \<longleftrightarrow> z = None \<and> k s = Ret y \<or> (\<exists>v. z = Some v \<and> h v s = Ret y)"
  by (auto split: sum.splits option.splits)

lemma same_result_Ret: "MapResultR0 r (\<lambda>v. v) (\<lambda>x. x) = Ret out \<longleftrightarrow> out = r \<and> r \<noteq> nilResult"
  by (cases r) auto

section \<open>Errors\<close>

record srv_capability_model =
  cm_Can :: string
  cm_With :: string

record execution_error_model =
  xe_Error :: bool
  xe_Name :: "string option"
  xe_Message :: string
  xe_Stack :: "string option"
  xe_Cause :: failure_model
  xe_Capability :: srv_capability_model

record capability_error_model =
  ce_Error :: bool
  ce_Name :: "string option"
  ce_Message :: string
  ce_Capabilities :: "srv_capability_model list"

record notfound_error_model =
  ne_Error :: bool
  ne_Name :: "string option"
  ne_Message :: string
  ne_Capability :: srv_capability_model

record audience_error_model =
  ae_Error :: bool
  ae_Name :: "string option"
  ae_Message :: string

text \<open>
  Wrapping the models as nodes of the types of errors.ipldsch is bindnode's, and the stack trace of an
  unauthorized error is the runtime's.
\<close>

record srvlib =
  sl_execution :: "execution_error_model \<Rightarrow> err + node"
  sl_capability :: "capability_error_model \<Rightarrow> err + node"
  sl_notfound :: "notfound_error_model \<Rightarrow> err + node"
  sl_audience :: "audience_error_model \<Rightarrow> err + node"
  sl_stack :: string

datatype server_error =
    HandlerNotFoundError "gany capability"
  | HandlerExecutionError goerror "gany capability"
  | InvocationCapabilityError "gany capability list"
  | InvalidAudienceError "did list" did

definition plain_error :: "err \<Rightarrow> goerror" where
  "plain_error e = \<lparr> ge_Error = e, ge_Name = None, ge_Stack = None, ge_ToIPLD = None \<rparr>"

text \<open>The text, the name and the conversion to IPLD of each. Only an execution error has a stack.\<close>

definition capability_model_of :: "gany capability \<Rightarrow> srv_capability_model" where
  "capability_model_of c = \<lparr> cm_Can = cp_Can c, cm_With = cp_With c \<rparr>"

definition notfound_Error :: "gany capability \<Rightarrow> string" where
  "notfound_Error c = ''service does not implement {can: '' @ dquote @ cp_Can c @ dquote @ ''} handler''"

definition notfound_Name :: string where
  "notfound_Name = ''HandlerNotFoundError''"

definition notfound_ToIPLD :: "srvlib \<Rightarrow> gany capability \<Rightarrow> err + node" where
  "notfound_ToIPLD S c =
     sl_notfound S \<lparr> ne_Error = True, ne_Name = Some notfound_Name, ne_Message = notfound_Error c,
       ne_Capability = capability_model_of c \<rparr>"

definition execution_Error :: "goerror \<Rightarrow> gany capability \<Rightarrow> string" where
  "execution_Error cause c = ''service handler {can: '' @ dquote @ cp_Can c @ dquote @ ''} error: '' @ ge_Error cause"

definition execution_Name :: string where
  "execution_Name = ''HandlerExecutionError''"

definition execution_Stack :: "goerror \<Rightarrow> string" where
  "execution_Stack cause = (case ge_Stack cause of None \<Rightarrow> [] | Some st \<Rightarrow> st)"

definition execution_cause :: "goerror \<Rightarrow> failure_model" where
  "execution_cause cause =
     \<lparr> fm_Name = Some (case ge_Name cause of None \<Rightarrow> [] | Some n \<Rightarrow> n),
       fm_Message = ge_Error cause,
       fm_Stack = Some (case ge_Stack cause of None \<Rightarrow> [] | Some st \<Rightarrow> st) \<rparr>"

definition execution_ToIPLD :: "srvlib \<Rightarrow> goerror \<Rightarrow> gany capability \<Rightarrow> err + node" where
  "execution_ToIPLD S cause c =
     sl_execution S \<lparr> xe_Error = True, xe_Name = Some execution_Name, xe_Message = execution_Error cause c,
       xe_Stack = Some (execution_Stack cause), xe_Cause = execution_cause cause,
       xe_Capability = capability_model_of c \<rparr>"

definition capability_Error :: string where
  "capability_Error = ''Invocation is required to have a single capability.''"

definition capability_Name :: string where
  "capability_Name = ''InvocationCapabilityError''"

definition capability_ToIPLD :: "srvlib \<Rightarrow> gany capability list \<Rightarrow> err + node" where
  "capability_ToIPLD S cs =
     sl_capability S \<lparr> ce_Error = True, ce_Name = Some capability_Name, ce_Message = capability_Error,
       ce_Capabilities = map capability_model_of cs \<rparr>"

definition audience_Error :: "extlib \<Rightarrow> did list \<Rightarrow> did \<Rightarrow> string comp" where
  "audience_Error L expected actual =
     cbind (cmapM (did_String L) expected) (\<lambda>expectedStr.
     cmap (\<lambda>a. ''Invalid audience: expected '' @ Join expectedStr '' or '' @ '', got '' @ a)
          (did_String L actual))"

definition audience_Name :: string where
  "audience_Name = ''InvalidAudienceError''"

definition audience_ToIPLD :: "extlib \<Rightarrow> srvlib \<Rightarrow> did list \<Rightarrow> did \<Rightarrow> (err + node) comp" where
  "audience_ToIPLD L S expected actual =
     cmap (\<lambda>msg. sl_audience S \<lparr> ae_Error = True, ae_Name = Some audience_Name, ae_Message = msg \<rparr>)
          (audience_Error L expected actual)"

text \<open>The methods of the error interface, by the error.\<close>

fun server_error_Error :: "extlib \<Rightarrow> server_error \<Rightarrow> string comp" where
  "server_error_Error L (HandlerNotFoundError c) = Ret (notfound_Error c)"
| "server_error_Error L (HandlerExecutionError cause c) = Ret (execution_Error cause c)"
| "server_error_Error L (InvocationCapabilityError cs) = Ret capability_Error"
| "server_error_Error L (InvalidAudienceError expected actual) = audience_Error L expected actual"

fun server_error_Name :: "server_error \<Rightarrow> string" where
  "server_error_Name (HandlerNotFoundError _) = notfound_Name"
| "server_error_Name (HandlerExecutionError _ _) = execution_Name"
| "server_error_Name (InvocationCapabilityError _) = capability_Name"
| "server_error_Name (InvalidAudienceError _ _) = audience_Name"

fun server_error_Stack :: "server_error \<Rightarrow> string option" where
  "server_error_Stack (HandlerExecutionError cause _) = Some (execution_Stack cause)"
| "server_error_Stack _ = None"

fun server_error_ToIPLD :: "extlib \<Rightarrow> srvlib \<Rightarrow> server_error \<Rightarrow> (err + node) comp" where
  "server_error_ToIPLD L S (HandlerNotFoundError c) = Ret (notfound_ToIPLD S c)"
| "server_error_ToIPLD L S (HandlerExecutionError cause c) = Ret (execution_ToIPLD S cause c)"
| "server_error_ToIPLD L S (InvocationCapabilityError cs) = Ret (capability_ToIPLD S cs)"
| "server_error_ToIPLD L S (InvalidAudienceError expected actual) = audience_ToIPLD L S expected actual"

text \<open>An error of the server as a result: it is \<open>failure.IPLDConvertableError\<close>, so \<open>NewFailure\<close> keeps it.\<close>

definition server_goerror :: "extlib \<Rightarrow> srvlib \<Rightarrow> server_error \<Rightarrow> goerror comp" where
  "server_goerror L S e =
     cbind (server_error_Error L e) (\<lambda>msg.
     cmap (\<lambda>n. \<lparr> ge_Error = msg, ge_Name = Some (server_error_Name e), ge_Stack = server_error_Stack e,
                 ge_ToIPLD = Some n \<rparr>)
          (server_error_ToIPLD L S e))"

text \<open>\<open>failure.FromError\<close> of an unauthorized error, which is named and has a stack trace but no conversion.\<close>

definition unauthorized_failure :: "extlib \<Rightarrow> srvlib \<Rightarrow> fmtlib \<Rightarrow> unauthorized \<Rightarrow> (err + node) comp" where
  "unauthorized_failure L S F e =
     cmap (\<lambda>msg. failure_ToIPLD L (FromError \<lparr> ge_Error = msg, ge_Name = Some ''Unauthorized'',
                   ge_Stack = Some (sl_stack S), ge_ToIPLD = None \<rparr>))
          (unauthorized_Error L F e)"

section \<open>Transactions\<close>

type_synonym outcome = "(err + node, err + node) result"

record transaction =
  tx_Out :: outcome
  tx_Fx :: "effects option"

datatype tx_option = TxEffects "effects option"

fun apply_tx_option :: "effects option \<Rightarrow> tx_option \<Rightarrow> effects option" where
  "apply_tx_option cfg (TxEffects fx) = fx"

definition NewTransaction :: "outcome \<Rightarrow> tx_option list \<Rightarrow> transaction" where
  "NewTransaction out options = \<lparr> tx_Out = out, tx_Fx = foldl apply_tx_option None options \<rparr>"

section \<open>The server and its options\<close>

text \<open>\<open>principal.Signer\<close> signs, and has the verifier of what it signs.\<close>

record principal_signer =
  ps_signer :: signer
  ps_verifier :: verifier

definition ps_DID :: "principal_signer \<Rightarrow> did" where
  "ps_DID p = sg_DID (ps_signer p)"

record server_context =
  cx_id :: principal_signer
  cx_canIssue :: can_issue
  cx_validateAuthorization :: "authorization \<Rightarrow> delegation option comp"
  cx_resolveProof :: "link \<Rightarrow> (link \<times> err option) + delegation"
  cx_parsePrincipal :: "string \<Rightarrow> err + verifier"
  cx_resolveDIDKey :: "did \<Rightarrow> (did \<times> err) + did"
  cx_validateTimeBounds :: "delegation \<Rightarrow> invalid_proof option"
  cx_authorityProofs :: "delegation list"
  cx_altAudiences :: "did list"

text \<open>
  A method answers with a transaction, which may be nil, or with an error; the flag says whether it is
  \<open>context.Canceled\<close>.
\<close>

type_synonym 's service_method =
  "delegation \<Rightarrow> server_context \<Rightarrow> ('s, (goerror \<times> bool) + transaction option) act"

type_synonym 's receipt_logger = "receipt \<Rightarrow> delegation \<Rightarrow> ('s, goerror option) act"
type_synonym 's error_handler = "server_error \<Rightarrow> ('s, unit) act"

record 's srvConfig =
  sc_codec :: "inbound_codec option"
  sc_service :: "string \<rightharpoonup> 's service_method"
  sc_validateAuthorization :: "(authorization \<Rightarrow> delegation option comp) option"
  sc_canIssue :: "can_issue option"
  sc_resolveProof :: "(link \<Rightarrow> (link \<times> err option) + delegation) option"
  sc_parsePrincipal :: "(string \<Rightarrow> err + verifier) option"
  sc_resolveDIDKey :: "(did \<Rightarrow> (did \<times> err) + did) option"
  sc_validateTimeBounds :: "(delegation \<Rightarrow> invalid_proof option) option"
  sc_authorityProofs :: "delegation list"
  sc_altAudiences :: "did list"
  sc_catch :: "'s error_handler option"
  sc_logReceipt :: "'s receipt_logger option"

text \<open>An option changes the configuration or fails. The functions given may be nil.\<close>

type_synonym 's srv_option = "'s srvConfig \<Rightarrow> err + 's srvConfig"

definition service_method_of :: "'s service_method \<Rightarrow> 's service_method" where
  "service_method_of handleFunc input invCtx =
     sbind (handleFunc input invCtx) (\<lambda>r. case r of
       Inl err \<Rightarrow> sret (Inl err)
     | Inr None \<Rightarrow> slift (Panic ''nil pointer dereference'')
     | Inr (Some tx) \<Rightarrow>
         sbind (slift (MapResultR0 (tx_Out tx) (\<lambda>v. v) (\<lambda>x. x))) (\<lambda>out.
           sret (Inr (Some (NewTransaction out [TxEffects (tx_Fx tx)])))))"

definition WithServiceMethod :: "string \<Rightarrow> 's service_method \<Rightarrow> 's srv_option" where
  "WithServiceMethod can handleFunc cfg =
     Inr (cfg\<lparr> sc_service := (sc_service cfg)(can \<mapsto> service_method_of handleFunc) \<rparr>)"

definition WithInboundCodec :: "inbound_codec option \<Rightarrow> 's srv_option" where
  "WithInboundCodec codec cfg = Inr (cfg\<lparr> sc_codec := codec \<rparr>)"

definition WithRevocationChecker :: "(authorization \<Rightarrow> delegation option comp) option \<Rightarrow> 's srv_option" where
  "WithRevocationChecker fn cfg = Inr (cfg\<lparr> sc_validateAuthorization := fn \<rparr>)"

definition WithErrorHandler :: "'s error_handler option \<Rightarrow> 's srv_option" where
  "WithErrorHandler fn cfg = Inr (cfg\<lparr> sc_catch := fn \<rparr>)"

definition WithReceiptLogger :: "'s receipt_logger option \<Rightarrow> 's srv_option" where
  "WithReceiptLogger fn cfg = Inr (cfg\<lparr> sc_logReceipt := fn \<rparr>)"

definition WithCanIssue :: "can_issue option \<Rightarrow> 's srv_option" where
  "WithCanIssue fn cfg = Inr (cfg\<lparr> sc_canIssue := fn \<rparr>)"

definition WithProofResolver :: "(link \<Rightarrow> (link \<times> err option) + delegation) option \<Rightarrow> 's srv_option" where
  "WithProofResolver fn cfg = Inr (cfg\<lparr> sc_resolveProof := fn \<rparr>)"

definition WithPrincipalParser :: "(string \<Rightarrow> err + verifier) option \<Rightarrow> 's srv_option" where
  "WithPrincipalParser fn cfg = Inr (cfg\<lparr> sc_parsePrincipal := fn \<rparr>)"

definition WithPrincipalResolver :: "(did \<Rightarrow> (did \<times> err) + did) option \<Rightarrow> 's srv_option" where
  "WithPrincipalResolver fn cfg = Inr (cfg\<lparr> sc_resolveDIDKey := fn \<rparr>)"

definition WithTimeBoundsValidator :: "(delegation \<Rightarrow> invalid_proof option) option \<Rightarrow> 's srv_option" where
  "WithTimeBoundsValidator fn cfg = Inr (cfg\<lparr> sc_validateTimeBounds := fn \<rparr>)"

definition WithAuthorityProofs :: "delegation list \<Rightarrow> 's srv_option" where
  "WithAuthorityProofs proofs cfg = Inr (cfg\<lparr> sc_authorityProofs := proofs \<rparr>)"

definition WithAlternativeAudiences :: "did list \<Rightarrow> 's srv_option" where
  "WithAlternativeAudiences audiences cfg = Inr (cfg\<lparr> sc_altAudiences := audiences \<rparr>)"

record 's server =
  sv_id :: principal_signer
  sv_service :: "string \<rightharpoonup> 's service_method"
  sv_context :: server_context
  sv_codec :: inbound_codec
  sv_catch :: "'s error_handler"
  sv_logReceipt :: "'s receipt_logger option"

text \<open>
  What the server runs on: the parameters of the parts it calls, the fuel of a validation, the time the
  clock shows, and what a line written to the standard error does to the state.
\<close>

record srvbase =
  se_V :: venv
  se_K :: carlib
  se_R :: rcptlib
  se_C :: "data_model codec"
  se_S :: srvlib
  se_F :: fmtlib
  se_fuel :: nat
  se_now :: int

record 's srvenv = srvbase +
  se_stderr :: "string \<Rightarrow> ('s, unit) act"

abbreviation se_L :: "'z srvbase_scheme \<Rightarrow> extlib" where "se_L E \<equiv> ve_L (se_V E)"
abbreviation se_U :: "'z srvbase_scheme \<Rightarrow> ucanlib" where "se_U E \<equiv> ve_U (se_V E)"

definition srv_ParsePrincipal :: "extlib \<Rightarrow> string \<Rightarrow> err + verifier" where
  "srv_ParsePrincipal L str = (case edv_Parse L str of Inl e \<Rightarrow> Inl e | Inr v \<Rightarrow> Inr (edv_verifier L v))"

definition stderr_catch :: "'s srvenv \<Rightarrow> 's error_handler" where
  "stderr_catch E err =
     sbind (slift (server_error_Error (se_L E) err)) (\<lambda>msg. se_stderr E (''error: '' @ msg @ [newline]))"

fun apply_srv_options :: "'s srv_option list \<Rightarrow> 's srvConfig \<Rightarrow> err + 's srvConfig" where
  "apply_srv_options [] cfg = Inr cfg"
| "apply_srv_options (opt # opts) cfg =
     (case opt cfg of Inl e \<Rightarrow> Inl e | Inr cfg' \<Rightarrow> apply_srv_options opts cfg')"

definition srvConfig0 :: "'s srvConfig" where
  "srvConfig0 =
     \<lparr> sc_codec = None, sc_service = Map.empty, sc_validateAuthorization = None, sc_canIssue = None,
       sc_resolveProof = None, sc_parsePrincipal = None, sc_resolveDIDKey = None,
       sc_validateTimeBounds = None, sc_authorityProofs = [], sc_altAudiences = [], sc_catch = None,
       sc_logReceipt = None \<rparr>"

definition or_default :: "'a option \<Rightarrow> 'a \<Rightarrow> 'a" where
  "or_default x d = (case x of None \<Rightarrow> d | Some y \<Rightarrow> y)"

definition NewServer :: "'s srvenv \<Rightarrow> principal_signer \<Rightarrow> 's srv_option list \<Rightarrow> err + 's server" where
  "NewServer E ident options =
     (case apply_srv_options options srvConfig0 of
        Inl e \<Rightarrow> Inl e
      | Inr cfg \<Rightarrow>
          let ctx = \<lparr> cx_id = ident,
                      cx_canIssue = or_default (sc_canIssue cfg) (IsSelfIssued (se_L E)),
                      cx_validateAuthorization = or_default (sc_validateAuthorization cfg) (\<lambda>auth. Ret None),
                      cx_resolveProof = or_default (sc_resolveProof cfg) ProofUnavailable,
                      cx_parsePrincipal = or_default (sc_parsePrincipal cfg) (srv_ParsePrincipal (se_L E)),
                      cx_resolveDIDKey = or_default (sc_resolveDIDKey cfg) FailDIDKeyResolution,
                      cx_validateTimeBounds = or_default (sc_validateTimeBounds cfg) (NotExpiredNotTooEarly (se_now E)),
                      cx_authorityProofs = sc_authorityProofs cfg,
                      cx_altAudiences = sc_altAudiences cfg \<rparr>
          in Inr \<lparr> sv_id = ident, sv_service = sc_service cfg, sv_context = ctx,
                   sv_codec = or_default (sc_codec cfg) (car_inbound (se_L E) (se_K E) (se_C E)),
                   sv_catch = or_default (sc_catch cfg) (stderr_catch E),
                   sv_logReceipt = sc_logReceipt cfg \<rparr>)"

definition srv_LogReceipt :: "'s server \<Rightarrow> 's receipt_logger" where
  "srv_LogReceipt srv rcpt ivk =
     (case sv_logReceipt srv of None \<Rightarrow> sret None | Some log \<Rightarrow> log rcpt ivk)"

section \<open>Providers\<close>

type_synonym 's srv_handler =
  "gany capability \<Rightarrow> delegation \<Rightarrow> server_context \<Rightarrow> ('s, (goerror \<times> bool) + outcome \<times> effects option) act"

definition accepted_audiences :: "extlib \<Rightarrow> server_context \<Rightarrow> (string, string) reader comp" where
  "accepted_audiences L ictx =
     cbind (did_String L (ps_DID (cx_id ictx))) (\<lambda>own.
       if length (cx_altAudiences ictx) > 0 then
         cmap (\<lambda>alts. schema_Or (map Literal alts @ [Literal own]))
              (cmapM (did_String L) (cx_altAudiences ictx))
       else Ret (Literal own))"

definition provider_context :: "server_context \<Rightarrow> descriptor \<Rightarrow> validation_context" where
  "provider_context ictx capability =
     NewValidationContext (ps_verifier (cx_id ictx)) capability (cx_canIssue ictx)
       (cx_validateAuthorization ictx) (cx_resolveProof ictx) (cx_parsePrincipal ictx)
       (cx_resolveDIDKey ictx) (cx_validateTimeBounds ictx) (cx_authorityProofs ictx)"

text \<open>The errors a provider answers with are converted to IPLD when the receipt is issued, right after.\<close>

definition Provide :: "'z srvbase_scheme \<Rightarrow> descriptor \<Rightarrow> 's srv_handler \<Rightarrow> 's service_method" where
  "Provide E capability handler ivk ictx =
     (let L = se_L E; (C, cap) = provider_context ictx capability
      in sbind (slift (accepted_audiences L ictx)) (\<lambda>acceptedAudiences.
         sbind (slift (did_String L (dlg_Audience L ivk))) (\<lambda>aud.
         sbind (slift (acceptedAudiences aud)) (\<lambda>r. case r of
           Inl _ \<Rightarrow>
             let expectedAudiences = [ps_DID (cx_id ictx)] @ cx_altAudiences ictx;
                 audErr = InvalidAudienceError expectedAudiences (dlg_Audience L ivk)
             in sbind (slift (server_error_ToIPLD L (se_S E) audErr)) (\<lambda>n.
                  sret (Inr (Some (NewTransaction (errResult n) []))))
         | Inr _ \<Rightarrow>
             sbind (slift (Access (se_fuel E) (se_V E) C cap ivk)) (\<lambda>access. case access of
               Inl aerr \<Rightarrow>
                 sbind (slift (unauthorized_failure L (se_S E) (se_F E) aerr)) (\<lambda>n.
                   sret (Inr (Some (NewTransaction (errResult n) []))))
             | Inr auth \<Rightarrow>
                 sbind (handler (auth_Capability auth) ivk ictx) (\<lambda>h. case h of
                   Inl herr \<Rightarrow> sret (Inl herr)
                 | Inr (res, fx) \<Rightarrow>
                     sbind (slift (MapResultR0 res (\<lambda>v. v) (\<lambda>x. x))) (\<lambda>out.
                       sret (Inr (Some (NewTransaction out [TxEffects fx]))))))))))"

section \<open>Running, executing, answering\<close>

definition srv_issue :: "'s srvenv \<Rightarrow> 's server \<Rightarrow> outcome \<Rightarrow> delegation \<Rightarrow> rcpt_option list \<Rightarrow> ('s, err + receipt) act" where
  "srv_issue E srv out ivk opts =
     slift (rcpt_Issue (se_L E) (se_R E) (ps_signer (sv_id srv)) out (ran_FromInvocation (Some ivk)) opts)"

definition issue_failure :: "'s srvenv \<Rightarrow> 's server \<Rightarrow> server_error \<Rightarrow> delegation \<Rightarrow> ('s, goerror + receipt) act" where
  "issue_failure E srv e ivk =
     sbind (slift (server_goerror (se_L E) (se_S E) e)) (\<lambda>g.
     sbind (srv_issue E srv (NewFailure (se_L E) g) ivk []) (\<lambda>r. sret (map_sum plain_error id r)))"

definition execution_failed :: "'s srvenv \<Rightarrow> 's server \<Rightarrow> goerror \<Rightarrow> gany capability \<Rightarrow> delegation \<Rightarrow> ('s, goerror + receipt) act" where
  "execution_failed E srv e cap ivk =
     (let herr = HandlerExecutionError e cap
      in sbind (sv_catch srv herr) (\<lambda>_. issue_failure E srv herr ivk))"

definition fx_options :: "effects option \<Rightarrow> rcpt_option list" where
  "fx_options fx = (case fx of None \<Rightarrow> [] | Some f \<Rightarrow> [RWithJoin (fx_Join f), RWithFork (fx_Fork f)])"

definition srv_Run :: "'s srvenv \<Rightarrow> 's server \<Rightarrow> delegation \<Rightarrow> ('s, goerror + receipt) act" where
  "srv_Run E srv ivk =
     (let caps = dlg_Capabilities ivk
      in if length caps \<noteq> 1 then issue_failure E srv (InvocationCapabilityError caps) ivk
         else let cap = hd caps
         in case sv_service srv (cp_Can cap) of
              None \<Rightarrow> issue_failure E srv (HandlerNotFoundError cap) ivk
            | Some handle \<Rightarrow>
                sbind (handle ivk (sv_context srv)) (\<lambda>r. case r of
                  Inl (e, canceled) \<Rightarrow>
                    if canceled then sret (Inl e) else execution_failed E srv e cap ivk
                | Inr None \<Rightarrow> slift (Panic ''nil pointer dereference'')
                | Inr (Some tx) \<Rightarrow>
                    sbind (srv_issue E srv (tx_Out tx) ivk (fx_options (tx_Fx tx))) (\<lambda>i. case i of
                      Inl e \<Rightarrow> execution_failed E srv (plain_error e) cap ivk
                    | Inr rcpt \<Rightarrow>
                        sbind (srv_LogReceipt srv rcpt ivk) (\<lambda>logged. case logged of
                          Some e \<Rightarrow> execution_failed E srv e cap ivk
                        | None \<Rightarrow> sret (Inr rcpt)))))"

text \<open>
  The goroutines of \<open>Execute\<close> in the order they finish in: the error written last, and the receipts in
  the order they are appended.
\<close>

fun run_all :: "('s, goerror + receipt) act list \<Rightarrow> ('s, goerror option \<times> receipt list) act" where
  "run_all [] = sret (None, [])"
| "run_all (run # runs) =
     sbind run (\<lambda>r.
     sbind (run_all runs) (\<lambda>(rerr, rcpts). case r of
       Inl e \<Rightarrow> sret (Some (or_default rerr e), rcpts)
     | Inr rcpt \<Rightarrow> sret (rerr, rcpt # rcpts)))"

definition srv_invocations :: "extlib \<Rightarrow> ucanlib \<Rightarrow> message \<Rightarrow> err + delegation list" where
  "srv_invocations L U msg =
     (case NewBlockReader [] (msg_Blocks msg) of
        Inl e \<Rightarrow> Inl e
      | Inr br \<Rightarrow> emapM (\<lambda>l. NewInvocationView L U l br) (msg_Invocations msg))"

definition srv_Execute ::
    "'s srvenv \<Rightarrow> (delegation list \<Rightarrow> delegation list) \<Rightarrow> 's server \<Rightarrow> message \<Rightarrow> ('s, goerror + message) act" where
  "srv_Execute E order srv msg =
     (case srv_invocations (se_L E) (se_U E) msg of
        Inl e \<Rightarrow> sret (Inl (plain_error e))
      | Inr invs \<Rightarrow>
          sbind (run_all (map (srv_Run E srv) (order invs))) (\<lambda>(rerr, rcpts). case rerr of
            Some e \<Rightarrow> sret (Inl e)
          | None \<Rightarrow>
              sbind (slift (msg_Build (se_L E) (se_U E) (se_C E) [] rcpts)) (\<lambda>m.
                sret (map_sum plain_error id m))))"

definition undecodable_text :: string where
  "undecodable_text = ''The server failed to decode the request payload. Please format the payload according to the specified media type.''"

definition srv_Handle ::
    "'s srvenv \<Rightarrow> (delegation list \<Rightarrow> delegation list) \<Rightarrow> 's server \<Rightarrow> http_request \<Rightarrow> ('s, goerror + http_response) act" where
  "srv_Handle E order srv request =
     (case sv_codec srv request of
        Inl aerr \<Rightarrow>
          sret (Inr (http_NewResponse (he_status aerr) (Some (text_body (he_message aerr))) (Some (he_headers aerr))))
      | Inr selection \<Rightarrow>
          sbind (slift (ac_Decode selection request)) (\<lambda>d. case d of
            Inl _ \<Rightarrow> sret (Inr (http_NewResponse 400 (Some (text_body undecodable_text)) None))
          | Inr msg \<Rightarrow>
              sbind (srv_Execute E order srv msg) (\<lambda>result. case result of
                Inl e \<Rightarrow> sret (Inl e)
              | Inr res \<Rightarrow> sret (map_sum (\<lambda>(e, big). plain_error e) id (ac_Encode selection res)))))"

section \<open>The contract of a service\<close>

text \<open>
  A service whose methods change what \<open>view\<close> shows of the state only for invocations that pass a guard.
  A server over it, whose error handler and receipt logger do not change the view, changes it only for
  an invocation of the request that has one capability and passes the guard of that capability's method.
\<close>

definition quiet :: "('s \<Rightarrow> 'v) \<Rightarrow> 's server \<Rightarrow> bool" where
  "quiet view srv \<longleftrightarrow>
     (\<forall>e s r s'. sv_catch srv e s = Ret (r, s') \<longrightarrow> view s' = view s) \<and>
     (\<forall>rcpt ivk s r s'. srv_LogReceipt srv rcpt ivk s = Ret (r, s') \<longrightarrow> view s' = view s)"

definition passes :: "(string \<Rightarrow> delegation \<Rightarrow> server_context \<Rightarrow> bool) \<Rightarrow> server_context \<Rightarrow> delegation \<Rightarrow> bool" where
  "passes guard ctx ivk \<longleftrightarrow> (\<exists>cap. dlg_Capabilities ivk = [cap] \<and> guard (cp_Can cap) ivk ctx)"

locale guarded_service =
  fixes service :: "string \<rightharpoonup> 's service_method"
    and guard :: "string \<Rightarrow> delegation \<Rightarrow> server_context \<Rightarrow> bool"
    and view :: "'s \<Rightarrow> 'v"
  assumes unguarded: "service can = Some m \<Longrightarrow> m ivk ctx s = Ret (r, s') \<Longrightarrow> \<not> guard can ivk ctx \<Longrightarrow> view s' = view s"
begin

lemma issue_failure_frame: "issue_failure E srv e ivk s = Ret (r, s') \<Longrightarrow> s' = s"
  by (auto simp: issue_failure_def srv_issue_def)

lemma execution_failed_frame:
  "quiet view srv \<Longrightarrow> execution_failed E srv e cap ivk s = Ret (r, s') \<Longrightarrow> view s' = view s"
  by (auto simp: execution_failed_def quiet_def Let_def dest: issue_failure_frame)

lemma run_changes:
  assumes "quiet view srv" "sv_service srv = service" "srv_Run E srv ivk s = Ret (r, s')" "view s' \<noteq> view s"
  shows "passes guard (sv_context srv) ivk"
proof (cases "length (dlg_Capabilities ivk) = 1")
  case True
  then obtain cap where cap: "dlg_Capabilities ivk = [cap]" by (cases "dlg_Capabilities ivk") auto
  show ?thesis
  proof (cases "service (cp_Can cap)")
    case None
    with assms cap show ?thesis by (auto simp: srv_Run_def dest: issue_failure_frame)
  next
    case (Some m)
    from assms(3) cap Some obtain x s1 where m: "m ivk (sv_context srv) s = Ret (x, s1)"
      and rest: "(case x of Inl (e, canceled) \<Rightarrow> if canceled then sret (Inl e) else execution_failed E srv e cap ivk
         | Inr None \<Rightarrow> slift (Panic ''nil pointer dereference'')
         | Inr (Some tx) \<Rightarrow> sbind (srv_issue E srv (tx_Out tx) ivk (fx_options (tx_Fx tx))) (\<lambda>i. case i of
             Inl e \<Rightarrow> execution_failed E srv (plain_error e) cap ivk
           | Inr rcpt \<Rightarrow> sbind (srv_LogReceipt srv rcpt ivk) (\<lambda>logged. case logged of
               Some e \<Rightarrow> execution_failed E srv e cap ivk
             | None \<Rightarrow> sret (Inr rcpt)))) s1 = Ret (r, s')"
      using assms(2) by (auto simp: srv_Run_def Let_def)
    have "view s' = view s1"
      using rest assms(1)
      by (auto simp: srv_issue_def quiet_def act_case split: if_splits
          dest!: execution_failed_frame [OF assms(1)])
    with assms(4) unguarded [OF Some m] cap show ?thesis by (auto simp: passes_def)
  qed
qed (use assms in \<open>auto simp: srv_Run_def Let_def dest: issue_failure_frame\<close>)

lemma run_all_changes:
  assumes "quiet view srv" "sv_service srv = service"
    and "run_all (map (srv_Run E srv) invs) s = Ret (r, s')" "view s' \<noteq> view s"
  shows "\<exists>ivk \<in> set invs. passes guard (sv_context srv) ivk"
  using assms(3,4)
proof (induction invs arbitrary: s r)
  case (Cons ivk invs)
  then obtain x s1 y where x: "srv_Run E srv ivk s = Ret (x, s1)" "run_all (map (srv_Run E srv) invs) s1 = Ret (y, s')"
    by (auto simp: act_case)
  show ?case
  proof (cases "view s1 = view s")
    case True
    with Cons.IH [OF x(2)] Cons.prems(2) show ?thesis by auto
  next
    case False
    with run_changes [OF assms(1,2) x(1)] show ?thesis by auto
  qed
qed simp

lemma handle_changes:
  assumes "quiet view srv" "sv_service srv = service" "\<And>invs. mset (order invs) = mset invs"
    and "srv_Handle E order srv req s = Ret (r, s')" "view s' \<noteq> view s"
  obtains sel msg invs ivk where "sv_codec srv req = Inr sel" "ac_Decode sel req = Ret (Inr msg)"
    "srv_invocations (se_L E) (se_U E) msg = Inr invs" "ivk \<in> set invs" "passes guard (sv_context srv) ivk"
proof -
  obtain sel msg x where sel: "sv_codec srv req = Inr sel" "ac_Decode sel req = Ret (Inr msg)"
    and x: "srv_Execute E order srv msg s = Ret (x, s')"
    using assms(4,5) by (auto simp: srv_Handle_def act_case)
  obtain invs y where invs: "srv_invocations (se_L E) (se_U E) msg = Inr invs"
    and y: "run_all (map (srv_Run E srv) (order invs)) s = Ret (y, s')"
    using x assms(5) by (auto simp: srv_Execute_def act_case)
  obtain ivk where "ivk \<in> set (order invs)" "passes guard (sv_context srv) ivk"
    using run_all_changes [OF assms(1,2) y assms(5)] by blast
  moreover have "set (order invs) = set invs" using assms(3) by (metis set_mset_mset)
  ultimately show thesis using that [OF sel invs] by blast
qed

end

section \<open>The contract met by providers\<close>

definition audience_accepted :: "extlib \<Rightarrow> server_context \<Rightarrow> delegation \<Rightarrow> bool" where
  "audience_accepted L ctx ivk \<longleftrightarrow>
     (\<exists>aud p. did_String L (dlg_Audience L ivk) = Ret aud \<and> p \<in> set (ps_DID (cx_id ctx) # cx_altAudiences ctx) \<and>
        did_String L p = Ret aud)"

definition admits :: "'z srvbase_scheme \<Rightarrow> descriptor \<Rightarrow> delegation \<Rightarrow> server_context \<Rightarrow> authorization \<Rightarrow> bool" where
  "admits E desc ivk ctx auth \<longleftrightarrow>
     audience_accepted (se_L E) ctx ivk \<and>
     Access (se_fuel E) (se_V E) (fst (provider_context ctx desc)) desc ivk = Ret (Inr auth)"

text \<open>The providers of a server, by the abilities they are given for; a later one replaces an earlier one.\<close>

type_synonym 's provider_list = "(string \<times> descriptor \<times> 's srv_handler) list"

definition provided :: "'s srvenv \<Rightarrow> 's provider_list \<Rightarrow> string \<rightharpoonup> 's service_method" where
  "provided E ps can = map_option (\<lambda>(desc, h). service_method_of (Provide E desc h)) (map_of (rev ps) can)"

definition provide_options :: "'s srvenv \<Rightarrow> 's provider_list \<Rightarrow> 's srv_option list" where
  "provide_options E ps = map (\<lambda>(can, desc, h). WithServiceMethod can (Provide E desc h)) ps"

lemma accepted_audiences_Ret:
  "accepted_audiences L ctx = Ret rd \<longleftrightarrow>
     (\<exists>own alts. did_String L (ps_DID (cx_id ctx)) = Ret own \<and>
        cmapM (did_String L) (cx_altAudiences ctx) = Ret alts \<and> rd = literal_union (alts @ [own]))"
proof -
  have "literal_union (alts @ [own]) = (if alts = [] then Literal own else schema_Or (map Literal alts @ [Literal own]))"
    for alts own by (cases alts) (auto simp: literal_union_def split: list.splits)
  moreover have "alts = [] \<longleftrightarrow> xs = []" if "cmapM (did_String L) xs = Ret alts" for xs alts
    using that by (auto simp: cmapM_eq_Ret)
  ultimately show ?thesis
    by (cases "cx_altAudiences ctx") (auto simp: accepted_audiences_def)
qed

lemma audience_read:
  assumes "accepted_audiences L ctx = Ret rd" "did_String L (dlg_Audience L ivk) = Ret aud"
  shows "(\<exists>f. rd aud = Ret (Inl f)) \<and> \<not> audience_accepted L ctx ivk \<or>
         rd aud = Ret (Inr aud) \<and> audience_accepted L ctx ivk"
proof -
  obtain own alts where o: "did_String L (ps_DID (cx_id ctx)) = Ret own"
    "cmapM (did_String L) (cx_altAudiences ctx) = Ret alts" "rd = literal_union (alts @ [own])"
    using assms(1) by (auto simp: accepted_audiences_Ret)
  have "set alts = {t. \<exists>p \<in> set (cx_altAudiences ctx). did_String L p = Ret t}"
    using o(2) unfolding cmapM_eq_Ret by (induction rule: list_all2_induct) auto
  then have "aud \<in> set (alts @ [own]) \<longleftrightarrow> audience_accepted L ctx ivk"
    using o(1) assms(2) by (auto simp: audience_accepted_def)
  then show ?thesis
    using lits.read_accepts [of "alts @ [own]" aud] lits.read_rejects [of "alts @ [own]" aud] o(3) by auto
qed

lemma provider_context_snd [simp]: "snd (provider_context ctx desc) = desc"
  by (simp add: provider_context_def NewValidationContext_def)

lemma Provide_Ret:
  assumes "Provide E desc h ivk ctx s = Ret (r, s')"
  shows "(\<exists>auth x. admits E desc ivk ctx auth \<and> h (auth_Capability auth) ivk ctx s = Ret (x, s') \<and>
            (case x of Inl e \<Rightarrow> r = Inl e
             | Inr (res, fx) \<Rightarrow> res \<noteq> nilResult \<and> r = Inr (Some \<lparr> tx_Out = res, tx_Fx = fx \<rparr>))) \<or>
         s' = s \<and> (\<nexists>auth. admits E desc ivk ctx auth) \<and>
           (\<exists>n. r = Inr (Some \<lparr> tx_Out = errResult n, tx_Fx = None \<rparr>))"
proof -
  obtain C where C: "provider_context ctx desc = (C, desc)"
    using provider_context_snd [of ctx desc] by (cases "provider_context ctx desc") auto
  obtain rd aud where rd: "accepted_audiences (se_L E) ctx = Ret rd"
    "did_String (se_L E) (dlg_Audience (se_L E) ivk) = Ret aud"
    using assms by (auto simp: Provide_def C Let_def)
  note out = same_result_Ret NewTransaction_def
  from audience_read [OF rd] show ?thesis
  proof
    assume "(\<exists>f. rd aud = Ret (Inl f)) \<and> \<not> audience_accepted (se_L E) ctx ivk"
    then show ?thesis using assms rd by (auto simp: Provide_def C Let_def admits_def out act_case)
  next
    assume "rd aud = Ret (Inr aud) \<and> audience_accepted (se_L E) ctx ivk"
    then show ?thesis
      using assms rd by (auto simp: Provide_def C Let_def admits_def out act_case)
  qed
qed

lemma service_method_of_Ret:
  assumes "service_method_of m ivk ctx s = Ret (r, s')"
  shows "m ivk ctx s = Ret (r, s')"
  using assms
  by (auto simp: service_method_of_def same_result_Ret NewTransaction_def act_case)

interpretation providers: guarded_service "provided E ps"
  "\<lambda>can ivk ctx. \<exists>desc h auth. (can, desc, h) \<in> set ps \<and> admits E desc ivk ctx auth" view for E ps view
proof
  fix can m ivk ctx s r s'
  assume m: "provided E ps can = Some m" "m ivk ctx s = Ret (r, s')"
    and g: "\<not> (\<exists>desc h auth. (can, desc, h) \<in> set ps \<and> admits E desc ivk ctx auth)"
  from m(1) obtain desc h where d: "map_of (rev ps) can = Some (desc, h)" "m = service_method_of (Provide E desc h)"
    by (auto simp: provided_def)
  from d(1) have "(can, desc, h) \<in> set ps" by (auto dest: map_of_SomeD)
  with Provide_Ret [OF service_method_of_Ret [OF m(2) [unfolded d(2)]]] g show "view s' = view s" by auto
qed

section \<open>What a request does\<close>

definition keeps_service :: "'s srv_option \<Rightarrow> bool" where
  "keeps_service opt \<longleftrightarrow> (\<forall>cfg cfg'. opt cfg = Inr cfg' \<longrightarrow> sc_service cfg' = sc_service cfg)"

lemma keeps_service_options:
  "keeps_service (WithInboundCodec c)" "keeps_service (WithRevocationChecker f1)" "keeps_service (WithErrorHandler f2)"
  "keeps_service (WithReceiptLogger f3)" "keeps_service (WithCanIssue f4)" "keeps_service (WithProofResolver f5)"
  "keeps_service (WithPrincipalParser f6)" "keeps_service (WithPrincipalResolver f7)"
  "keeps_service (WithTimeBoundsValidator f8)" "keeps_service (WithAuthorityProofs ds)"
  "keeps_service (WithAlternativeAudiences as)"
  by (auto simp: keeps_service_def WithInboundCodec_def WithRevocationChecker_def WithErrorHandler_def
      WithReceiptLogger_def WithCanIssue_def WithProofResolver_def WithPrincipalParser_def
      WithPrincipalResolver_def WithTimeBoundsValidator_def WithAuthorityProofs_def WithAlternativeAudiences_def)

lemma apply_srv_options_append:
  "apply_srv_options (as @ bs) cfg = (case apply_srv_options as cfg of Inl e \<Rightarrow> Inl e | Inr c \<Rightarrow> apply_srv_options bs c)"
  by (induction as arbitrary: cfg) (auto split: sum.split)

lemma apply_others:
  "\<forall>opt \<in> set opts. keeps_service opt \<Longrightarrow> apply_srv_options opts cfg = Inr cfg' \<Longrightarrow> sc_service cfg' = sc_service cfg"
  by (induction opts arbitrary: cfg) (auto simp: keeps_service_def case_sum_eq)

lemma apply_provide_options:
  "\<exists>cfg'. apply_srv_options (provide_options E ps) cfg = Inr cfg' \<and> sc_service cfg' = sc_service cfg ++ provided E ps"
proof (induction ps arbitrary: cfg)
  case (Cons p ps)
  obtain can desc h where p: "p = (can, desc, h)" by (cases p) auto
  let ?cfg = "cfg\<lparr> sc_service := (sc_service cfg)(can \<mapsto> service_method_of (Provide E desc h)) \<rparr>"
  have "sc_service ?cfg ++ provided E ps = sc_service cfg ++ provided E (p # ps)"
    by (rule ext) (auto simp: provided_def p map_add_def split: option.splits)
  moreover obtain cfg' where "apply_srv_options (provide_options E ps) ?cfg = Inr cfg'"
    "sc_service cfg' = sc_service ?cfg ++ provided E ps"
    using Cons.IH by blast
  moreover have "provide_options E (p # ps) = WithServiceMethod can (Provide E desc h) # provide_options E ps"
    by (simp add: provide_options_def p)
  ultimately show ?case by (intro exI [of _ cfg']) (simp add: WithServiceMethod_def)
qed (simp add: provide_options_def provided_def map_add_def)

lemma NewServer_service:
  assumes "NewServer E ident (others @ provide_options E ps) = Inr srv" "\<forall>opt \<in> set others. keeps_service opt"
  shows "sv_service srv = provided E ps"
proof -
  obtain cfg cfg' where c: "apply_srv_options others srvConfig0 = Inr cfg"
    "apply_srv_options (provide_options E ps) cfg = Inr cfg'" "sv_service srv = sc_service cfg'"
    using assms(1) by (auto simp: NewServer_def apply_srv_options_append Let_def case_sum_eq)
  moreover have "sc_service cfg = Map.empty" using apply_others [OF assms(2) c(1)] by (simp add: srvConfig0_def)
  ultimately show ?thesis using apply_provide_options [of E ps cfg] by auto
qed

lemma reader_wf: "NewBlockReader [] blks = Inr br \<Longrightarrow> wf_store br"
  using store.inv_puts [OF store.inv_empty]
  by (auto simp: NewBlockReader_eq_NewBlockStore NewBlockStore_Inr)

lemma srv_invocations_link:
  assumes "srv_invocations L U msg = Inr invs"
  obtains br where "wf_store br" "msg_Invocations msg = map dlg_Link invs"
    "\<And>ivk. ivk \<in> set invs \<Longrightarrow> NewInvocationView L U (dlg_Link ivk) br = Inr ivk"
proof -
  obtain br where br: "NewBlockReader [] (msg_Blocks msg) = Inr br"
    and i: "list_all2 (\<lambda>l ivk. NewInvocationView L U l br = Inr ivk) (msg_Invocations msg) invs"
    using assms by (auto simp: srv_invocations_def emapM_Inr case_sum_eq)
  note wf = reader_wf [OF br]
  have l: "NewInvocationView L U l br = Inr ivk \<Longrightarrow> dlg_Link ivk = l" for l ivk
    using wf by (auto simp: NewInvocationView_def NewDelegationView_Inr dlg_Link_def wf_store_def br_Get_def)
  from i have "msg_Invocations msg = map dlg_Link invs \<and>
      (\<forall>ivk \<in> set invs. NewInvocationView L U (dlg_Link ivk) br = Inr ivk)"
    by (induction rule: list_all2_induct) (auto simp: l)
  with wf that show thesis by blast
qed

text \<open>
  C4. A request changes the world only as far as someone was allowed to. When handling a request changes
  what \<open>view\<close> shows, the request decodes to a message that lists an invocation of one capability, for
  which a provider was configured; the audience it names is the server or an alternative one; and it is
  the top of a chain of delegations, each in time, verified and covered by the next, down to one whose
  issuer may issue its capability, and the whole was not revoked. This holds under every order of the
  goroutines that run the invocations, for every handler, and whatever the answer to the request is.
\<close>

theorem request_changes_authorised:
  assumes "order_ok (se_V E)" and "\<And>invs. mset (order invs) = mset invs"
    and "NewServer E ident (others @ provide_options E ps) = Inr srv" and "\<forall>opt \<in> set others. keeps_service opt"
    and "quiet view srv" and "srv_Handle E order srv req s = Ret (r, s')" and "view s' \<noteq> view s"
  shows "\<exists>sel msg ivk cap desc h a. sv_codec srv req = Inr sel \<and> ac_Decode sel req = Ret (Inr msg) \<and>
           dlg_Link ivk \<in> set (msg_Invocations msg) \<and> dlg_Capabilities ivk = [cap] \<and> (cp_Can cap, desc, h) \<in> set ps \<and>
           audience_accepted (se_L E) (sv_context srv) ivk \<and>
           (let C = fst (provider_context (sv_context srv) desc)
            in auth_dlg a = ivk \<and> list_all (in_force (se_V E) C) (auth_chain a) \<and>
               successively (passed_on (se_V E) C) (auth_chain a) \<and>
               issued_by_owner (se_V E) C (last (auth_chain a)) \<and> cc_validateAuthorization C a = Ret None)"
proof -
  obtain sel msg invs ivk where m: "sv_codec srv req = Inr sel" "ac_Decode sel req = Ret (Inr msg)"
    and i: "srv_invocations (se_L E) (se_U E) msg = Inr invs" "ivk \<in> set invs"
    and p: "passes (\<lambda>can ivk ctx. \<exists>desc h auth. (can, desc, h) \<in> set ps \<and> admits E desc ivk ctx auth)
      (sv_context srv) ivk"
    by (rule providers.handle_changes [OF assms(5) NewServer_service [OF assms(3,4)] assms(2,6,7)])
  from p obtain cap desc h a where a: "dlg_Capabilities ivk = [cap]" "(cp_Can cap, desc, h) \<in> set ps"
    "admits E desc ivk (sv_context srv) a"
    by (auto simp: passes_def)
  have "dlg_Link ivk \<in> set (msg_Invocations msg)"
    by (rule srv_invocations_link [OF i(1)]) (use i(2) in auto)
  moreover have "audience_accepted (se_L E) (sv_context srv) ivk" using a(3) by (simp add: admits_def)
  moreover note access_chain [OF assms(1), of "se_fuel E" "fst (provider_context (sv_context srv) desc)" desc ivk a]
  ultimately show ?thesis using m a(1,2) a(3) [unfolded admits_def]
    by (intro exI [of _ sel] exI [of _ msg] exI [of _ ivk] exI [of _ cap] exI [of _ desc] exI [of _ h] exI [of _ a])
      (simp add: Let_def)
qed

section \<open>What a run answers\<close>

lemma issued_by_run:
  assumes "rcpt_Issue L R issuer out (ran_FromInvocation (Some ivk)) (fx_options fx) = Ret (Inr r)"
  shows "rcpt_key r = Some (dlg_Link ivk)" "wf_store (rp_blks r)"
    and "em_Fork (om_Fx (rc_Ocm (rp_data r))) = (case fx of None \<Rightarrow> [] | Some f \<Rightarrow> map effect_Link (fx_Fork f))"
    and "em_Join (om_Fx (rc_Ocm (rp_data r))) = (case fx of None \<Rightarrow> None | Some f \<Rightarrow> effect_Link (fx_Join f))"
proof -
  note i = rcpt_issued [OF assms]
  show "rcpt_key r = Some (dlg_Link ivk)"
    using i(1) by (simp add: rcpt_key_def ran_Link_def ran_FromInvocation_def)
  show "wf_store (rp_blks r)" by (rule i(6))
  show "em_Fork (om_Fx (rc_Ocm (rp_data r))) = (case fx of None \<Rightarrow> [] | Some f \<Rightarrow> map effect_Link (fx_Fork f))"
    "em_Join (om_Fx (rc_Ocm (rp_data r))) = (case fx of None \<Rightarrow> None | Some f \<Rightarrow> effect_Link (fx_Join f))"
    using i(3,4) by (auto simp: fx_options_def receiptConfig0_def effect_Link_def effect0_def split: option.split)
qed

text \<open>What a receipt was issued from: the result and the effects.\<close>

definition issued_from :: "'s srvenv \<Rightarrow> 's server \<Rightarrow> delegation \<Rightarrow> outcome \<Rightarrow> effects option \<Rightarrow> receipt \<Rightarrow> bool" where
  "issued_from E srv ivk out fx r \<longleftrightarrow>
     rcpt_Issue (se_L E) (se_R E) (ps_signer (sv_id srv)) out (ran_FromInvocation (Some ivk)) (fx_options fx) = Ret (Inr r)"

lemma issue_failure_Ret:
  assumes "issue_failure E srv e ivk s = Ret (Inr r, s')"
  shows "s' = s \<and> (\<exists>n. server_error_ToIPLD (se_L E) (se_S E) e = Ret n \<and> issued_from E srv ivk (errResult n) None r)"
proof -
  have "(map_sum plain_error id x = Inr r) = (x = Inr r)" for x :: "err + receipt" by (cases x) auto
  then show ?thesis
    using assms by (auto simp: issue_failure_def srv_issue_def server_goerror_def NewFailure_def issued_from_def
        fx_options_def eq_commute [of "Inr r"])
qed

lemma execution_failed_Ret:
  assumes "execution_failed E srv cause cap ivk s = Ret (Inr r, s')"
  shows "sv_catch srv (HandlerExecutionError cause cap) s = Ret ((), s') \<and>
         (\<exists>n. server_error_ToIPLD (se_L E) (se_S E) (HandlerExecutionError cause cap) = Ret n \<and>
            issued_from E srv ivk (errResult n) None r)"
  using assms by (auto simp: execution_failed_def Let_def dest!: issue_failure_Ret)

text \<open>The errors a run can answer with, and the state it leaves.\<close>

inductive run_error :: "'s srvenv \<Rightarrow> 's server \<Rightarrow> delegation \<Rightarrow> 's \<Rightarrow> server_error \<Rightarrow> 's \<Rightarrow> bool" for E srv ivk s where
  many: "length (dlg_Capabilities ivk) \<noteq> 1 \<Longrightarrow> run_error E srv ivk s (InvocationCapabilityError (dlg_Capabilities ivk)) s"
| unknown: "dlg_Capabilities ivk = [cap] \<Longrightarrow> sv_service srv (cp_Can cap) = None \<Longrightarrow>
     run_error E srv ivk s (HandlerNotFoundError cap) s"
| handler: "dlg_Capabilities ivk = [cap] \<Longrightarrow> sv_service srv (cp_Can cap) = Some m \<Longrightarrow>
     m ivk (sv_context srv) s = Ret (Inl (cause, False), s1) \<Longrightarrow>
     sv_catch srv (HandlerExecutionError cause cap) s1 = Ret ((), s2) \<Longrightarrow>
     run_error E srv ivk s (HandlerExecutionError cause cap) s2"
| issue: "dlg_Capabilities ivk = [cap] \<Longrightarrow> sv_service srv (cp_Can cap) = Some m \<Longrightarrow>
     m ivk (sv_context srv) s = Ret (Inr (Some tx), s1) \<Longrightarrow>
     rcpt_Issue (se_L E) (se_R E) (ps_signer (sv_id srv)) (tx_Out tx) (ran_FromInvocation (Some ivk))
       (fx_options (tx_Fx tx)) = Ret (Inl e) \<Longrightarrow>
     sv_catch srv (HandlerExecutionError (plain_error e) cap) s1 = Ret ((), s2) \<Longrightarrow>
     run_error E srv ivk s (HandlerExecutionError (plain_error e) cap) s2"
| logging: "dlg_Capabilities ivk = [cap] \<Longrightarrow> sv_service srv (cp_Can cap) = Some m \<Longrightarrow>
     m ivk (sv_context srv) s = Ret (Inr (Some tx), s1) \<Longrightarrow> issued_from E srv ivk (tx_Out tx) (tx_Fx tx) r \<Longrightarrow>
     srv_LogReceipt srv r ivk s1 = Ret (Some cause, s2) \<Longrightarrow>
     sv_catch srv (HandlerExecutionError cause cap) s2 = Ret ((), s3) \<Longrightarrow>
     run_error E srv ivk s (HandlerExecutionError cause cap) s3"

inductive_simps run_error_iff: "run_error E srv ivk s e s'"

lemma run_receipt:
  assumes "srv_Run E srv ivk s = Ret (Inr r, s')"
  shows "(\<exists>e n. run_error E srv ivk s e s' \<and> server_error_ToIPLD (se_L E) (se_S E) e = Ret n \<and>
            issued_from E srv ivk (errResult n) None r) \<or>
         (\<exists>cap m tx s1. dlg_Capabilities ivk = [cap] \<and> sv_service srv (cp_Can cap) = Some m \<and>
            m ivk (sv_context srv) s = Ret (Inr (Some tx), s1) \<and>
            issued_from E srv ivk (tx_Out tx) (tx_Fx tx) r \<and> srv_LogReceipt srv r ivk s1 = Ret (None, s'))"
proof (cases "length (dlg_Capabilities ivk) = 1")
  case True
  then obtain cap where cap: "dlg_Capabilities ivk = [cap]" by (cases "dlg_Capabilities ivk") auto
  show ?thesis
  proof (cases "sv_service srv (cp_Can cap)")
    case None
    with assms cap show ?thesis by (auto simp: srv_Run_def Let_def dest!: issue_failure_Ret intro: unknown)
  next
    case (Some m)
    from assms cap Some obtain x s1 where x: "m ivk (sv_context srv) s = Ret (x, s1)"
      and rest: "(\<exists>cause. x = Inl (cause, False) \<and> execution_failed E srv cause cap ivk s1 = Ret (Inr r, s')) \<or>
        (\<exists>tx e. x = Inr (Some tx) \<and> srv_issue E srv (tx_Out tx) ivk (fx_options (tx_Fx tx)) s1 = Ret (Inl e, s1) \<and>
           execution_failed E srv (plain_error e) cap ivk s1 = Ret (Inr r, s')) \<or>
        (\<exists>tx r' cause s2. x = Inr (Some tx) \<and> issued_from E srv ivk (tx_Out tx) (tx_Fx tx) r' \<and>
           srv_LogReceipt srv r' ivk s1 = Ret (Some cause, s2) \<and>
           execution_failed E srv cause cap ivk s2 = Ret (Inr r, s')) \<or>
        (\<exists>tx. x = Inr (Some tx) \<and> issued_from E srv ivk (tx_Out tx) (tx_Fx tx) r \<and>
           srv_LogReceipt srv r ivk s1 = Ret (None, s'))"
      by (auto simp: srv_Run_def Let_def act_case srv_issue_def issued_from_def split: if_splits)
    then show ?thesis
      using cap Some
      by (auto simp: srv_issue_def split: option.splits dest!: execution_failed_Ret
          intro: handler [OF cap Some] issue [OF cap Some] logging [OF cap Some])
  qed
next
  case False
  with assms have "issue_failure E srv (InvocationCapabilityError (dlg_Capabilities ivk)) ivk s = Ret (Inr r, s')"
    by (simp add: srv_Run_def Let_def)
  then obtain n where "server_error_ToIPLD (se_L E) (se_S E) (InvocationCapabilityError (dlg_Capabilities ivk)) = Ret n"
    "issued_from E srv ivk (errResult n) None r" and s: "s' = s"
    using issue_failure_Ret by metis
  moreover have "run_error E srv ivk s (InvocationCapabilityError (dlg_Capabilities ivk)) s'"
    unfolding s by (rule many [OF False])
  ultimately show ?thesis by (intro disjI1 exI conjI)
qed

text \<open>
  C17. The receipt of a run: it is for the invocation, and verifies under any verifier of the server's
  signatures. It holds the result and the effects the method of the invocation's single capability
  answered with, when issuing and logging it went well; otherwise it holds, and no effects, the error
  saying that there is not one capability, that there is no method, or that the method, issuing or
  logging failed, and the error handler was given exactly that last kind.
\<close>

theorem run_answers:
  assumes "srv_Run E srv ivk s = Ret (Inr r, s')"
    and "\<And>m sig. sg_Sign (ps_signer (sv_id srv)) m = Ret sig \<Longrightarrow> vf_Verify vf m sig = Ret True"
  shows "rcpt_key r = Some (dlg_Link ivk) \<and> rcpt_VerifySignature (se_L E) (se_R E) r vf = Ret (Inr True) \<and>
         (\<exists>out fx res. node_result out res \<and> rcpt_Out r = Ret res \<and>
            em_Fork (om_Fx (rc_Ocm (rp_data r))) = (case fx of None \<Rightarrow> [] | Some f \<Rightarrow> map effect_Link (fx_Fork f)) \<and>
            em_Join (om_Fx (rc_Ocm (rp_data r))) = (case fx of None \<Rightarrow> None | Some f \<Rightarrow> effect_Link (fx_Join f)) \<and>
            ((\<exists>e n. run_error E srv ivk s e s' \<and> server_error_ToIPLD (se_L E) (se_S E) e = Ret n \<and>
                out = errResult n \<and> fx = None) \<or>
             (\<exists>cap m s1. dlg_Capabilities ivk = [cap] \<and> sv_service srv (cp_Can cap) = Some m \<and>
                m ivk (sv_context srv) s = Ret (Inr (Some \<lparr> tx_Out = out, tx_Fx = fx \<rparr>), s1) \<and>
                srv_LogReceipt srv r ivk s1 = Ret (None, s'))))"
proof -
  from run_receipt [OF assms(1)] obtain out fx where i: "issued_from E srv ivk out fx r"
    and c: "(\<exists>e n. run_error E srv ivk s e s' \<and> server_error_ToIPLD (se_L E) (se_S E) e = Ret n \<and>
          out = errResult n \<and> fx = None) \<or>
        (\<exists>cap m s1. dlg_Capabilities ivk = [cap] \<and> sv_service srv (cp_Can cap) = Some m \<and>
          m ivk (sv_context srv) s = Ret (Inr (Some \<lparr> tx_Out = out, tx_Fx = fx \<rparr>), s1) \<and>
          srv_LogReceipt srv r ivk s1 = Ret (None, s'))"
    by (elim disjE exE conjE) (metis, metis (full_types) transaction.surjective old.unit.exhaust)
  note i' = i [unfolded issued_from_def]
  obtain res where "node_result out res" "rcpt_Out r = Ret res" using rcpt_issued(2) [OF i'] by blast
  moreover have "rcpt_VerifySignature (se_L E) (se_R E) r vf = Ret (Inr True)"
    by (rule rcpt_issued(9) [OF i' assms(2) rebound_refl [OF refl]])
  ultimately show ?thesis using issued_by_run [OF i'] c by blast
qed

lemma run_all_Ret:
  "run_all (map f xs) s = Ret ((None, rcpts), s') \<Longrightarrow>
     list_all2 (\<lambda>x r. \<exists>s1 s2. f x s1 = Ret (Inr r, s2)) xs rcpts"
proof (induction xs arbitrary: s rcpts)
  case (Cons x xs)
  then show ?case by (auto simp: act_case)
qed simp

lemma run_issued:
  assumes "srv_Run E srv ivk s = Ret (Inr r, s')"
  shows "rcpt_key r = Some (dlg_Link ivk)" "wf_store (rp_blks r)" "br_Get (rp_blks r) (blk_link (rcpt_Root r)) \<noteq> None"
proof -
  obtain out fx where i: "issued_from E srv ivk out fx r" using run_receipt [OF assms] by blast
  note i' = i [unfolded issued_from_def]
  show "rcpt_key r = Some (dlg_Link ivk)" "wf_store (rp_blks r)" "br_Get (rp_blks r) (blk_link (rcpt_Root r)) \<noteq> None"
    by (rule issued_by_run(1) [OF i'], rule issued_by_run(2) [OF i'], rule rcpt_issued(7) [OF i'])
qed

lemma get_iterated: "wf_store s \<Longrightarrow> br_Get s l = Some b \<Longrightarrow> Inr b \<in> set (br_Iterator s) \<and> blk_link b = l"
  by (force simp: wf_store_def br_Get_def br_Iterator_def)

lemma execute_outcome:
  assumes "\<And>invs. mset (order invs) = mset invs" and "srv_Execute E order srv msg s = Ret (Inr m, s')"
  obtains invs where "srv_invocations (se_L E) (se_U E) msg = Inr invs" "msg_Invocations m = []"
    "length (msg_Receipts m) = length (msg_Invocations msg)"
    "\<And>l. l \<in> set (msg_Invocations msg) \<Longrightarrow> \<exists>ivk r s1 s2. ivk \<in> set invs \<and> dlg_Link ivk = l \<and>
            srv_Run E srv ivk s1 = Ret (Inr r, s2) \<and> rcpt_key r = Some l \<and>
            msg_Get m l = Some (Some (blk_link (rcpt_Root r))) \<and> br_Get (ms_blks m) (blk_link (rcpt_Root r)) \<noteq> None"
    "\<And>l. l \<notin> set (msg_Invocations msg) \<Longrightarrow> msg_Get m l = None"
proof -
  obtain invs rcpts s1 where i: "srv_invocations (se_L E) (se_U E) msg = Inr invs"
    and r: "run_all (map (srv_Run E srv) (order invs)) s = Ret ((None, rcpts), s1)"
    and b: "msg_Build (se_L E) (se_U E) (se_C E) [] rcpts = Ret (Inr m)"
  proof -
    have "(map_sum plain_error id x = Inr m) = (x = Inr m)" for x :: "err + message" by (cases x) auto
    then show thesis using assms(2) that
      by (auto simp: srv_Execute_def act_case eq_commute [of "Inr m"])
  qed
  have links: "msg_Invocations msg = map dlg_Link invs" by (rule srv_invocations_link [OF i])
  note runs = run_all_Ret [OF r]
  have perm: "set (order invs) = set invs" "length (order invs) = length invs"
    using assms(1) by (metis set_mset_mset, metis size_mset)
  have run: "\<exists>ivk s1 s2. ivk \<in> set invs \<and> srv_Run E srv ivk s1 = Ret (Inr r, s2)" if "r \<in> set rcpts" for r
    unfolding perm(1) [symmetric] using runs that by (induction rule: list_all2_induct) auto
  have "\<forall>r \<in> set rcpts. wf_store (rp_blks r)"
  proof
    fix r assume "r \<in> set rcpts"
    from run [OF this] show "wf_store (rp_blks r)" by (elim exE conjE) (rule run_issued(2))
  qed
  note built = build_contents [OF b this]
  have keys: "Some ` dlg_Link ` set invs = rcpt_key ` set rcpts"
  proof -
    have "map (Some \<circ> dlg_Link) (order invs) = map rcpt_key rcpts"
      using runs by (induction rule: list_all2_induct) (auto simp: run_issued(1))
    then show ?thesis by (metis perm(1) image_comp set_map)
  qed
  have "length (msg_Receipts m) = length rcpts" using built by (metis length_map)
  moreover have "length rcpts = length (order invs)" using runs by (simp add: list_all2_lengthD)
  moreover have "msg_Get m l = None" if "l \<notin> set (msg_Invocations msg)" for l
  proof -
    have "Some l \<notin> rcpt_key ` set rcpts" using that links keys by (metis image_iff list.set_map option.inject)
    then have "find (\<lambda>r. rcpt_key r = Some l) rcpts = None" by (force simp: find_None_iff)
    then show ?thesis using built by simp
  qed
  moreover have "\<exists>ivk r s1 s2. ivk \<in> set invs \<and> dlg_Link ivk = l \<and> srv_Run E srv ivk s1 = Ret (Inr r, s2) \<and> rcpt_key r = Some l \<and>
      msg_Get m l = Some (Some (blk_link (rcpt_Root r))) \<and> br_Get (ms_blks m) (blk_link (rcpt_Root r)) \<noteq> None"
    if "l \<in> set (msg_Invocations msg)" for l
  proof -
    have "Some l \<in> rcpt_key ` set rcpts" using that links keys by auto
    then obtain r where f: "find (\<lambda>r. rcpt_key r = Some l) rcpts = Some r"
      by (cases "find (\<lambda>r. rcpt_key r = Some l) rcpts") (force simp: find_None_iff)+
    then have r: "r \<in> set rcpts" "rcpt_key r = Some l" by (auto simp: find_Some_iff)
    obtain ivk s1 s2 where ivk: "ivk \<in> set invs" and run: "srv_Run E srv ivk s1 = Ret (Inr r, s2)" using run r(1) by blast
    obtain blk where "Inr blk \<in> set (rcpt_Blocks r)" "blk_link blk = blk_link (rcpt_Root r)"
      using run_issued(2,3) [OF run] get_iterated unfolding rcpt_Blocks_def by blast
    then have "br_Get (ms_blks m) (blk_link (rcpt_Root r)) \<noteq> None" using built r(1) by metis
    moreover have "msg_Get m l = Some (Some (blk_link (rcpt_Root r)))" using built f by simp
    ultimately show ?thesis using ivk run run_issued(1) [OF run] r(2) by auto
  qed
  ultimately show thesis using that [OF i] built links perm(2) by auto
qed

text \<open>
  C18. Executing a message: whatever order the goroutines finish in, when it gives a message that message
  lists no invocations and one receipt per invocation asked for; for each of their links it gives the
  root, whose block it holds, of a receipt that running an invocation with that link gave; and it gives
  receipts for no other links.
\<close>

theorem execute_answers:
  assumes "\<And>invs. mset (order invs) = mset invs" and "srv_Execute E order srv msg s = Ret (Inr m, s')"
  shows "msg_Invocations m = [] \<and> length (msg_Receipts m) = length (msg_Invocations msg) \<and>
         (\<forall>l \<in> set (msg_Invocations msg). \<exists>ivk r s1 s2. dlg_Link ivk = l \<and>
            srv_Run E srv ivk s1 = Ret (Inr r, s2) \<and> rcpt_key r = Some l \<and>
            msg_Get m l = Some (Some (blk_link (rcpt_Root r))) \<and> br_Get (ms_blks m) (blk_link (rcpt_Root r)) \<noteq> None) \<and>
         (\<forall>l. l \<notin> set (msg_Invocations msg) \<longrightarrow> msg_Get m l = None)"
proof -
  obtain invs where "msg_Invocations m = []" "length (msg_Receipts m) = length (msg_Invocations msg)"
    "\<And>l. l \<in> set (msg_Invocations msg) \<Longrightarrow> \<exists>ivk r s1 s2. ivk \<in> set invs \<and> dlg_Link ivk = l \<and>
            srv_Run E srv ivk s1 = Ret (Inr r, s2) \<and> rcpt_key r = Some l \<and>
            msg_Get m l = Some (Some (blk_link (rcpt_Root r))) \<and> br_Get (ms_blks m) (blk_link (rcpt_Root r)) \<noteq> None"
    "\<And>l. l \<notin> set (msg_Invocations msg) \<Longrightarrow> msg_Get m l = None"
    using execute_outcome [OF assms] by metis
  then show ?thesis by blast
qed

section \<open>A served request, for the witnesses\<close>

text \<open>The owner's own invocation is authorized in the default context.\<close>

definition owned_context :: "claim_context \<Rightarrow> bool" where
  "owned_context C \<longleftrightarrow>
     vf_DID (cc_authority C) = did0 ''s'' \<and> cc_authority C = verifier0 (did0 ''s'') \<and>
     cc_canIssue C = IsSelfIssued lib0 \<and> cc_validateAuthorization C = (\<lambda>a. Ret None) \<and>
     cc_validateTimeBounds C = NotExpiredNotTooEarly 1000"

definition owner_ucan :: "ucan_model \<Rightarrow> bool" where
  "owner_ucan v \<longleftrightarrow>
     ucan_VerifySignature lib0 ucanlib0 v (verifier0 (did0 ''s'')) = Ret (Inr True) \<and>
     ucan_Issuer lib0 v = did0 ''s'' \<and> ucan_Audience lib0 v = did0 ''s'' \<and>
     ucan_Capabilities v = [Ucan.NewCapability ''store/add'' ''did:web:s'' (GNode (NMap []))] \<and>
     um_Prf v = [] \<and> um_Exp v = None \<and> um_Nbf v = None"

lemma owner_ucan0: obtains v where "owner_ucan v"
  using issued0 [of "''s''" "''s''" "''store/add''" "''did:web:s''" "[]"] by (auto simp: owner_ucan_def)

definition venv1 :: "ucan_model \<Rightarrow> venv" where
  "venv1 v = \<lparr> ve_L = lib0, ve_U = ucanlib0\<lparr> ul_cbor := table_codec 113 [(''u'', v)] \<rparr>, ve_order = rev \<rparr>"

lemma owner_access:
  assumes "owner_ucan (dl_ucan i)" "owned_context C"
  obtains a where "Access 1 (venv1 v) C ds0 i = Ret (Inr a)"
proof -
  note v = assms(1) [unfolded owner_ucan_def] and c = assms(2) [unfolded owned_context_def]
  have val: "Validate f (venv1 v) C i prfs = Ret (Inr (i, None))" for f prfs
    using v c by (simp add: Validate_def NotExpiredNotTooEarly_def IsExpired_def IsTooEarly_def ucan_Expiration_def
        ucan_NotBefore_def VerifyAuthorization_def venv1_def dlg_Issuer_def string_did0 HasPrefix_def
        v_VerifySignature_def Let_def verifier0_def)
  have rp: "ResolveProofs (cc_resolveProof C) [PDelegation i] = ([i], [])" by (simp add: proof_Delegation_def)
  let ?c = "Ucan.NewCapability ''store/add'' ''did:web:s'' (GNode (NMap []))"
  let ?m = "NewMatch (NewSource ?c i) ?c ds0"
  have sel: "cap_Select ds0 (map (\<lambda>c. NewSource c i) (dlg_Capabilities i)) = Ret ([?m], [], [])"
    using v by (simp add: cap_Select_def select_source_def cap_Match_def ParseCapability_def
        Let_def Ucan.NewCapability_def ds0_def NewCapabilityParser_def anywith_def anynb_def dlg_Capabilities_def)
  have can: "match_Prune lib0 (canissuer_CanIssue C) ?m = Ret None"
    using v c by (simp add: match_Prune_def canissuer_CanIssue_def Ucan.NewCapability_def IsSelfIssued_def
        dlg_Issuer_def string_did0)
  have L: "ve_L (venv1 v) = lib0" by (simp add: venv1_def)
  have "Access 1 (venv1 v) C ds0 i = Ret (Inr (Authorization ?m [] []))"
    using c by (simp add: Access_def Claim_body_def rp val sel can attestations_of_def List.map_filter_def
        L NewAuthorization_def Let_def del: ResolveProofs.simps)
  then show thesis by (rule that)
qed

definition const_codec :: "bytes \<Rightarrow> 'v \<Rightarrow> 'v codec" where
  "const_codec b v = \<lparr> cd_Code = 113, cd_Encode = (\<lambda>_. Inr b), cd_Decode = (\<lambda>_. Inr v) \<rparr>"

definition data1 :: data_model where
  "data1 = \<lparr> dm_Execute = [blk_link (blk2 ''u'')], dm_Report = None \<rparr>"

definition env1 :: "ucan_model \<Rightarrow> nat srvenv" where
  "env1 v = \<lparr> se_V = venv1 v, se_K = car0,
     se_R = \<lparr> rl_outcome = (\<lambda>_. Inr ''ocm''), rl_receipt = const_codec ''r'' undefined,
              rl_archive = const_codec ''a'' [], rl_wrap = (\<lambda>_. Inl ''unsupported'') \<rparr>,
     se_C = const_codec ''m'' data1,
     se_S = \<lparr> sl_execution = (\<lambda>_. Inr NNull), sl_capability = (\<lambda>_. Inr NNull), sl_notfound = (\<lambda>_. Inr NNull),
              sl_audience = (\<lambda>_. Inr NNull), sl_stack = [] \<rparr>,
     se_F = \<lparr> fl_marshal = (\<lambda>_. Inr []), fl_print = (\<lambda>_. []), fl_time = (\<lambda>_. []) \<rparr>,
     se_fuel = 1, se_now = 1000, se_stderr = (\<lambda>_. sret ()) \<rparr>"

text \<open>A handler that counts its calls.\<close>

definition handler1 :: "nat srv_handler" where
  "handler1 cap ivk ctx n = Ret (Inr (okResult (Inr (NString ''ok'')), None), n + 1)"

definition signer1 :: principal_signer where
  "signer1 = \<lparr> ps_signer = signer0 (did0 ''s''), ps_verifier = verifier0 (did0 ''s'') \<rparr>"

definition store1 :: blockreader where
  "store1 = foldl bs_Put br_empty [blk2 ''m'', blk2 ''u'']"

definition msg1 :: message where
  "msg1 = \<lparr> ms_root = blk2 ''m'', ms_data = data1, ms_blks = store1, ms_store = True,
            ms_invs = Map.empty, ms_rcpts = Map.empty \<rparr>"

definition ivk1 :: "ucan_model \<Rightarrow> delegation" where
  "ivk1 v = \<lparr> dl_rt = blk2 ''u'', dl_blks = store1, dl_atch = br_empty, dl_ucan = v \<rparr>"

lemma store1_facts:
  "wf_store store1" "br_Iterator store1 = map Inr [blk2 ''m'', blk2 ''u'']"
  "br_Get store1 (blk_link (blk2 ''m'')) = Some (blk2 ''m'')" "br_Get store1 (blk_link (blk2 ''u'')) = Some (blk2 ''u'')"
proof -
  have d: "blk_link (blk2 ''m'') \<noteq> blk_link (blk2 ''u'')" by (rule blk2_distinct) simp
  then have "distinct (map blk_link [blk2 ''m'', blk2 ''u''])" by simp
  with store.contents(2) [of "[blk2 ''m'', blk2 ''u'']"] first_per_link_distinct
  show "br_Iterator store1 = map Inr [blk2 ''m'', blk2 ''u'']" by (simp add: store1_def)
  show "wf_store store1" unfolding store1_def by (rule store.inv_puts [OF store.inv_empty])
  show "br_Get store1 (blk_link (blk2 ''m'')) = Some (blk2 ''m'')" "br_Get store1 (blk_link (blk2 ''u'')) = Some (blk2 ''u'')"
    using d by (simp_all add: store1_def store.get_put store.inv_put store.inv_empty store.get_empty)
qed

lemma const_block: "block_Encode lib0 (const_codec b v) x = Inr (blk2 b)" "block_Decode lib0 (const_codec b v) (blk2 b) = Inr v"
  by (simp_all add: block_Encode_def block_Decode_def const_codec_def blk2_def NewBlock_def)

lemma block_u:
  "block_Encode lib0 (table_codec 113 [(''u'', v)]) v = Inr (blk2 ''u'')"
  "block_Decode lib0 (table_codec 113 [(''u'', v)]) (blk2 ''u'') = Inr v"
  by (simp_all add: block_Encode_def block_Decode_def table_codec_def blk2_def NewBlock_def)

lemma sendable1: "car_sendable lib0 car0 (const_codec ''m'' data1) msg1"
proof -
  have "car_intact car0 (blk2 ''m'')" "car_intact car0 (blk2 ''u'')"
    using encoded_car_intact [OF const_block(1)] encoded_car_intact [OF block_u(1)] by blast+
  then show ?thesis
    by (auto simp: car_sendable_def car0_ok sendable_def msg1_def store1_facts const_block)
qed

lemma invocations1:
  assumes "same_message msg1 m"
  shows "srv_invocations lib0 (ucanlib0\<lparr> ul_cbor := table_codec 113 [(''u'', v)] \<rparr>) m = Inr [ivk1 v]"
proof -
  have "NewBlockReader [] (br_Iterator store1) = Inr store1"
    using reader_of_store [OF store1_facts(1), of "[]"] by simp
  then show ?thesis
    using same_message_reads [OF assms] store1_facts(4) block_u(2) [of v]
    by (simp add: srv_invocations_def msg_Blocks_def msg_Invocations_def msg1_def data1_def NewInvocationView_def
        NewDelegationView_def NewDelegation_def NewBlockStore_def dlg_decode_def NewUCAN_def ivk1_def)
qed

definition srv1 :: "ucan_model \<Rightarrow> nat server" where
  "srv1 v = (case NewServer (env1 v) signer1 (provide_options (env1 v) [(''store/add'', ds0, handler1)]) of Inr srv \<Rightarrow> srv)"

lemma srv1:
  shows "NewServer (env1 v) signer1 (provide_options (env1 v) [(''store/add'', ds0, handler1)]) = Inr (srv1 v)"
    and "sv_id (srv1 v) = signer1" and "sv_codec (srv1 v) = car_inbound lib0 car0 (const_codec ''m'' data1)"
    and "srv_LogReceipt (srv1 v) r i = sret None" and "quiet (\<lambda>n. n) (srv1 v)"
    and "sv_service (srv1 v) ''store/add'' = Some (service_method_of (Provide (env1 v) ds0 handler1))"
    and "owned_context (fst (provider_context (sv_context (srv1 v)) ds0))"
    and "cx_id (sv_context (srv1 v)) = signer1" "cx_altAudiences (sv_context (srv1 v)) = []"
  by (auto simp: srv1_def NewServer_def provide_options_def WithServiceMethod_def srvConfig0_def Let_def
      or_default_def env1_def venv1_def srv_LogReceipt_def quiet_def stderr_catch_def provider_context_def
      NewValidationContext_def NewClaimContext_def owned_context_def signer1_def ps_DID_def verifier0_def)

lemma provided_owner:
  assumes "owner_ucan v" "se_V E = venv1 v" "se_fuel E = 1" "cx_id ctx = signer1" "cx_altAudiences ctx = []"
    and "owned_context (fst (provider_context ctx ds0))"
    and "\<And>cap. h cap (ivk1 v) ctx s = Ret (Inr (okResult (Inr (NString ''ok'')), None), s')"
  shows "Provide E ds0 h (ivk1 v) ctx s = Ret (Inr (Some \<lparr> tx_Out = okResult (Inr (NString ''ok'')), tx_Fx = None \<rparr>), s')"
proof -
  obtain a where a: "Access 1 (venv1 v) (fst (provider_context ctx ds0)) ds0 (ivk1 v) = Ret (Inr a)"
    using owner_access [of "ivk1 v", OF _ assms(6), of v] assms(1) by (auto simp: ivk1_def)
  obtain C where C: "provider_context ctx ds0 = (C, ds0)"
    using provider_context_snd [of ctx ds0] by (cases "provider_context ctx ds0") auto
  have acc: "accepted_audiences lib0 ctx = Ret (Literal ''did:web:s'')"
    by (simp add: accepted_audiences_def assms(4,5) signer1_def ps_DID_def signer0_def string_did0)
  have aud: "did_String lib0 (dlg_Audience lib0 (ivk1 v)) = Ret ''did:web:s''"
    using assms(1) by (simp add: owner_ucan_def dlg_Audience_def ivk1_def string_did0)
  have L: "ve_L (venv1 v) = lib0" by (simp add: venv1_def)
  show ?thesis
    using a C by (simp add: Provide_def assms(2,3,7) L acc aud Literal_def NewTransaction_def
      sbind_def sret_def Let_def)
qed

lemma provided1:
  assumes "owner_ucan v"
  shows "Provide (env1 v) ds0 handler1 (ivk1 v) (sv_context (srv1 v)) n =
    Ret (Inr (Some \<lparr> tx_Out = okResult (Inr (NString ''ok'')), tx_Fx = None \<rparr>), n + 1)"
  by (rule provided_owner [OF assms]) (simp_all add: env1_def handler1_def srv1)

lemma issue1:
  obtains r where "rcpt_Issue lib0 (se_R (env1 v)) (signer0 (did0 ''s'')) (okResult (Inr n))
    (ran_FromInvocation (Some (ivk1 v))) [] = Ret (Inr r)"
proof -
  have "dlg_Blocks (ivk1 v) = map Inr [blk2 ''m'', blk2 ''u'']"
    using store1_facts(2) by (simp add: dlg_Blocks_def ivk1_def iter_Concat2_def store.iter_empty)
  then have w: "bs_WriteInto (dlg_Blocks (ivk1 v)) br_empty = Ret (foldl bs_Put br_empty [blk2 ''m'', blk2 ''u''])"
    unfolding WriteInto_Ret by blast
  obtain sig where sig: "sg_Sign (signer0 (did0 ''s'')) ''ocm'' = Ret sig" using signer0_signs by blast
  have "\<exists>r. rcpt_Issue lib0 (se_R (env1 v)) (signer0 (did0 ''s'')) (okResult (Inr n))
      (ran_FromInvocation (Some (ivk1 v))) [] = Ret (Inr r)"
    using w sig
    by (simp add: const_block rcpt_Issue_def NewBlockStore_def ran_WriteInto_def ran_Invocation_def ran_FromInvocation_def
        receiptConfig0_def join_WriteInto_def issue_meta_def MapResultR1_def MatchResultR2_def node_or_nil_def
        toResultModel_def MatchResultR1_def string_did0 signer0_def env1_def Let_def)
  then show thesis using that by blast
qed

lemma run1:
  assumes "owner_ucan v"
  obtains r where "srv_Run (env1 v) (srv1 v) (ivk1 v) n = Ret (Inr r, n + 1)"
proof -
  obtain r where r: "rcpt_Issue lib0 (se_R (env1 v)) (signer0 (did0 ''s'')) (okResult (Inr (NString ''ok'')))
      (ran_FromInvocation (Some (ivk1 v))) [] = Ret (Inr r)"
    by (rule issue1)
  have p: "Provide (env1 v) ds0 handler1 (ivk1 v) (sv_context (srv1 v)) n =
      Ret (Inr (Some \<lparr> tx_Out = okResult (Inr (NString ''ok'')), tx_Fx = None \<rparr>), n + 1)"
    by (rule provided1 [OF assms])
  have "service_method_of (Provide (env1 v) ds0 handler1) (ivk1 v) (sv_context (srv1 v)) n =
      Ret (Inr (Some \<lparr> tx_Out = okResult (Inr (NString ''ok'')), tx_Fx = None \<rparr>), n + 1)"
    by (simp add: service_method_of_def p NewTransaction_def sbind_def sret_def)
  moreover have "dlg_Capabilities (ivk1 v) = [Ucan.NewCapability ''store/add'' ''did:web:s'' (GNode (NMap []))]"
    using assms by (simp add: dlg_Capabilities_def ivk1_def owner_ucan_def)
  moreover have "srv_issue (env1 v) (srv1 v) (okResult (Inr (NString ''ok''))) (ivk1 v) (fx_options None) (n + 1) =
      Ret (Inr r, n + 1)"
    using r by (simp add: srv_issue_def fx_options_def srv1(2) signer1_def) (simp add: env1_def venv1_def)
  ultimately have "srv_Run (env1 v) (srv1 v) (ivk1 v) n = Ret (Inr r, n + 1)"
    by (simp add: srv_Run_def Let_def Ucan.NewCapability_def srv1(4,6) sbind_def)
  then show thesis by (rule that)
qed

lemma built1:
  assumes "wf_store (rp_blks r)" "rcpt_key r = Some l"
  obtains m where "msg_Build lib0 U (const_codec b x) [] [r] = Ret (Inr m)"
proof -
  obtain bs where it: "rcpt_Blocks r = map Inr bs"
    using store_blocks [OF assms(1)] unfolding rcpt_Blocks_def by metis
  have "om_Ran (rc_Ocm (rp_data r)) = Some l" using assms(2) by (simp add: rcpt_key_def)
  then obtain rn where rn: "rcpt_Ran lib0 U r = Ret rn" by (simp add: rcpt_Ran_def)
  have "ran_Link rn = Some l" using rcpt_Ran_link(1) [OF rn assms(1)] assms(2) by simp
  then have "\<exists>m. msg_Build lib0 U (const_codec b x) [] [r] = Ret (Inr m)"
    using it rn by (simp add: const_block msg_Build_def NewBlockStore_def WriteInto_ok Let_def)
  then show thesis using that by blast
qed

lemma handled1:
  assumes "owner_ucan v"
  obtains m' m res where "ac_Decode (car_accept lib0 car0 (const_codec ''m'' data1)) (carreq_Encode car0 msg1) = Ret (Inr m')"
    "same_message msg1 m'" "srv_Execute (env1 v) (\<lambda>is. is) (srv1 v) m' n = Ret (Inr m, n + 1)"
    "srv_Handle (env1 v) (\<lambda>is. is) (srv1 v) (carreq_Encode car0 msg1) n = Ret (Inr res, n + 1)"
proof -
  let ?C = "const_codec ''m'' data1" and ?U = "ucanlib0\<lparr> ul_cbor := table_codec 113 [(''u'', v)] \<rparr>"
  obtain m' where m': "carreq_Decode lib0 car0 ?C (carreq_Encode car0 msg1) = Ret (Inr m')" "same_message msg1 m'"
    using car_request.carried [OF sendable1 refl] by blast
  obtain r where r: "srv_Run (env1 v) (srv1 v) (ivk1 v) n = Ret (Inr r, n + 1)" by (rule run1 [OF assms])
  obtain m where m: "msg_Build lib0 ?U ?C [] [r] = Ret (Inr m)" by (rule built1 [OF run_issued(2,1) [OF r]])
  have E: "ve_L (se_V (env1 v)) = lib0" "ve_U (se_V (env1 v)) = ?U" "se_C (env1 v) = ?C"
    by (simp_all add: env1_def venv1_def)
  have ex: "srv_Execute (env1 v) (\<lambda>is. is) (srv1 v) m' n = Ret (Inr m, n + 1)"
    by (simp add: srv_Execute_def E invocations1 [OF m'(2)] r m sbind_def sret_def slift_def)
  have "car_inbound lib0 car0 ?C (carreq_Encode car0 msg1) = Inr (car_accept lib0 car0 ?C)"
    by (rule car_request_accepted)
  then have "\<exists>res. srv_Handle (env1 v) (\<lambda>is. is) (srv1 v) (carreq_Encode car0 msg1) n = Ret (Inr res, n + 1)"
    using m'(1) ex srv1(3) [of v] by (simp add: srv_Handle_def car_accept_def sbind_def sret_def slift_def)
  then show thesis using that m' ex by (auto simp: car_accept_def)
qed

lemma order_ok1: "order_ok (se_V (env1 v))"
  by (simp add: order_ok_def env1_def venv1_def)

theorem request_changes_authorised_witness:
  "\<exists>v res ivk a. NewServer (env1 v) signer1 (provide_options (env1 v) [(''store/add'', ds0, handler1)]) = Inr (srv1 v) \<and>
     srv_Handle (env1 v) (\<lambda>is. is) (srv1 v) (carreq_Encode car0 msg1) 0 = Ret (Inr res, 1) \<and>
     auth_dlg a = ivk \<and> audience_accepted lib0 (sv_context (srv1 v)) ivk \<and>
     issued_by_owner (se_V (env1 v)) (fst (provider_context (sv_context (srv1 v)) ds0)) (last (auth_chain a))"
proof -
  obtain v where v: "owner_ucan v" by (rule owner_ucan0)
  obtain res where res: "srv_Handle (env1 v) (\<lambda>is. is) (srv1 v) (carreq_Encode car0 msg1) 0 = Ret (Inr res, 0 + 1)"
    by (rule handled1 [OF v])
  have n: "NewServer (env1 v) signer1 ([] @ provide_options (env1 v) [(''store/add'', ds0, handler1)]) = Inr (srv1 v)"
    using srv1(1) [of v] by simp
  have L: "ve_L (se_V (env1 v)) = lib0" by (simp add: env1_def venv1_def)
  obtain ivk a where "audience_accepted lib0 (sv_context (srv1 v)) ivk" "auth_dlg a = ivk"
    "issued_by_owner (se_V (env1 v)) (fst (provider_context (sv_context (srv1 v)) ds0)) (last (auth_chain a))"
    using request_changes_authorised [OF order_ok1 refl n _ srv1(5) res] unfolding Let_def L by force
  with srv1(1) [of v] res show ?thesis by (intro exI [of _ v] exI [of _ res] exI [of _ ivk] exI [of _ a]) simp
qed

theorem run_answers_witness:
  "\<exists>v r. srv_Run (env1 v) (srv1 v) (ivk1 v) 0 = Ret (Inr r, 1) \<and> rcpt_key r = Some (dlg_Link (ivk1 v)) \<and>
     rcpt_VerifySignature lib0 (se_R (env1 v)) r (verifier0 (did0 ''s'')) = Ret (Inr True)"
proof -
  obtain v where v: "owner_ucan v" by (rule owner_ucan0)
  obtain r where r: "srv_Run (env1 v) (srv1 v) (ivk1 v) 0 = Ret (Inr r, 0 + 1)" by (rule run1 [OF v])
  have "vf_Verify (verifier0 (did0 ''s'')) m sig = Ret True"
    if "sg_Sign (ps_signer (sv_id (srv1 v))) m = Ret sig" for m sig
    using that signer0_verifier0 by (simp add: srv1(2) signer1_def)
  from run_answers [OF r this]
  have "rcpt_key r = Some (dlg_Link (ivk1 v))" "rcpt_VerifySignature lib0 (se_R (env1 v)) r (verifier0 (did0 ''s'')) = Ret (Inr True)"
    by (auto simp: env1_def venv1_def)
  with r show ?thesis by (intro exI [of _ v] exI [of _ r] conjI) auto
qed

theorem execute_answers_witness:
  "\<exists>v msg m r. srv_Execute (env1 v) (\<lambda>is. is) (srv1 v) msg 0 = Ret (Inr m, 1) \<and>
     msg_Invocations msg = [blk_link (blk2 ''u'')] \<and> length (msg_Receipts m) = 1 \<and>
     msg_Get m (blk_link (blk2 ''u'')) = Some (Some (blk_link (rcpt_Root r)))"
proof -
  obtain v where v: "owner_ucan v" by (rule owner_ucan0)
  obtain msg m where same: "same_message msg1 msg"
    and ex: "srv_Execute (env1 v) (\<lambda>is. is) (srv1 v) msg 0 = Ret (Inr m, 0 + 1)"
    by (rule handled1 [OF v])
  have inv: "msg_Invocations msg = [blk_link (blk2 ''u'')]"
    using same_message_reads(3) [OF same] by (simp add: msg_Invocations_def msg1_def data1_def)
  from execute_answers [OF refl ex] inv obtain r where "length (msg_Receipts m) = 1"
    "msg_Get m (blk_link (blk2 ''u'')) = Some (Some (blk_link (rcpt_Root r)))" by auto
  with inv ex show ?thesis by (intro exI [of _ v] exI [of _ msg] exI [of _ m] exI [of _ r]) simp
qed

end
