(* ===== verification/Retrieval.thy ===== *)
theory Retrieval
  imports Server
begin

text \<open>
  server/retrieval: the server whose invocations travel in a header, in several requests when the proofs
  are too big, with a cache of the delegations sent before. The locale \<open>delegation_store\<close> is the contract
  of the cache; it is interpreted on the in-memory cache over the LRU of hashicorp/golang-lru.
\<close>

section \<open>Delegation stores\<close>

record 's dlg_store =
  ds_Put :: "delegation \<Rightarrow> ('s, err option) act"
  ds_Get :: "link \<Rightarrow> ('s, err + delegation option) act"

text \<open>The LRU: a new one of a size, adding a value at a key, and getting the value at a key, which makes it recent.\<close>

record 'c lrulib =
  lr_New :: "int \<Rightarrow> err + 'c"
  lr_Add :: "string \<Rightarrow> delegation \<Rightarrow> 'c \<Rightarrow> 'c"
  lr_Get :: "string \<Rightarrow> 'c \<Rightarrow> delegation option \<times> 'c"

definition MemoryDelegationCacheSize :: int where "MemoryDelegationCacheSize = 100"

definition mem_Get :: "'c lrulib \<Rightarrow> link \<Rightarrow> ('c \<times> 'w, err + delegation option) act" where
  "mem_Get U root s = (let (d, c) = lr_Get U root (fst s) in Ret (Inr d, (c, snd s)))"

definition mem_Put :: "'c lrulib \<Rightarrow> delegation \<Rightarrow> ('c \<times> 'w, err option) act" where
  "mem_Put U d s = Ret (None, (lr_Add U (dlg_Link d) d (fst s), snd s))"

definition MemoryDelegationCache :: "'c lrulib \<Rightarrow> ('c \<times> 'w) dlg_store" where
  "MemoryDelegationCache U = \<lparr> ds_Put = mem_Put U, ds_Get = mem_Get U \<rparr>"

definition NewMemoryDelegationCache :: "'c lrulib \<Rightarrow> int \<Rightarrow> err + 'c" where
  "NewMemoryDelegationCache U sz =
     (let sz = (if sz \<le> 0 then MemoryDelegationCacheSize else sz)
      in case lr_New U sz of
           Inl e \<Rightarrow> Inl (''creating delegation LRU: '' @ e)
         | Inr cache \<Rightarrow> Inr cache)"

section \<open>Errors\<close>

record count_error_model =
  ic_Name :: string
  ic_Message :: string

record missing_proofs_model =
  mp_Name :: string
  mp_Message :: string
  mp_Proofs :: "link list"

text \<open>Wrapping the models as nodes, and the DAG-JSON encoding of a node.\<close>

record retlib =
  rl_count :: "count_error_model \<Rightarrow> err + node"
  rl_missing :: "missing_proofs_model \<Rightarrow> err + node"
  rl_dagjson :: "node \<Rightarrow> err + bytes"

definition count_error_Error :: string where
  "count_error_Error = ''Agent Message is required to have a single invocation.''"

definition count_error_Name :: string where
  "count_error_Name = ''AgentMessageInvocationError''"

definition count_error_ToIPLD :: "retlib \<Rightarrow> err + node" where
  "count_error_ToIPLD T = rl_count T \<lparr> ic_Name = count_error_Name, ic_Message = count_error_Error \<rparr>"

definition AgentMessageInvocationCountError :: "retlib \<Rightarrow> goerror" where
  "AgentMessageInvocationCountError T =
     \<lparr> ge_Error = count_error_Error, ge_Name = Some count_error_Name, ge_Stack = None,
       ge_ToIPLD = Some (count_error_ToIPLD T) \<rparr>"

definition MissingProofs_Error :: string where
  "MissingProofs_Error = ''proofs were missing, resubmit the invocation with the requested proofs''"

definition MissingProofs_Name :: string where
  "MissingProofs_Name = ''MissingProofs''"

definition missing_proofs_model_of :: "link list \<Rightarrow> missing_proofs_model" where
  "missing_proofs_model_of proofs =
     \<lparr> mp_Name = MissingProofs_Name, mp_Message = MissingProofs_Error, mp_Proofs = proofs \<rparr>"

definition MissingProofs_ToIPLD :: "retlib \<Rightarrow> link list \<Rightarrow> err + node" where
  "MissingProofs_ToIPLD T proofs = rl_missing T (missing_proofs_model_of proofs)"

section \<open>Requests and responses\<close>

record ret_request =
  rq_URL :: "string option"
  rq_Headers :: header

record ret_response =
  rr_Status :: nat
  rr_Headers :: "header option"
  rr_Body :: "stream option"

definition NewResponse :: "nat \<Rightarrow> header option \<Rightarrow> stream option \<Rightarrow> ret_response" where
  "NewResponse status headers body = \<lparr> rr_Status = status, rr_Headers = headers, rr_Body = body \<rparr>"

definition no_response :: ret_response where
  "no_response = \<lparr> rr_Status = 0, rr_Headers = None, rr_Body = None \<rparr>"

section \<open>The server and its options\<close>

text \<open>A method answers with a response as well, also when it fails.\<close>

type_synonym 's ret_method =
  "delegation \<Rightarrow> server_context \<Rightarrow> ret_request \<Rightarrow> ('s, ((goerror \<times> bool) + transaction option) \<times> ret_response) act"

type_synonym 's ret_handler =
  "gany capability \<Rightarrow> delegation \<Rightarrow> server_context \<Rightarrow> ret_request \<Rightarrow>
     ('s, ((goerror \<times> bool) + outcome \<times> effects option) \<times> ret_response) act"

record 's ret_config =
  rg_service :: "string \<rightharpoonup> 's ret_method"
  rg_validateAuthorization :: "(authorization \<Rightarrow> delegation option comp) option"
  rg_canIssue :: "can_issue option"
  rg_resolveProof :: "(link \<Rightarrow> (link \<times> err option) + delegation) option"
  rg_parsePrincipal :: "(string \<Rightarrow> err + verifier) option"
  rg_resolveDIDKey :: "(did \<Rightarrow> (did \<times> err) + did) option"
  rg_authorityProofs :: "delegation list"
  rg_altAudiences :: "did list"
  rg_catch :: "'s error_handler option"
  rg_logReceipt :: "'s receipt_logger option"
  rg_delegationCache :: "'s dlg_store option"

type_synonym 's ret_option = "'s ret_config \<Rightarrow> err + 's ret_config"

definition ret_method_of :: "'s ret_method \<Rightarrow> 's ret_method" where
  "ret_method_of handler input invCtx req =
     sbind (handler input invCtx req) (\<lambda>(r, resp). case r of
       Inl e \<Rightarrow> sret (Inl e, resp)
     | Inr None \<Rightarrow> slift (Panic ''nil pointer dereference'')
     | Inr (Some tx) \<Rightarrow>
         sbind (slift (MapResultR0 (tx_Out tx) (\<lambda>v. v) (\<lambda>x. x))) (\<lambda>out.
           sret (Inr (Some (NewTransaction out [TxEffects (tx_Fx tx)])), resp)))"

definition ret_WithServiceMethod :: "string \<Rightarrow> 's ret_method \<Rightarrow> 's ret_option" where
  "ret_WithServiceMethod can handler cfg =
     Inr (cfg\<lparr> rg_service := (rg_service cfg)(can \<mapsto> ret_method_of handler) \<rparr>)"

definition ret_WithRevocationChecker :: "(authorization \<Rightarrow> delegation option comp) option \<Rightarrow> 's ret_option" where
  "ret_WithRevocationChecker fn cfg = Inr (cfg\<lparr> rg_validateAuthorization := fn \<rparr>)"

definition ret_WithErrorHandler :: "'s error_handler option \<Rightarrow> 's ret_option" where
  "ret_WithErrorHandler fn cfg = Inr (cfg\<lparr> rg_catch := fn \<rparr>)"

definition ret_WithReceiptLogger :: "'s receipt_logger option \<Rightarrow> 's ret_option" where
  "ret_WithReceiptLogger fn cfg = Inr (cfg\<lparr> rg_logReceipt := fn \<rparr>)"

definition ret_WithCanIssue :: "can_issue option \<Rightarrow> 's ret_option" where
  "ret_WithCanIssue fn cfg = Inr (cfg\<lparr> rg_canIssue := fn \<rparr>)"

definition ret_WithProofResolver :: "(link \<Rightarrow> (link \<times> err option) + delegation) option \<Rightarrow> 's ret_option" where
  "ret_WithProofResolver fn cfg = Inr (cfg\<lparr> rg_resolveProof := fn \<rparr>)"

definition ret_WithPrincipalParser :: "(string \<Rightarrow> err + verifier) option \<Rightarrow> 's ret_option" where
  "ret_WithPrincipalParser fn cfg = Inr (cfg\<lparr> rg_parsePrincipal := fn \<rparr>)"

definition ret_WithPrincipalResolver :: "(did \<Rightarrow> (did \<times> err) + did) option \<Rightarrow> 's ret_option" where
  "ret_WithPrincipalResolver fn cfg = Inr (cfg\<lparr> rg_resolveDIDKey := fn \<rparr>)"

definition ret_WithAuthorityProofs :: "delegation list \<Rightarrow> 's ret_option" where
  "ret_WithAuthorityProofs proofs cfg = Inr (cfg\<lparr> rg_authorityProofs := proofs \<rparr>)"

definition ret_WithAlternativeAudiences :: "did list \<Rightarrow> 's ret_option" where
  "ret_WithAlternativeAudiences audiences cfg = Inr (cfg\<lparr> rg_altAudiences := audiences \<rparr>)"

definition WithDelegationCache :: "'s dlg_store option \<Rightarrow> 's ret_option" where
  "WithDelegationCache cache cfg = Inr (cfg\<lparr> rg_delegationCache := cache \<rparr>)"

record 's ret_server =
  rv_server :: "'s server"
  rv_service :: "string \<rightharpoonup> 's ret_method"
  rv_cache :: "'s dlg_store"

text \<open>
  What the server runs on: the environment of the server it wraps, the header codec, the encodings of
  its errors, the LRU, and the fuel of following and exporting proofs.
\<close>

record ('s, 'c) retenv =
  re_E :: "'s srvenv"
  re_H :: hcarlib
  re_T :: retlib
  re_lru :: "'c lrulib"
  re_fuel :: nat

abbreviation re_L :: "('s, 'c) retenv \<Rightarrow> extlib" where "re_L X \<equiv> se_L (re_E X)"
abbreviation re_U :: "('s, 'c) retenv \<Rightarrow> ucanlib" where "re_U X \<equiv> se_U (re_E X)"
abbreviation re_C :: "('s, 'c) retenv \<Rightarrow> data_model codec" where "re_C X \<equiv> se_C (re_E X)"

fun apply_ret_options :: "'s ret_option list \<Rightarrow> 's ret_config \<Rightarrow> err + 's ret_config" where
  "apply_ret_options [] cfg = Inr cfg"
| "apply_ret_options (opt # opts) cfg =
     (case opt cfg of Inl e \<Rightarrow> Inl e | Inr cfg' \<Rightarrow> apply_ret_options opts cfg')"

definition ret_config0 :: "'s ret_config" where
  "ret_config0 =
     \<lparr> rg_service = Map.empty, rg_validateAuthorization = None, rg_canIssue = None, rg_resolveProof = None,
       rg_parsePrincipal = None, rg_resolveDIDKey = None, rg_authorityProofs = [], rg_altAudiences = [],
       rg_catch = None, rg_logReceipt = None, rg_delegationCache = None \<rparr>"


definition option_to_list :: "('a \<Rightarrow> 'b) \<Rightarrow> 'a option \<Rightarrow> 'b list" where
  "option_to_list f x = (case x of None \<Rightarrow> [] | Some y \<Rightarrow> [f y])"

text \<open>The options handed to the server it wraps; the alternative audiences are not among them.\<close>

definition wrapped_options :: "('s, 'c) retenv \<Rightarrow> 's ret_config \<Rightarrow> 's srv_option list" where
  "wrapped_options X cfg =
     [WithInboundCodec (Some (hcar_inbound (re_L X) (se_K (re_E X)) (re_H X) (re_C X)))] @
     option_to_list (\<lambda>f. WithCanIssue (Some f)) (rg_canIssue cfg) @
     option_to_list (\<lambda>f. WithErrorHandler (Some f)) (rg_catch cfg) @
     option_to_list (\<lambda>f. WithReceiptLogger (Some f)) (rg_logReceipt cfg) @
     option_to_list (\<lambda>f. WithRevocationChecker (Some f)) (rg_validateAuthorization cfg) @
     option_to_list (\<lambda>f. WithProofResolver (Some f)) (rg_resolveProof cfg) @
     option_to_list (\<lambda>f. WithPrincipalParser (Some f)) (rg_parsePrincipal cfg) @
     option_to_list (\<lambda>f. WithPrincipalResolver (Some f)) (rg_resolveDIDKey cfg) @
     (if length (rg_authorityProofs cfg) > 0 then [WithAuthorityProofs (rg_authorityProofs cfg)] else [])"

text \<open>The server, and the contents of the in-memory cache when one is made.\<close>

definition ret_NewServer :: "('c \<times> 'w, 'c) retenv \<Rightarrow> principal_signer \<Rightarrow> ('c \<times> 'w) ret_option list \<Rightarrow>
    err + (('c \<times> 'w) ret_server \<times> 'c option)" where
  "ret_NewServer X ident options =
     (case apply_ret_options options ret_config0 of
        Inl e \<Rightarrow> Inl e
      | Inr cfg \<Rightarrow>
          (case (case rg_delegationCache cfg of
                   Some cache \<Rightarrow> Inr (cache, None)
                 | None \<Rightarrow>
                     (case NewMemoryDelegationCache (re_lru X) MemoryDelegationCacheSize of
                        Inl e \<Rightarrow> Inl e
                      | Inr dc \<Rightarrow> Inr (MemoryDelegationCache (re_lru X), Some dc))) of
             Inl e \<Rightarrow> Inl e
           | Inr (dlgCache, dc) \<Rightarrow>
               (case NewServer (re_E X) ident (wrapped_options X cfg) of
                  Inl e \<Rightarrow> Inl (''creating server: '' @ e)
                | Inr srv \<Rightarrow>
                    Inr (\<lparr> rv_server = srv, rv_service = rg_service cfg, rv_cache = dlgCache \<rparr>, dc))))"

section \<open>Providers\<close>

text \<open>
  The provider calls the server's provider with a handler that keeps the response in a variable, here a
  second component of the state, and answers with that variable.
\<close>

definition ret_Provide :: "'z srvbase_scheme \<Rightarrow> descriptor \<Rightarrow> 's ret_handler \<Rightarrow> 's ret_method" where
  "ret_Provide E capability handler ivk ictx req s =
     cmap (\<lambda>(tx, (s', response)). ((tx, response), s'))
       (Provide E capability
          (\<lambda>cap ivk ictx (s, _). cmap (\<lambda>((r, res), s'). (r, (s', res))) (handler cap ivk ictx req s))
          ivk ictx (s, no_response))"

section \<open>Assembling the invocation\<close>

datatype extract_error = ExtractFailed err | MissingProofs "link list"

text \<open>
  The loop over the proofs to check: the delegations found, the ones among them that the message holds,
  and the proofs that were found nowhere. A delegation decoded from the message reads the message's
  store; putting more blocks into that store later adds nothing to what it exports, so it is a copy.
\<close>

fun extract_loop ::
    "nat \<Rightarrow> extlib \<Rightarrow> ucanlib \<Rightarrow> 's dlg_store \<Rightarrow> blockreader \<Rightarrow> link list \<Rightarrow>
     delegation list \<times> delegation list \<times> link list \<Rightarrow>
     ('s, err + delegation list \<times> delegation list \<times> link list) act" where
  "extract_loop n L U cache bs [] found = sret (Inr found)"
| "extract_loop 0 L U cache bs (prf # chkpfs) found = slift Fuel"
| "extract_loop (Suc n) L U cache bs (prf # chkpfs) (dlgs, newdlgs, missingpfs) =
     (case br_Get bs prf of
        Some blk \<Rightarrow>
          (case NewDelegation L U blk bs of
             Inl e \<Rightarrow> sret (Inl (''creating delegation '' @ prf @ '': '' @ e))
           | Inr dlg \<Rightarrow>
               extract_loop n L U cache bs (chkpfs @ dlg_Proofs dlg) (dlgs @ [dlg], newdlgs @ [dlg], missingpfs))
      | None \<Rightarrow>
          sbind (ds_Get cache prf) (\<lambda>r. case r of
            Inl e \<Rightarrow> sret (Inl (''getting delegation '' @ prf @ '' from cache: '' @ e))
          | Inr None \<Rightarrow> extract_loop n L U cache bs chkpfs (dlgs, newdlgs, missingpfs @ [prf])
          | Inr (Some dlg) \<Rightarrow>
              extract_loop n L U cache bs (chkpfs @ dlg_Proofs dlg) (dlgs @ [dlg], newdlgs, missingpfs)))"

fun cache_all :: "'s dlg_store \<Rightarrow> delegation list \<Rightarrow> ('s, err option) act" where
  "cache_all cache [] = sret None"
| "cache_all cache (dlg # dlgs) =
     sbind (ds_Put cache dlg) (\<lambda>r. case r of
       Some e \<Rightarrow> sret (Some (''caching delegation '' @ dlg_Link dlg @ '': '' @ e))
     | None \<Rightarrow> cache_all cache dlgs)"

fun put_exported :: "link \<Rightarrow> block_seq \<Rightarrow> blockreader \<Rightarrow> err + blockreader" where
  "put_exported l [] bs = Inr bs"
| "put_exported l (Inl e # rest) bs = Inl (''exporting blocks from delegation '' @ l @ '': '' @ e)"
| "put_exported l (Inr b # rest) bs = put_exported l rest (bs_Put bs b)"

fun put_delegations :: "nat \<Rightarrow> extlib \<Rightarrow> ucanlib \<Rightarrow> delegation list \<Rightarrow> blockreader \<Rightarrow> (err + blockreader) comp" where
  "put_delegations n L U [] bs = Ret (Inr bs)"
| "put_delegations n L U (dlg # dlgs) bs =
     cbind (dlg_Export n L U [] dlg) (\<lambda>exported.
       case put_exported (dlg_Link dlg) exported bs of
         Inl e \<Rightarrow> Ret (Inl e)
       | Inr bs' \<Rightarrow> put_delegations n L U dlgs bs')"

definition ExtractInvocation ::
    "nat \<Rightarrow> extlib \<Rightarrow> ucanlib \<Rightarrow> link \<Rightarrow> message \<Rightarrow> 's dlg_store \<Rightarrow> ('s, extract_error + delegation) act" where
  "ExtractInvocation n L U root msg cache =
     (case NewBlockStore [] (msg_Blocks msg) of
        Inl e \<Rightarrow> sret (Inl (ExtractFailed (''creating blockstore from agent message: '' @ e)))
      | Inr bs \<Rightarrow>
          sbind (extract_loop n L U cache bs [root] ([], [], [])) (\<lambda>r. case r of
            Inl e \<Rightarrow> sret (Inl (ExtractFailed e))
          | Inr (dlgs, newdlgs, missingpfs) \<Rightarrow>
              if length missingpfs > 0 then
                sbind (cache_all cache newdlgs) (\<lambda>c. case c of
                  Some e \<Rightarrow> sret (Inl (ExtractFailed e))
                | None \<Rightarrow> sret (Inl (MissingProofs missingpfs)))
              else
                sbind (slift (put_delegations n L U dlgs bs)) (\<lambda>p. case p of
                  Inl e \<Rightarrow> sret (Inl (ExtractFailed e))
                | Inr bs' \<Rightarrow> sret (map_sum ExtractFailed id (NewInvocationView L U root bs')))))"

section \<open>Running, executing, answering\<close>

text \<open>A receipt names the invocation by its link, without its blocks.\<close>

definition ret_issue :: "('s, 'c) retenv \<Rightarrow> 's ret_server \<Rightarrow> outcome \<Rightarrow> link \<Rightarrow> rcpt_option list \<Rightarrow> ('s, err + receipt) act" where
  "ret_issue X srv out l opts =
     slift (rcpt_Issue (re_L X) (se_R (re_E X)) (ps_signer (sv_id (rv_server srv))) out (ran_FromLink (Some l)) opts)"

definition ret_issue_failure :: "('s, 'c) retenv \<Rightarrow> 's ret_server \<Rightarrow> server_error \<Rightarrow> ret_response \<Rightarrow> link \<Rightarrow>
    ('s, goerror + receipt \<times> ret_response) act" where
  "ret_issue_failure X srv e resp l =
     sbind (slift (server_goerror (re_L X) (se_S (re_E X)) e)) (\<lambda>g.
     sbind (ret_issue X srv (NewFailure (re_L X) g) l []) (\<lambda>r.
       sret (map_sum plain_error (\<lambda>rcpt. (rcpt, resp)) r)))"

definition ret_Run :: "('s, 'c) retenv \<Rightarrow> 's ret_server \<Rightarrow> delegation \<Rightarrow> ret_request \<Rightarrow>
    ('s, goerror + receipt \<times> ret_response) act" where
  "ret_Run X srv ivk req =
     (let caps = dlg_Capabilities ivk; l = dlg_Link ivk
      in if length caps \<noteq> 1 then ret_issue_failure X srv (InvocationCapabilityError caps) no_response l
         else let cap = hd caps
         in case rv_service srv (cp_Can cap) of
              None \<Rightarrow> ret_issue_failure X srv (HandlerNotFoundError cap) no_response l
            | Some handle \<Rightarrow>
                sbind (handle ivk (sv_context (rv_server srv)) req) (\<lambda>(r, resp). case r of
                  Inl (e, canceled) \<Rightarrow>
                    if canceled then sret (Inl e)
                    else let execErr = HandlerExecutionError e cap
                         in sbind (sv_catch (rv_server srv) execErr) (\<lambda>_. ret_issue_failure X srv execErr resp l)
                | Inr None \<Rightarrow> slift (Panic ''nil pointer dereference'')
                | Inr (Some tx) \<Rightarrow>
                    sbind (ret_issue X srv (tx_Out tx) l (fx_options (tx_Fx tx))) (\<lambda>i. case i of
                      Inl e \<Rightarrow> sret (Inl (plain_error e))
                    | Inr rcpt \<Rightarrow>
                        sbind (srv_LogReceipt (rv_server srv) rcpt ivk) (\<lambda>logged. case logged of
                          Some e \<Rightarrow> sret (Inl e)
                        | None \<Rightarrow> sret (Inr (rcpt, resp))))))"

text \<open>The method \<open>Run\<close> of the server runs an invocation without a request and drops the response.\<close>

definition ret_srv_Run :: "('s, 'c) retenv \<Rightarrow> 's ret_server \<Rightarrow> delegation \<Rightarrow> ('s, goerror + receipt) act" where
  "ret_srv_Run X srv ivk =
     sbind (ret_Run X srv ivk \<lparr> rq_URL = None, rq_Headers = [] \<rparr>) (\<lambda>r. sret (map_sum id fst r))"

text \<open>
  The answer to a message without exactly one invocation: a receipt with the error for each link. An error
  is given as \<open>Execute\<close> returns it, and \<open>handle\<close> puts a text before it.
\<close>

fun issue_count_errors :: "('s, 'c) retenv \<Rightarrow> 's ret_server \<Rightarrow> link list \<Rightarrow> ('s, err + receipt list) act" where
  "issue_count_errors X srv [] = sret (Inr [])"
| "issue_count_errors X srv (l # ls) =
     sbind (ret_issue X srv (NewFailure (re_L X) (AgentMessageInvocationCountError (re_T X))) l []) (\<lambda>r. case r of
       Inl e \<Rightarrow> sret (Inl e)
     | Inr rcpt \<Rightarrow>
         sbind (issue_count_errors X srv ls) (\<lambda>rs. case rs of
           Inl e \<Rightarrow> sret (Inl e)
         | Inr rcpts \<Rightarrow> sret (Inr (rcpt # rcpts))))"

fun show_nat :: "nat \<Rightarrow> string" where
  "show_nat n = (if n < 10 then [char_of (48 + n)] else show_nat (n div 10) @ [char_of (48 + n mod 10)])"

definition show_int :: "int \<Rightarrow> string" where
  "show_int i = (if i < 0 then ''-'' @ show_nat (nat (- i)) else show_nat (nat i))"

definition missing_response :: "('s, 'c) retenv \<Rightarrow> link list \<Rightarrow> err + ret_response" where
  "missing_response X missing =
     (case MissingProofs_ToIPLD (re_T X) missing of
        Inl e \<Rightarrow> Inl (''building missing proofs IPLD view: '' @ e)
      | Inr n \<Rightarrow>
          (case rl_dagjson (re_T X) n of
             Inl e \<Rightarrow> Inl (''encoding missing proofs repsonse: '' @ e)
           | Inr body \<Rightarrow>
               let expiry = se_now (re_E X) + 10 * 60;
                   headers = hdr_Set (hdr_Set [] ''X-UCAN-Cache-Expiry'' (show_int expiry)) ''Content-Type'' ''application/json''
               in Inr \<lparr> rr_Status = 510, rr_Headers = Some headers, rr_Body = Some (text_body body) \<rparr>))"

text \<open>The message of the answer, which is nil when proofs are missing, and the response.\<close>

definition ret_Execute :: "('s, 'c) retenv \<Rightarrow> 's ret_server \<Rightarrow> message \<Rightarrow> ret_request \<Rightarrow>
    ('s, goerror + message option \<times> ret_response) act" where
  "ret_Execute X srv msg req =
     (let invs = msg_Invocations msg
      in if length invs \<noteq> 1 then
           sbind (issue_count_errors X srv invs) (\<lambda>r. case r of
             Inl e \<Rightarrow> sret (Inl (plain_error e))
           | Inr rcpts \<Rightarrow>
               sbind (slift (msg_Build (re_L X) (re_U X) (re_C X) [] rcpts)) (\<lambda>out. case out of
                 Inl e \<Rightarrow> sret (Inl (plain_error e))
               | Inr m \<Rightarrow> sret (Inr (Some m, no_response\<lparr> rr_Status := 400 \<rparr>))))
         else
           sbind (ExtractInvocation (re_fuel X) (re_L X) (re_U X) (hd invs) msg (rv_cache srv)) (\<lambda>inv. case inv of
             Inl (MissingProofs missing) \<Rightarrow>
               sret (case missing_response X missing of Inl e \<Rightarrow> Inl (plain_error e) | Inr resp \<Rightarrow> Inr (None, resp))
           | Inl (ExtractFailed e) \<Rightarrow> sret (Inl (plain_error e))
           | Inr ivk \<Rightarrow>
               sbind (ret_Run X srv ivk req) (\<lambda>r. case r of
                 Inl e \<Rightarrow> sret (Inl (plain_error (''running invocation: '' @ ge_Error e)))
               | Inr (rcpt, resp) \<Rightarrow>
                   sbind (slift (msg_Build (re_L X) (re_U X) (re_C X) [] [rcpt])) (\<lambda>out. case out of
                     Inl e \<Rightarrow> sret (Inl (plain_error (''building agent message: '' @ e)))
                   | Inr m \<Rightarrow> sret (Inr (Some m, resp))))))"

text \<open>The headers of the response are added to the ones of the encoded message, and its status replaces 200.\<close>

definition merge_response :: "http_response \<Rightarrow> ret_response \<Rightarrow> http_response" where
  "merge_response encResp execResp =
     (let status = (if rr_Status execResp \<noteq> 0 \<and> (rs_status encResp = 0 \<or> rs_status encResp = 200)
                    then rr_Status execResp else rs_status encResp);
          headers = (case rr_Headers execResp of
                       None \<Rightarrow> rs_headers encResp
                     | Some h \<Rightarrow> Some (addAllHeaders (case rs_headers encResp of None \<Rightarrow> [] | Some e \<Rightarrow> e) [h]))
      in http_NewResponse status (rr_Body execResp) headers)"

definition ret_handle :: "('s, 'c) retenv \<Rightarrow> 's ret_server \<Rightarrow> http_request \<Rightarrow> ('s, goerror + http_response) act" where
  "ret_handle X srv request =
     (case sv_codec (rv_server srv) request of
        Inl aerr \<Rightarrow>
          sret (Inr (http_NewResponse (he_status aerr) (Some (text_body (he_message aerr))) (Some (he_headers aerr))))
      | Inr selection \<Rightarrow>
          sbind (slift (ac_Decode selection request)) (\<lambda>d. case d of
            Inl e \<Rightarrow>
              sret (Inr (http_NewResponse 400 (Some (text_body (''The server failed to decode the request payload. Please format the payload according to the specified media type: '' @ e))) None))
          | Inr msg \<Rightarrow>
              let invs = msg_Invocations msg
              in if length invs \<noteq> 1 then
                   sbind (issue_count_errors X srv invs) (\<lambda>r. case r of
                     Inl e \<Rightarrow> sret (Inl (plain_error (''issuing invocation error receipt: '' @ e)))
                   | Inr rcpts \<Rightarrow>
                       sbind (slift (msg_Build (re_L X) (re_U X) (re_C X) [] rcpts)) (\<lambda>out. case out of
                         Inl e \<Rightarrow> sret (Inl (plain_error (''building invocation error message: '' @ e)))
                       | Inr m \<Rightarrow>
                           sret (map_sum (\<lambda>(e, big). plain_error (''encoding invocation error message: '' @ e)) id
                                   (ac_Encode selection m))))
                 else
                   let retreq = \<lparr> rq_URL = rq_url request, rq_Headers = rq_headers request \<rparr>
                   in sbind (ret_Execute X srv msg retreq) (\<lambda>x. case x of
                        Inl e \<Rightarrow> sret (Inl (plain_error (''executing invocations: '' @ ge_Error e)))
                      | Inr (None, execResp) \<Rightarrow>
                          sret (Inr (http_NewResponse (rr_Status execResp) (rr_Body execResp) (rr_Headers execResp)))
                      | Inr (Some out, execResp) \<Rightarrow>
                          (case ac_Encode selection out of
                             Inl (e, big) \<Rightarrow> sret (Inl (plain_error (''encoding response message: '' @ e)))
                           | Inr encResp \<Rightarrow> sret (Inr (merge_response encResp execResp))))))"

definition ret_Handle :: "('s, 'c) retenv \<Rightarrow> 's ret_server \<Rightarrow> http_request \<Rightarrow> ('s, goerror + http_response) act" where
  "ret_Handle X srv request =
     sbind (ret_handle X srv request) (\<lambda>r. case r of
       Inl e \<Rightarrow> sret (Inl e)
     | Inr resp \<Rightarrow>
         let headers = (case rs_headers resp of None \<Rightarrow> [] | Some h \<Rightarrow> h);
             headers = hdr_Add headers ''Vary'' HeaderName
         in sret (Inr (http_NewResponse (rs_status resp)
                         (case rs_body resp of None \<Rightarrow> Some (text_body []) | Some b \<Rightarrow> Some b) (Some headers))))"

section \<open>The contract of a delegation store\<close>

text \<open>
  \<open>contents\<close> is what the store holds in a state; getting does not change it, and a put adds its delegation and
  nothing else, though it may drop others. A store that keeps what it has room for drops nothing while the
  links put into it are in a set it has room for.
\<close>

locale delegation_store =
  fixes cache :: "'s dlg_store"
    and contents :: "'s \<Rightarrow> link \<rightharpoonup> delegation"
    and usable :: "'s \<Rightarrow> bool"
  assumes get: "usable s \<Longrightarrow> \<exists>s'. ds_Get cache l s = Ret (Inr (contents s l), s') \<and> contents s' = contents s \<and> usable s'"
    and put: "usable s \<Longrightarrow> \<exists>s'. ds_Put cache d s = Ret (None, s') \<and> usable s' \<and> contents s' (dlg_Link d) = Some d \<and>
                (\<forall>l x. contents s' l = Some x \<longrightarrow> l = dlg_Link d \<and> x = d \<or> contents s l = Some x)"
    and keyed: "usable s \<Longrightarrow> contents s l = Some d \<Longrightarrow> dlg_Link d = l"

locale keeping_store = delegation_store +
  fixes room :: "link set \<Rightarrow> 's \<Rightarrow> bool"
  assumes get_room: "usable s \<Longrightarrow> room K s \<Longrightarrow> ds_Get cache l s = Ret (r, s') \<Longrightarrow> room K s'"
    and put_room: "usable s \<Longrightarrow> room K s \<Longrightarrow> dlg_Link d \<in> K \<Longrightarrow> ds_Put cache d s = Ret (e, s') \<Longrightarrow>
                     contents s' = (contents s)(dlg_Link d \<mapsto> d) \<and> room K s'"

section \<open>What extracting looks at\<close>

text \<open>A link is looked up in the blocks of the message, then in the cache.\<close>

definition resolved :: "extlib \<Rightarrow> ucanlib \<Rightarrow> blockreader \<Rightarrow> (link \<rightharpoonup> delegation) \<Rightarrow> link \<Rightarrow> err + delegation option" where
  "resolved L U bs c l =
     (case br_Get bs l of
        Some blk \<Rightarrow> map_sum id Some (NewDelegation L U blk bs)
      | None \<Rightarrow> Inr (c l))"

text \<open>The links that have to be resolved, starting from some: the proofs of what is resolved.\<close>

inductive needed :: "(link \<Rightarrow> err + delegation option) \<Rightarrow> link set \<Rightarrow> link \<Rightarrow> bool" for f Q where
  needed_root: "l \<in> Q \<Longrightarrow> needed f Q l"
| needed_proof: "needed f Q l \<Longrightarrow> f l = Inr (Some d) \<Longrightarrow> q \<in> set (dlg_Proofs d) \<Longrightarrow> needed f Q q"

text \<open>
  A weight of the links that exceeds the sum of the weights of the proofs: it counts the paths through the
  proofs. A link is a hash of its block, so proofs form no cycle and there is one.
\<close>

definition weighs :: "(link \<Rightarrow> err + delegation option) \<Rightarrow> link set \<Rightarrow> (link \<Rightarrow> nat) \<Rightarrow> bool" where
  "weighs f Q w \<longleftrightarrow>
     (\<forall>l. needed f Q l \<longrightarrow> 0 < w l \<and> (\<forall>d. f l = Inr (Some d) \<longrightarrow> sum_list (map w (dlg_Proofs d)) < w l))"

lemma weighsD:
  "weighs f Q w \<Longrightarrow> needed f Q l \<Longrightarrow> 0 < w l"
  "weighs f Q w \<Longrightarrow> needed f Q l \<Longrightarrow> f l = Inr (Some d) \<Longrightarrow> sum_list (map w (dlg_Proofs d)) < w l"
  by (simp_all add: weighs_def)

definition missing_set :: "(link \<Rightarrow> err + delegation option) \<Rightarrow> link set \<Rightarrow> link set" where
  "missing_set f Q = {l. needed f Q l \<and> f l = Inr None}"

definition found_set :: "(link \<Rightarrow> err + delegation option) \<Rightarrow> link set \<Rightarrow> (link \<Rightarrow> bool) \<Rightarrow> delegation set" where
  "found_set f Q P = {d. \<exists>l. needed f Q l \<and> P l \<and> f l = Inr (Some d)}"

lemma needed_mono: "needed f Q l \<Longrightarrow> Q \<subseteq> R \<Longrightarrow> needed f R l"
  by (induction rule: needed.induct) (auto intro: needed.intros)

lemma needed_step:
  assumes "f p = Inr x"
  shows "needed f (insert p Q) l \<longleftrightarrow>
           l = p \<or> needed f ((case x of None \<Rightarrow> {} | Some d \<Rightarrow> set (dlg_Proofs d)) \<union> Q) l"
    (is "?a \<longleftrightarrow> _ \<or> needed f ?R l")
proof
  assume ?a
  then show "l = p \<or> needed f ?R l"
    by (induction rule: needed.induct) (use assms in \<open>auto intro: needed.intros\<close>)
next
  assume "l = p \<or> needed f ?R l"
  then show ?a
  proof
    assume "needed f ?R l"
    then show ?a
      by (induction rule: needed.induct)
         (use assms in \<open>auto intro: needed.intros needed_proof [OF needed_root] split: option.splits\<close>)
  qed (simp add: needed_root)
qed

lemma needed_none: "needed f {} l \<Longrightarrow> False"
  by (induction rule: needed.induct) auto

lemma weighs_step:
  assumes "weighs f (insert p Q) w" "f p = Inr x"
  shows "weighs f ((case x of None \<Rightarrow> {} | Some d \<Rightarrow> set (dlg_Proofs d)) \<union> Q) w"
  using assms(1) unfolding weighs_def needed_step [where f = f and p = p, OF assms(2)] by blast

lemma missing_step:
  assumes "f p = Inr x"
  shows "missing_set f (insert p Q) = (if x = None then {p} else {}) \<union>
           missing_set f ((case x of None \<Rightarrow> {} | Some d \<Rightarrow> set (dlg_Proofs d)) \<union> Q)"
  using assms by (auto simp: missing_set_def needed_step [where f = f and p = p, OF assms])

lemma found_step:
  assumes "f p = Inr x"
  shows "found_set f (insert p Q) P = (if P p then set_option x else {}) \<union>
           found_set f ((case x of None \<Rightarrow> {} | Some d \<Rightarrow> set (dlg_Proofs d)) \<union> Q) P"
  using assms by (auto simp: found_set_def needed_step [where f = f and p = p, OF assms])

lemma resolved_cases:
  "resolved L U bs c l = r \<longleftrightarrow>
     (case br_Get bs l of
        None \<Rightarrow> r = Inr (c l)
      | Some b \<Rightarrow> (case NewDelegation L U b bs of Inl e \<Rightarrow> r = Inl e | Inr d \<Rightarrow> r = Inr (Some d)))"
  by (auto simp: resolved_def split: option.splits sum.splits)

text \<open>What the loop has gathered when it ends, and when it stops at a block that does not decode.\<close>

definition gathered :: "(link \<Rightarrow> err + delegation option) \<Rightarrow> (link \<Rightarrow> bool) \<Rightarrow> link set \<Rightarrow>
    delegation list \<times> delegation list \<times> link list \<Rightarrow> err + delegation list \<times> delegation list \<times> link list \<Rightarrow> bool" where
  "gathered f P Q acc r = (case acc of (dlgs, newdlgs, missingpfs) \<Rightarrow>
     (case r of
        Inl e \<Rightarrow> \<exists>l x. needed f Q l \<and> f l = Inl x
      | Inr (dlgs', newdlgs', missingpfs') \<Rightarrow>
          (\<forall>l. needed f Q l \<longrightarrow> (\<exists>x. f l = Inr x)) \<and>
          set missingpfs' = set missingpfs \<union> missing_set f Q \<and>
          set newdlgs' = set newdlgs \<union> found_set f Q P \<and>
          set dlgs' = set dlgs \<union> found_set f Q (\<lambda>_. True)))"

lemma gathered_step:
  assumes "f p = Inr x" "Q' = (case x of None \<Rightarrow> {} | Some d \<Rightarrow> set (dlg_Proofs d)) \<union> Q"
    and "gathered f P Q' acc' r"
    and "acc' = (case acc of (dlgs, newdlgs, missingpfs) \<Rightarrow>
           (case x of None \<Rightarrow> (dlgs, newdlgs, missingpfs @ [p])
            | Some d \<Rightarrow> (dlgs @ [d], if P p then newdlgs @ [d] else newdlgs, missingpfs)))"
  shows "gathered f P (insert p Q) acc r"
  using assms(3) needed_step [where f = f and p = p, OF assms(1), of Q]
  unfolding gathered_def assms(4) missing_step [where f = f and p = p, OF assms(1)] found_step [where f = f and p = p, OF assms(1)] assms(2)
  by (auto simp: assms(1) split: prod.splits sum.splits option.splits if_splits)

context delegation_store begin

lemma extract_loop_result:
  assumes "usable s" "weighs (resolved L U bs (contents s)) (set ls) w" "sum_list (map w ls) \<le> n"
  shows "\<exists>r s'. extract_loop n L U cache bs ls acc s = Ret (r, s') \<and> usable s' \<and> contents s' = contents s \<and>
           gathered (resolved L U bs (contents s)) (\<lambda>l. br_Get bs l \<noteq> None) (set ls) acc r"
  using assms
proof (induction n arbitrary: ls acc s)
  case 0
  from 0 weighsD(1) [OF 0(2) needed_root, of "hd ls"] have "ls = []" by (cases ls) auto
  with 0 show ?case
    by (auto simp: gathered_def missing_set_def found_set_def dest: needed_none split: prod.splits)
next
  case (Suc n)
  let ?f = "resolved L U bs (contents s)" and ?P = "\<lambda>l. br_Get bs l \<noteq> None"
  show ?case
  proof (cases ls)
    case Nil
    with Suc.prems show ?thesis
      by (auto simp: gathered_def missing_set_def found_set_def dest: needed_none split: prod.splits)
  next
    case (Cons p ps)
    obtain dlgs newdlgs missingpfs where acc: "acc = (dlgs, newdlgs, missingpfs)" by (cases acc)
    obtain s1 where s1: "ds_Get cache p s = Ret (Inr (contents s p), s1)" "contents s1 = contents s" "usable s1"
      using get [OF Suc.prems(1), of p] by blast
    have w: "0 < w p" by (rule weighsD(1) [OF Suc.prems(2)]) (simp add: Cons needed_root)
    show ?thesis
    proof (cases "?f p")
      case (Inl e)
      then obtain e' where "extract_loop (Suc n) L U cache bs ls acc s = Ret (Inl e', s)"
        by (auto simp: resolved_cases acc Cons split: option.splits sum.splits)
      with Inl Suc.prems show ?thesis
        by (auto simp: gathered_def acc Cons intro: needed_root)
    next
      case (Inr x)
      define acc' where "acc' = (case x of None \<Rightarrow> (dlgs, newdlgs, missingpfs @ [p])
            | Some d \<Rightarrow> (dlgs @ [d], if ?P p then newdlgs @ [d] else newdlgs, missingpfs))"
      define ls' where "ls' = ps @ (case x of None \<Rightarrow> [] | Some d \<Rightarrow> dlg_Proofs d)"
      define s' where "s' = (if ?P p then s else s1)"
      have step: "extract_loop (Suc n) L U cache bs ls acc s = extract_loop n L U cache bs ls' acc' s'"
        using Inr s1(1)
        by (auto simp: resolved_cases acc Cons acc'_def ls'_def s'_def sbind_def split: option.splits sum.splits)
      have s': "usable s'" "contents s' = contents s" using s1 Suc.prems(1) by (auto simp: s'_def)
      have "sum_list (map w ls') \<le> n"
        using Suc.prems(3) Inr w weighsD(2) [OF Suc.prems(2) needed_root, of p]
        by (cases x) (auto simp: ls'_def Cons)
      moreover have "weighs ?f (set ls') w"
        using weighs_step [OF Suc.prems(2) [unfolded Cons list.set] Inr]
        by (auto simp: ls'_def Un_commute split: option.splits)
      ultimately obtain r t where
        r: "extract_loop n L U cache bs ls' acc' s' = Ret (r, t)" "usable t" "contents t = contents s"
          "gathered ?f ?P (set ls') acc' r"
        using Suc.IH [OF s'(1), of ls' acc'] s'(2) by auto
      have "gathered ?f ?P (set ls) acc r"
        unfolding Cons list.set acc
        by (rule gathered_step [OF Inr _ r(4)]) (auto simp: ls'_def acc'_def split: option.splits)
      with r step show ?thesis by auto
    qed
  qed
qed

lemma cache_all_result:
  "usable s \<Longrightarrow> \<exists>s'. cache_all cache ds s = Ret (None, s') \<and> usable s' \<and>
     (\<forall>l d. contents s' l = Some d \<longrightarrow> d \<in> set ds \<and> l = dlg_Link d \<or> contents s l = Some d)"
proof (induction ds arbitrary: s)
  case (Cons d ds)
  obtain s1 where 1: "ds_Put cache d s = Ret (None, s1)" "usable s1"
      "\<And>l x. contents s1 l = Some x \<Longrightarrow> l = dlg_Link d \<and> x = d \<or> contents s l = Some x"
    using put [OF Cons.prems] by blast
  with Cons.IH [OF 1(2)] show ?case by (fastforce simp: sbind_def)
qed simp

text \<open>
  What extracting does: it stops at a block of a needed delegation that does not decode; it answers with the
  links that are needed and resolved nowhere, and caches the new delegations; or nothing is missing.
\<close>

lemma extract_outcome:
  assumes "usable s" "NewBlockStore [] (msg_Blocks msg) = Inr bs"
    and "f = resolved L U bs (contents s)" "weighs f {root} w" "w root \<le> n"
  obtains (undecodable) s' e l x where
    "ExtractInvocation n L U root msg cache s = Ret (Inl (ExtractFailed e), s')" "usable s'"
    "contents s' = contents s" "needed f {root} l" "f l = Inl x"
  | (lacking) s' ms newdlgs where
    "ExtractInvocation n L U root msg cache s = Ret (Inl (MissingProofs ms), s')" "usable s'"
    "set ms = missing_set f {root}" "ms \<noteq> []" "\<forall>l. needed f {root} l \<longrightarrow> (\<exists>x. f l = Inr x)"
    "set newdlgs = found_set f {root} (\<lambda>l. br_Get bs l \<noteq> None)"
    "\<exists>s1. usable s1 \<and> contents s1 = contents s \<and> cache_all cache newdlgs s1 = Ret (None, s')"
  | (complete) s' dlgs where
    "ExtractInvocation n L U root msg cache s =
       sbind (slift (put_delegations n L U dlgs bs)) (\<lambda>p. case p of
          Inl e \<Rightarrow> sret (Inl (ExtractFailed e))
        | Inr bs' \<Rightarrow> sret (map_sum ExtractFailed id (NewInvocationView L U root bs'))) s'" "usable s'"
    "contents s' = contents s" "missing_set f {root} = {}" "\<forall>l. needed f {root} l \<longrightarrow> (\<exists>x. f l = Inr x)"
    "set dlgs = found_set f {root} (\<lambda>_. True)"
proof -
  obtain r s1 where r: "extract_loop n L U cache bs [root] ([], [], []) s = Ret (r, s1)" "usable s1"
      "contents s1 = contents s" "gathered f (\<lambda>l. br_Get bs l \<noteq> None) {root} ([], [], []) r"
    using extract_loop_result [OF assms(1) _, of L U bs "[root]" w n "([], [], [])"] assms(3-5)
    by auto
  show thesis
  proof (cases r)
    case (Inl e)
    with r(4) obtain l x where "needed f {root} l" "f l = Inl x" by (auto simp: gathered_def)
    with Inl r show thesis
      by (intro undecodable [of e s1 l x]) (auto simp: ExtractInvocation_def assms(2) sbind_def)
  next
    case (Inr a)
    obtain dlgs newdlgs ms where a: "a = (dlgs, newdlgs, ms)" by (cases a)
    note g = r(4) [unfolded Inr a gathered_def, simplified]
    show thesis
    proof (cases "ms = []")
      case True
      with r g show thesis
        by (intro complete [of dlgs s1]) (auto simp: ExtractInvocation_def assms(2) sbind_def Inr a)
    next
      case False
      obtain s2 where s2: "cache_all cache newdlgs s1 = Ret (None, s2)" "usable s2"
        using cache_all_result [OF r(2)] by blast
      with False r g show thesis
        by (intro lacking [of ms s2 newdlgs]) (auto simp: ExtractInvocation_def assms(2) sbind_def Inr a)
    qed
  qed
qed

end

context keeping_store begin

lemma cache_all_keeps:
  assumes "usable s" "room K s" "dlg_Link ` set ds \<subseteq> K" "\<forall>d \<in> set ds. g (dlg_Link d) = Some d"
  shows "\<exists>s'. cache_all cache ds s = Ret (None, s') \<and> usable s' \<and> room K s' \<and>
           contents s' = (\<lambda>l. if l \<in> dlg_Link ` set ds then g l else contents s l)"
  using assms
proof (induction ds arbitrary: s)
  case (Cons d ds)
  obtain s1 where 1: "ds_Put cache d s = Ret (None, s1)" "usable s1"
    using put [OF Cons.prems(1)] by blast
  with put_room [OF Cons.prems(1,2) _ 1(1)] Cons.prems(3)
  have 2: "contents s1 = (contents s)(dlg_Link d \<mapsto> d)" "room K s1" by auto
  from Cons.IH [OF 1(2) 2(2)] Cons.prems(3,4) obtain s2 where
    "cache_all cache ds s1 = Ret (None, s2)" "usable s2" "room K s2"
    "contents s2 = (\<lambda>l. if l \<in> dlg_Link ` set ds then g l else contents s1 l)" by auto
  with 1 2(1) Cons.prems(4) show ?case by (auto simp: sbind_def fun_eq_iff)
qed simp

end

section \<open>Putting the delegations together\<close>

lemma put_exported_ok: "put_exported l (map Inr bl) bs = Inr (foldl bs_Put bs bl)"
  by (induction bl arbitrary: bs) auto

definition exports :: "nat \<Rightarrow> extlib \<Rightarrow> ucanlib \<Rightarrow> delegation \<Rightarrow> block list \<Rightarrow> bool" where
  "exports n L U d bl \<longleftrightarrow> dlg_Export n L U [] d = Ret (map Inr bl)"

lemma put_delegations_ok:
  assumes "\<forall>d \<in> set dlgs. \<exists>bl. exports n L U d bl"
  shows "\<exists>bl. put_delegations n L U dlgs bs = Ret (Inr (foldl bs_Put bs bl)) \<and>
           (\<forall>b. b \<in> set bl \<longleftrightarrow> (\<exists>d \<in> set dlgs. \<exists>x. exports n L U d x \<and> b \<in> set x))"
  using assms
proof (induction dlgs arbitrary: bs)
  case (Cons d dlgs)
  then obtain x where x: "exports n L U d x" by auto
  then have u: "exports n L U d y \<Longrightarrow> y = x" for y
    by (simp add: exports_def inj_map_eq_map)
  from Cons.IH [of "foldl bs_Put bs x"] Cons.prems obtain bl where
    "put_delegations n L U dlgs (foldl bs_Put bs x) = Ret (Inr (foldl bs_Put (foldl bs_Put bs x) bl))"
    "\<forall>b. b \<in> set bl \<longleftrightarrow> (\<exists>d \<in> set dlgs. \<exists>x. exports n L U d x \<and> b \<in> set x)" by auto
  with x u show ?case
    by (intro exI [of _ "x @ bl"]) (auto simp: exports_def put_exported_ok)
qed (auto intro: exI [of _ "[]"])

lemma export_has_root: "exports n L U d bl \<Longrightarrow> dl_rt d \<in> set bl"
  by (cases n)
     (fastforce simp: exports_def dlg_Export_def seq_then_def split: if_splits
        dest: arg_cong [where f = set] arg_cong [where f = error_free])+

section \<open>The in-memory cache keeps the contract\<close>

text \<open>
  What the in-memory cache relies on of its LRU: getting answers with what a view of it shows and does not
  change that; adding shows the value at its key, and nothing that was not shown before; and nothing is
  dropped while the keys shown are no more than its size.
\<close>

definition lru_ok :: "'c lrulib \<Rightarrow> ('c \<Rightarrow> string \<rightharpoonup> delegation) \<Rightarrow> ('c \<Rightarrow> bool) \<Rightarrow> nat \<Rightarrow> bool" where
  "lru_ok R view good cap \<longleftrightarrow> (\<forall>c l. good c \<longrightarrow> finite (dom (view c)) \<and>
     fst (lr_Get R l c) = view c l \<and> view (snd (lr_Get R l c)) = view c \<and> good (snd (lr_Get R l c)) \<and>
     (\<forall>d. good (lr_Add R l d c) \<and> view (lr_Add R l d c) l = Some d \<and> view (lr_Add R l d c) \<subseteq>\<^sub>m (view c)(l \<mapsto> d) \<and>
        (card (insert l (dom (view c))) \<le> cap \<longrightarrow> view (lr_Add R l d c) = (view c)(l \<mapsto> d))))"

definition mem_usable :: "'c lrulib \<Rightarrow> ('c \<Rightarrow> string \<rightharpoonup> delegation) \<Rightarrow> ('c \<Rightarrow> bool) \<Rightarrow> nat \<Rightarrow> 'c \<times> 'w \<Rightarrow> bool" where
  "mem_usable R view good cap s \<longleftrightarrow>
     lru_ok R view good cap \<and> good (fst s) \<and> (\<forall>l d. view (fst s) l = Some d \<longrightarrow> dlg_Link d = l)"

definition mem_room :: "('c \<Rightarrow> string \<rightharpoonup> delegation) \<Rightarrow> nat \<Rightarrow> link set \<Rightarrow> 'c \<times> 'w \<Rightarrow> bool" where
  "mem_room view cap K s \<longleftrightarrow> finite K \<and> card (dom (view (fst s)) \<union> K) \<le> cap"

lemma mem_step:
  assumes "mem_usable R view good cap (c, x)"
  shows "mem_Get R l (c, x) = Ret (Inr (view c l), (snd (lr_Get R l c), x))"
    and "view (snd (lr_Get R l c)) = view c" "good (snd (lr_Get R l c))" "finite (dom (view c))"
    and "mem_Put R d (c, x) = Ret (None, (lr_Add R (dlg_Link d) d c, x))" "good (lr_Add R (dlg_Link d) d c)"
    and "view (lr_Add R (dlg_Link d) d c) (dlg_Link d) = Some d"
    and "view (lr_Add R (dlg_Link d) d c) \<subseteq>\<^sub>m (view c)(dlg_Link d \<mapsto> d)"
    and "card (insert (dlg_Link d) (dom (view c))) \<le> cap \<Longrightarrow> view (lr_Add R (dlg_Link d) d c) = (view c)(dlg_Link d \<mapsto> d)"
  using assms by (auto simp: mem_usable_def lru_ok_def mem_Get_def mem_Put_def case_prod_unfold)

lemma mem_added:
  assumes "mem_usable R view good cap (c, x)" "view (lr_Add R (dlg_Link d) d c) l = Some y"
  shows "l = dlg_Link d \<and> y = d \<or> view c l = Some y"
  using bspec [OF mem_step(8) [OF assms(1), of d, unfolded map_le_def] domI, OF assms(2)] assms(2)
  by (auto split: if_splits)

interpretation mem: keeping_store "MemoryDelegationCache R" "\<lambda>s. view (fst s)" "mem_usable R view good cap" "mem_room view cap"
  for R :: "'c lrulib" and view good cap
proof
  fix s :: "'c \<times> 'w" and l d
  assume u: "mem_usable R view good cap s"
  obtain c x where s: "s = (c, x)" by (cases s)
  note m = mem_step [OF u [unfolded s]]
  show "\<exists>s'. ds_Get (MemoryDelegationCache R) l s = Ret (Inr (view (fst s) l), s') \<and> view (fst s') = view (fst s) \<and>
          mem_usable R view good cap s'"
    using m(1-3) [of l] u by (simp add: s MemoryDelegationCache_def mem_usable_def)
  show "\<exists>s'. ds_Put (MemoryDelegationCache R) d s = Ret (None, s') \<and> mem_usable R view good cap s' \<and>
          view (fst s') (dlg_Link d) = Some d \<and>
          (\<forall>l x. view (fst s') l = Some x \<longrightarrow> l = dlg_Link d \<and> x = d \<or> view (fst s) l = Some x)"
    using m(5-7) [of d] mem_added [OF u [unfolded s], of d] u by (auto simp: s MemoryDelegationCache_def mem_usable_def)
  show "dlg_Link d = l" if "view (fst s) l = Some d" using that u by (simp add: mem_usable_def)
next
  fix s :: "'c \<times> 'w" and K l r s'
  assume u: "mem_usable R view good cap s" and k: "mem_room view cap K s" and g: "ds_Get (MemoryDelegationCache R) l s = Ret (r, s')"
  obtain c x where s: "s = (c, x)" by (cases s)
  show "mem_room view cap K s'"
    using mem_step(1,2) [OF u [unfolded s], of l] k g by (auto simp: s MemoryDelegationCache_def mem_room_def)
next
  fix s :: "'c \<times> 'w" and K d e s'
  assume u: "mem_usable R view good cap s" and k: "mem_room view cap K s" "dlg_Link d \<in> K"
    and p: "ds_Put (MemoryDelegationCache R) d s = Ret (e, s')"
  obtain c x where s: "s = (c, x)" by (cases s)
  note m = mem_step [OF u [unfolded s]]
  have "card (insert (dlg_Link d) (dom (view c))) \<le> card (dom (view c) \<union> K)"
    using k m(4) by (intro card_mono) (auto simp: mem_room_def)
  then have "view (lr_Add R (dlg_Link d) d c) = (view c)(dlg_Link d \<mapsto> d)"
    using k(1) by (intro m(9)) (simp add: mem_room_def s)
  moreover have "insert (dlg_Link d) (dom (view c)) \<union> K = dom (view c) \<union> K" using k(2) by auto
  ultimately show "view (fst s') = (view (fst s))(dlg_Link d \<mapsto> d) \<and> mem_room view cap K s'"
    using p k(1) m(5) [of d] by (auto simp: s MemoryDelegationCache_def mem_room_def)
qed

section \<open>What extracting gives\<close>

text \<open>The links of the delegations that are needed and in the message.\<close>

definition sent_links :: "(link \<Rightarrow> err + delegation option) \<Rightarrow> blockreader \<Rightarrow> link \<Rightarrow> link set" where
  "sent_links f bs root = {l. needed f {root} l \<and> br_Get bs l \<noteq> None}"

lemma resolved_link:
  assumes "NewBlockStore [] blks = Inr bs" "\<And>l d. c l = Some d \<Longrightarrow> dlg_Link d = l"
    and "resolved L U bs c l = Inr (Some d)"
  shows "dlg_Link d = l"
proof -
  have "wf_store bs" using assms(1) store.inv_puts [OF store.inv_empty] by (auto simp: NewBlockStore_Inr)
  then show ?thesis
    using assms(2,3) by (auto simp: resolved_cases NewDelegation_Inr dlg_Link_def wf_store_def br_Get_def
        split: option.splits sum.splits)
qed

lemma found_sent:
  assumes "\<And>l d. f l = Inr (Some d) \<Longrightarrow> dlg_Link d = l" "\<forall>l. needed f {root} l \<longrightarrow> (\<exists>x. f l = Inr x)"
    and "\<And>l. br_Get bs l \<noteq> None \<Longrightarrow> f l \<noteq> Inr None"
  shows "dlg_Link ` found_set f {root} (\<lambda>l. br_Get bs l \<noteq> None) = sent_links f bs root"
proof
  show "sent_links f bs root \<subseteq> dlg_Link ` found_set f {root} (\<lambda>l. br_Get bs l \<noteq> None)"
  proof
    fix l assume l: "l \<in> sent_links f bs root"
    then obtain x where "f l = Inr x" using assms(2) by (auto simp: sent_links_def)
    with l assms(1,3) [of l] show "l \<in> dlg_Link ` found_set f {root} (\<lambda>l. br_Get bs l \<noteq> None)"
      by (cases x) (force simp: sent_links_def found_set_def image_iff)+
  qed
qed (use assms(1) in \<open>auto simp: found_set_def sent_links_def\<close>)

text \<open>
  With needed proofs missing, extracting asks for exactly those, and the cache then holds the needed
  delegations of the message besides what it held.
\<close>

lemma extract_reports_missing:
  assumes "mem_usable R view good cap s" "NewBlockStore [] (msg_Blocks msg) = Inr bs"
    and "f = resolved L U bs (view (fst s))" "weighs f {root} w" "w root \<le> n"
    and "\<forall>l e. needed f {root} l \<longrightarrow> f l \<noteq> Inl e" "missing_set f {root} \<noteq> {}"
    and "mem_room view cap (sent_links f bs root) s"
  shows "\<exists>ms s'. ExtractInvocation n L U root msg (MemoryDelegationCache R) s = Ret (Inl (MissingProofs ms), s') \<and>
           set ms = missing_set f {root} \<and> mem_usable R view good cap s' \<and>
           view (fst s') = (\<lambda>l. if l \<in> sent_links f bs root then projr (f l) else view (fst s) l)"
proof (rule mem.extract_outcome [OF assms(1-5)])
  fix s' e l x
  assume "needed f {root} l" "f l = Inl x"
  with assms(6) show ?thesis by simp
next
  fix s' ms newdlgs
  assume ex: "ExtractInvocation n L U root msg (MemoryDelegationCache R) s = Ret (Inl (MissingProofs ms), s')"
    and u: "mem_usable R view good cap s'" and ms: "set ms = missing_set f {root}"
    and d: "\<forall>l. needed f {root} l \<longrightarrow> (\<exists>x. f l = Inr x)"
    and nd: "set newdlgs = found_set f {root} (\<lambda>l. br_Get bs l \<noteq> None)"
    and c: "\<exists>s1. mem_usable R view good cap s1 \<and> view (fst s1) = view (fst s) \<and>
              cache_all (MemoryDelegationCache R) newdlgs s1 = Ret (None, s')"
  have k: "dlg_Link d = l" if "f l = Inr (Some d)" for l d
    by (rule resolved_link [OF assms(2) _ that [unfolded assms(3)]]) (rule mem.keyed [OF assms(1)])
  have "br_Get bs l \<noteq> None \<Longrightarrow> f l \<noteq> Inr None" for l
    by (auto simp: assms(3) resolved_cases split: option.splits sum.splits)
  note sent = found_sent [OF k d this]
  from c obtain s1 where s1: "mem_usable R view good cap s1" "view (fst s1) = view (fst s)"
    "cache_all (MemoryDelegationCache R) newdlgs s1 = Ret (None, s')" by blast
  have "mem_room view cap (sent_links f bs root) s1" using assms(8) s1(2) by (simp add: mem_room_def)
  moreover have "dlg_Link ` set newdlgs \<subseteq> sent_links f bs root" using sent nd by simp
  moreover have "\<forall>d \<in> set newdlgs. projr (f (dlg_Link d)) = Some d" using k nd by (force simp: found_set_def)
  ultimately have "\<exists>s2. cache_all (MemoryDelegationCache R) newdlgs s1 = Ret (None, s2) \<and> mem_usable R view good cap s2 \<and>
      mem_room view cap (sent_links f bs root) s2 \<and>
      view (fst s2) = (\<lambda>l. if l \<in> dlg_Link ` set newdlgs then projr (f l) else view (fst s1) l)"
    by (rule mem.cache_all_keeps [OF s1(1)])
  then show ?thesis using ex u ms s1 sent nd by auto
qed (use assms(7) in simp)

text \<open>The blocks the complete invocation is made of: the ones of the message and the exported ones.\<close>

definition gathered_blocks :: "nat \<Rightarrow> extlib \<Rightarrow> ucanlib \<Rightarrow> (link \<Rightarrow> err + delegation option) \<Rightarrow> blockreader \<Rightarrow> link \<Rightarrow> block set" where
  "gathered_blocks n L U f bs root =
     {b. br_Get bs (blk_link b) = Some b} \<union>
     {b. \<exists>d bl. d \<in> found_set f {root} (\<lambda>_. True) \<and> exports n L U d bl \<and> b \<in> set bl}"

lemma extract_complete:
  assumes "mem_usable R view good cap s" "NewBlockStore [] (msg_Blocks msg) = Inr bs"
    and "f = resolved L U bs (view (fst s))" "weighs f {root} w" "w root \<le> n"
    and "\<forall>l e. needed f {root} l \<longrightarrow> f l \<noteq> Inl e" "missing_set f {root} = {}"
    and "\<forall>d \<in> found_set f {root} (\<lambda>_. True). dlg_decode L U (dl_rt d) = Inr (dl_ucan d) \<and> (\<exists>bl. exports n L U d bl)"
    and "inj_on blk_link (gathered_blocks n L U f bs root)"
  shows "\<exists>ivk s'. ExtractInvocation n L U root msg (MemoryDelegationCache R) s = Ret (Inr ivk, s') \<and>
           view (fst s') = view (fst s) \<and> dlg_Link ivk = root \<and>
           (\<forall>l. needed f {root} l \<longrightarrow> (\<exists>d e. f l = Inr (Some d) \<and>
              NewDelegationView L U l (dl_blks ivk) = Inr e \<and> dl_rt e = dl_rt d \<and> dl_ucan e = dl_ucan d \<and>
              (l = root \<longrightarrow> e = ivk)))"
proof (rule mem.extract_outcome [OF assms(1-5)])
  fix s' e l x
  assume "needed f {root} l" "f l = Inl x"
  with assms(6) show ?thesis by simp
next
  fix s' ms newdlgs
  assume "set ms = missing_set f {root}" "ms \<noteq> []"
  with assms(7) show ?thesis by simp
next
  fix s' dlgs
  assume ex: "ExtractInvocation n L U root msg (MemoryDelegationCache R) s =
       sbind (slift (put_delegations n L U dlgs bs)) (\<lambda>p. case p of
          Inl e \<Rightarrow> sret (Inl (ExtractFailed e))
        | Inr bs' \<Rightarrow> sret (map_sum ExtractFailed id (NewInvocationView L U root bs'))) s'"
    and v: "view (fst s') = view (fst s)" and d: "\<forall>l. needed f {root} l \<longrightarrow> (\<exists>x. f l = Inr x)"
    and ds: "set dlgs = found_set f {root} (\<lambda>_. True)"
  have wf: "wf_store bs" using assms(2) store.inv_puts [OF store.inv_empty] by (auto simp: NewBlockStore_Inr)
  obtain bl where bl: "put_delegations n L U dlgs bs = Ret (Inr (foldl bs_Put bs bl))"
    "\<forall>b. b \<in> set bl \<longleftrightarrow> (\<exists>d \<in> set dlgs. \<exists>x. exports n L U d x \<and> b \<in> set x)"
    using put_delegations_ok [of dlgs n L U bs] assms(8) ds by auto
  define bs' where "bs' = foldl bs_Put bs bl"
  have blocks: "b \<in> gathered_blocks n L U f bs root" if "br_Get bs' l = Some b" for l b
  proof -
    have "br_Get bs l = Some b \<or> find (\<lambda>b. blk_link b = l) bl = Some b"
      using that by (auto simp: bs'_def store.get_puts [OF wf] split: option.splits)
    moreover have "blk_link b = l" if "br_Get bs l = Some b" using that wf by (simp add: wf_store_def br_Get_def)
    ultimately show ?thesis
      using bl(2) ds find_Some_link [of l bl b] by (auto simp: gathered_blocks_def)
  qed
  have got: "br_Get bs' l = Some (dl_rt d)" if l: "needed f {root} l" "f l = Inr (Some d)" for l d
  proof -
    have k: "dlg_Link d = l"
      by (rule resolved_link [OF assms(2) _ l(2) [unfolded assms(3)]]) (rule mem.keyed [OF assms(1)])
    have "d \<in> set dlgs" using l ds by (auto simp: found_set_def)
    then obtain x where x: "exports n L U d x" "dl_rt d \<in> set x"
      using assms(8) ds export_has_root by blast
    then have i: "dl_rt d \<in> set bl" "dl_rt d \<in> gathered_blocks n L U f bs root"
      using bl(2) \<open>d \<in> set dlgs\<close> ds by (auto simp: gathered_blocks_def)
    then have "find (\<lambda>b. blk_link b = l) bl \<noteq> None" using k unfolding find_link_None by (auto simp: dlg_Link_def)
    then obtain b where b: "br_Get bs' l = Some b"
      by (cases "br_Get bs l") (auto simp: bs'_def store.get_puts [OF wf])
    moreover have "wf_store bs'" unfolding bs'_def by (rule store.inv_puts [OF wf])
    then have "blk_link b = l" using b by (simp add: wf_store_def br_Get_def)
    ultimately show ?thesis
      using inj_onD [OF assms(9) _ blocks [OF b] i(2)] k by (simp add: dlg_Link_def)
  qed
  have seen: "\<exists>d e. f l = Inr (Some d) \<and> NewDelegationView L U l bs' = Inr e \<and> dl_rt e = dl_rt d \<and>
      dl_ucan e = dl_ucan d \<and> dlg_Link e = l \<and> dl_blks e = bs'" if l: "needed f {root} l" for l
  proof -
    from d l obtain x where x: "f l = Inr x" by blast
    have "x \<noteq> None" using assms(7) l x by (auto simp: missing_set_def)
    with x obtain d where d: "f l = Inr (Some d)" by auto
    have "dlg_Link d = l"
      by (rule resolved_link [OF assms(2) _ d [unfolded assms(3)]]) (rule mem.keyed [OF assms(1)])
    moreover have "dlg_decode L U (dl_rt d) = Inr (dl_ucan d)" using assms(8) d l by (auto simp: found_set_def)
    ultimately show ?thesis using got [OF l d] d by (auto simp: NewDelegationView_Inr dlg_Link_def)
  qed
  from seen [OF needed_root] obtain e where e: "NewDelegationView L U root bs' = Inr e" "dlg_Link e = root" "dl_blks e = bs'"
    by auto
  have "ExtractInvocation n L U root msg (MemoryDelegationCache R) s = Ret (Inr e, s')"
    using e(1) by (simp add: ex bl(1) bs'_def NewInvocationView_def)
  with v e seen show ?thesis by fastforce
qed

section \<open>The contract of a retrieval service\<close>

text \<open>
  As for a server: methods that change what \<open>view\<close> shows only for invocations that pass a guard, and a
  cache that does not change it.
\<close>

lemma act_extract_error:
  "case_extract_error f g x s = Ret y \<longleftrightarrow>
     (\<exists>e. x = ExtractFailed e \<and> f e s = Ret y) \<or> (\<exists>ls. x = MissingProofs ls \<and> g ls s = Ret y)"
  by (cases x) auto

definition keeps :: "('s \<Rightarrow> 'v) \<Rightarrow> ('s, 'a) act \<Rightarrow> bool" where
  "keeps view m \<longleftrightarrow> (\<forall>s r s'. m s = Ret (r, s') \<longrightarrow> view s' = view s)"

lemma keepsD: "keeps view m \<Longrightarrow> m s = Ret (r, s') \<Longrightarrow> view s' = view s"
  by (simp add: keeps_def)

lemma keeps_intros:
  "keeps view (sret x)" "keeps view (slift c)"
  "keeps view m \<Longrightarrow> (\<And>x. keeps view (k x)) \<Longrightarrow> keeps view (sbind m k)"
  "(\<And>e. keeps view (f e)) \<Longrightarrow> (\<And>v. keeps view (g v)) \<Longrightarrow> keeps view (case_sum f g y)"
  "keeps view n \<Longrightarrow> (\<And>v. keeps view (h v)) \<Longrightarrow> keeps view (case_option n h z)"
  "keeps view n \<Longrightarrow> keeps view n' \<Longrightarrow> keeps view (if b then n else n')"
  "(\<And>a b. keeps view (q a b)) \<Longrightarrow> keeps view (case_prod q w)"
  "(\<And>e. keeps view (i e)) \<Longrightarrow> (\<And>l. keeps view (j l)) \<Longrightarrow> keeps view (case_extract_error i j x')"
  by (fastforce simp: keeps_def split: sum.splits option.splits prod.splits extract_error.splits)+

definition unseen_store :: "('s \<Rightarrow> 'v) \<Rightarrow> 's dlg_store \<Rightarrow> bool" where
  "unseen_store view cache \<longleftrightarrow> (\<forall>l. keeps view (ds_Get cache l)) \<and> (\<forall>d. keeps view (ds_Put cache d))"

lemma extract_loop_unseen:
  "unseen_store view cache \<Longrightarrow> keeps view (extract_loop n L U cache bs ls acc)"
proof (induction n arbitrary: ls acc)
  case 0
  then show ?case by (cases ls) (auto intro!: keeps_intros)
next
  case (Suc n)
  then show ?case by (cases ls; cases acc) (auto intro!: keeps_intros simp: unseen_store_def)
qed

lemma cache_all_unseen: "unseen_store view cache \<Longrightarrow> keeps view (cache_all cache ds)"
  by (induction ds) (auto intro!: keeps_intros simp: unseen_store_def)

lemma extract_unseen: "unseen_store view cache \<Longrightarrow> keeps view (ExtractInvocation n L U root msg cache)"
  unfolding ExtractInvocation_def by (intro keeps_intros extract_loop_unseen cache_all_unseen)

lemma issue_frames:
  "keeps view (ret_issue X srv out l opts)" "keeps view (ret_issue_failure X srv e resp l)"
  "keeps view (issue_count_errors X srv ls)"
proof -
  show *: "keeps view (ret_issue X srv out l opts)" for out l opts
    unfolding ret_issue_def by (intro keeps_intros)
  show "keeps view (ret_issue_failure X srv e resp l)"
    unfolding ret_issue_failure_def by (intro keeps_intros *)
  show "keeps view (issue_count_errors X srv ls)"
    by (induction ls) (auto intro!: keeps_intros *)
qed

locale guarded_retrieval =
  fixes service :: "string \<rightharpoonup> 's ret_method"
    and guard :: "string \<Rightarrow> delegation \<Rightarrow> server_context \<Rightarrow> bool"
    and view :: "'s \<Rightarrow> 'v"
  assumes unguarded: "service can = Some m \<Longrightarrow> m ivk ctx req s = Ret (r, s') \<Longrightarrow> \<not> guard can ivk ctx \<Longrightarrow> view s' = view s"
begin

lemma run_unseen:
  assumes "quiet view (rv_server srv)" "rv_service srv = service" "\<not> passes guard (sv_context (rv_server srv)) ivk"
  shows "keeps view (ret_Run X srv ivk req)"
proof -
  have c: "keeps view (sv_catch (rv_server srv) e)" "keeps view (srv_LogReceipt (rv_server srv) rcpt ivk)" for e rcpt
    using assms(1) by (auto simp: quiet_def keeps_def)
  have m: "keeps view (m ivk (sv_context (rv_server srv)) req)"
    if l: "length (dlg_Capabilities ivk) = 1" and m: "rv_service srv (cp_Can (hd (dlg_Capabilities ivk))) = Some m" for m
  proof -
    obtain cap where "dlg_Capabilities ivk = [cap]" using l by (cases "dlg_Capabilities ivk") auto
    with m assms(2,3) have "service (cp_Can cap) = Some m" "\<not> guard (cp_Can cap) ivk (sv_context (rv_server srv))"
      by (auto simp: passes_def)
    then show ?thesis unfolding keeps_def by (blast dest: unguarded)
  qed
  show ?thesis
  proof (cases "length (dlg_Capabilities ivk) = 1")
    case True
    then show ?thesis
      by (cases "rv_service srv (cp_Can (hd (dlg_Capabilities ivk)))")
         (auto simp: ret_Run_def Let_def intro!: keeps_intros issue_frames c m)
  qed (simp add: ret_Run_def Let_def issue_frames)
qed

lemma handle_changes:
  assumes "quiet view (rv_server srv)" "rv_service srv = service" "unseen_store view (rv_cache srv)"
    and "ret_Handle X srv req s = Ret (r, s')" "view s' \<noteq> view s"
  obtains sel msg root ivk s2 where "sv_codec (rv_server srv) req = Inr sel" "ac_Decode sel req = Ret (Inr msg)"
    "msg_Invocations msg = [root]"
    "ExtractInvocation (re_fuel X) (re_L X) (re_U X) root msg (rv_cache srv) s = Ret (Inr ivk, s2)"
    "passes guard (sv_context (rv_server srv)) ivk"
proof -
  let ?rq = "\<lparr> rq_URL = rq_url req, rq_Headers = rq_headers req \<rparr>"
  obtain r1 where "ret_handle X srv req s = Ret (r1, s')"
    using assms(4) by (auto simp: ret_Handle_def act_case Let_def)
  then obtain sel msg x where sel: "sv_codec (rv_server srv) req = Inr sel" "ac_Decode sel req = Ret (Inr msg)"
    and len: "length (msg_Invocations msg) = 1" and x: "ret_Execute X srv msg ?rq s = Ret (x, s')"
    using assms(5) by (auto simp: ret_handle_def act_case Let_def split: if_splits dest: keepsD [OF issue_frames(3)])
  obtain root where root: "msg_Invocations msg = [root]" using len by (cases "msg_Invocations msg") auto
  obtain ivk s1 z where ivk: "ExtractInvocation (re_fuel X) (re_L X) (re_U X) root msg (rv_cache srv) s = Ret (Inr ivk, s1)"
    and z: "ret_Run X srv ivk ?rq s1 = Ret (z, s')"
    using x root assms(5)
    by (auto simp: ret_Execute_def act_case act_extract_error dest: keepsD [OF extract_unseen [OF assms(3)]])
  have "view s1 = view s" by (rule keepsD [OF extract_unseen [OF assms(3)] ivk])
  with assms(5) z have "\<not> keeps view (ret_Run X srv ivk ?rq)" by (metis keepsD)
  with run_unseen [OF assms(1,2)] that [OF sel root ivk] show thesis by blast
qed

end

section \<open>The contract met by retrieval providers\<close>

type_synonym 's ret_provider_list = "(string \<times> descriptor \<times> 's ret_handler) list"

definition ret_provided :: "'s srvenv \<Rightarrow> 's ret_provider_list \<Rightarrow> string \<rightharpoonup> 's ret_method" where
  "ret_provided E ps can = map_option (\<lambda>(desc, h). ret_method_of (ret_Provide E desc h)) (map_of (rev ps) can)"

definition ret_provide_options :: "'s srvenv \<Rightarrow> 's ret_provider_list \<Rightarrow> 's ret_option list" where
  "ret_provide_options E ps = map (\<lambda>(can, desc, h). ret_WithServiceMethod can (ret_Provide E desc h)) ps"

lemma ret_Provide_Ret:
  assumes "ret_Provide E desc h ivk ctx req s = Ret ((r, resp), s')"
  shows "(\<exists>auth x. admits E desc ivk ctx auth \<and> h (auth_Capability auth) ivk ctx req s = Ret ((x, resp), s') \<and>
            (case x of Inl e \<Rightarrow> r = Inl e
             | Inr (res, fx) \<Rightarrow> res \<noteq> nilResult \<and> r = Inr (Some \<lparr> tx_Out = res, tx_Fx = fx \<rparr>))) \<or>
         s' = s \<and> resp = no_response \<and> (\<nexists>auth. admits E desc ivk ctx auth) \<and>
           (\<exists>n. r = Inr (Some \<lparr> tx_Out = errResult n, tx_Fx = None \<rparr>))"
proof -
  have "Provide E desc (\<lambda>cap ivk ictx (s, _). cmap (\<lambda>((r, res), s'). (r, (s', res))) (h cap ivk ictx req s)) ivk ctx
      (s, no_response) = Ret (r, (s', resp))"
    using assms by (auto simp: ret_Provide_def cmap_eq_Ret)
  from Provide_Ret [OF this] show ?thesis by (auto simp: cmap_eq_Ret)
qed

lemma ret_method_of_Ret: "ret_method_of m ivk ctx req s = Ret (r, s') \<Longrightarrow> m ivk ctx req s = Ret (r, s')"
  by (auto simp: ret_method_of_def same_result_Ret NewTransaction_def act_case split: prod.splits)

interpretation ret_providers: guarded_retrieval "ret_provided E ps"
  "\<lambda>can ivk ctx. \<exists>desc h auth. (can, desc, h) \<in> set ps \<and> admits E desc ivk ctx auth" view for E ps view
proof
  fix can m ivk ctx req s r s'
  assume m: "ret_provided E ps can = Some m" "m ivk ctx req s = Ret (r, s')"
    and g: "\<not> (\<exists>desc h auth. (can, desc, h) \<in> set ps \<and> admits E desc ivk ctx auth)"
  from m(1) obtain desc h where d: "map_of (rev ps) can = Some (desc, h)" "m = ret_method_of (ret_Provide E desc h)"
    by (auto simp: ret_provided_def)
  from d(1) have "(can, desc, h) \<in> set ps" by (auto dest: map_of_SomeD)
  moreover obtain t resp where r: "r = (t, resp)" by (cases r)
  ultimately show "view s' = view s"
    using ret_Provide_Ret [OF ret_method_of_Ret [OF m(2) [unfolded d(2) r]]] g by auto
qed

section \<open>What a retrieval request does\<close>

definition keeps_ret_service :: "'s ret_option \<Rightarrow> bool" where
  "keeps_ret_service opt \<longleftrightarrow> (\<forall>cfg cfg'. opt cfg = Inr cfg' \<longrightarrow> rg_service cfg' = rg_service cfg)"

lemma keeps_ret_service_options:
  "keeps_ret_service (ret_WithRevocationChecker f1)" "keeps_ret_service (ret_WithErrorHandler f2)"
  "keeps_ret_service (ret_WithReceiptLogger f3)" "keeps_ret_service (ret_WithCanIssue f4)"
  "keeps_ret_service (ret_WithProofResolver f5)" "keeps_ret_service (ret_WithPrincipalParser f6)"
  "keeps_ret_service (ret_WithPrincipalResolver f7)" "keeps_ret_service (ret_WithAuthorityProofs ds)"
  "keeps_ret_service (ret_WithAlternativeAudiences as)" "keeps_ret_service (WithDelegationCache dc)"
  by (auto simp: keeps_ret_service_def ret_WithRevocationChecker_def ret_WithErrorHandler_def
      ret_WithReceiptLogger_def ret_WithCanIssue_def ret_WithProofResolver_def ret_WithPrincipalParser_def
      ret_WithPrincipalResolver_def ret_WithAuthorityProofs_def ret_WithAlternativeAudiences_def WithDelegationCache_def)

lemma apply_ret_options_append:
  "apply_ret_options (as @ bs) cfg = (case apply_ret_options as cfg of Inl e \<Rightarrow> Inl e | Inr c \<Rightarrow> apply_ret_options bs c)"
  by (induction as arbitrary: cfg) (auto split: sum.split)

lemma apply_ret_others:
  "\<forall>opt \<in> set opts. keeps_ret_service opt \<Longrightarrow> apply_ret_options opts cfg = Inr cfg' \<Longrightarrow> rg_service cfg' = rg_service cfg"
  by (induction opts arbitrary: cfg) (auto simp: keeps_ret_service_def case_sum_eq)

lemma apply_ret_provide_options:
  "\<exists>cfg'. apply_ret_options (ret_provide_options E ps) cfg = Inr cfg' \<and> rg_service cfg' = rg_service cfg ++ ret_provided E ps \<and>
     rg_delegationCache cfg' = rg_delegationCache cfg"
proof (induction ps arbitrary: cfg)
  case (Cons p ps)
  obtain can desc h where p: "p = (can, desc, h)" by (cases p) auto
  let ?cfg = "cfg\<lparr> rg_service := (rg_service cfg)(can \<mapsto> ret_method_of (ret_Provide E desc h)) \<rparr>"
  have "rg_service ?cfg ++ ret_provided E ps = rg_service cfg ++ ret_provided E (p # ps)"
    by (rule ext) (auto simp: ret_provided_def p map_add_def split: option.splits)
  moreover obtain cfg' where "apply_ret_options (ret_provide_options E ps) ?cfg = Inr cfg'"
    "rg_service cfg' = rg_service ?cfg ++ ret_provided E ps" "rg_delegationCache cfg' = rg_delegationCache ?cfg"
    using Cons.IH by blast
  moreover have "ret_provide_options E (p # ps) = ret_WithServiceMethod can (ret_Provide E desc h) # ret_provide_options E ps"
    by (simp add: ret_provide_options_def p)
  ultimately show ?case by (intro exI [of _ cfg']) (simp add: ret_WithServiceMethod_def)
qed (simp add: ret_provide_options_def ret_provided_def map_add_def)

lemma ret_NewServer_parts:
  assumes "ret_NewServer X ident (others @ ret_provide_options (re_E X) ps) = Inr (srv, dc)"
    and "\<forall>opt \<in> set others. keeps_ret_service opt"
  shows "rv_service srv = ret_provided (re_E X) ps" "sv_id (rv_server srv) = ident"
    "cx_id (sv_context (rv_server srv)) = ident" "cx_altAudiences (sv_context (rv_server srv)) = []"
    "sv_codec (rv_server srv) = hcar_inbound (re_L X) (se_K (re_E X)) (re_H X) (re_C X)"
proof -
  obtain cfg cfg' scfg where c: "apply_ret_options others ret_config0 = Inr cfg"
    "apply_ret_options (ret_provide_options (re_E X) ps) cfg = Inr cfg'" "rv_service srv = rg_service cfg'"
    and n: "NewServer (re_E X) ident (wrapped_options X cfg') = Inr (rv_server srv)"
    using assms(1)
    by (auto simp: ret_NewServer_def apply_ret_options_append case_sum_eq' case_option_eq' split: option.split_asm sum.split_asm)
  moreover have "rg_service cfg = Map.empty" using apply_ret_others [OF assms(2) c(1)] by (simp add: ret_config0_def)
  ultimately show "rv_service srv = ret_provided (re_E X) ps" using apply_ret_provide_options [of "re_E X" ps cfg] by auto
  have "\<exists>scfg. apply_srv_options (wrapped_options X cfg') srvConfig0 = Inr scfg \<and> sc_altAudiences scfg = [] \<and>
      sc_codec scfg = Some (hcar_inbound (re_L X) (se_K (re_E X)) (re_H X) (re_C X))"
    by (auto simp: wrapped_options_def option_to_list_def srvConfig0_def WithInboundCodec_def WithCanIssue_def
        WithErrorHandler_def WithReceiptLogger_def WithRevocationChecker_def WithProofResolver_def
        WithPrincipalParser_def WithPrincipalResolver_def WithAuthorityProofs_def split: option.split)
  with n show "sv_id (rv_server srv) = ident" "cx_id (sv_context (rv_server srv)) = ident"
    "cx_altAudiences (sv_context (rv_server srv)) = []"
    "sv_codec (rv_server srv) = hcar_inbound (re_L X) (se_K (re_E X)) (re_H X) (re_C X)"
    by (auto simp: NewServer_def Let_def or_default_def eq_commute [of _ "rv_server srv"])
qed

text \<open>
  C9. A retrieval request changes the world only as far as someone was allowed to. When handling one
  changes what \<open>view\<close> shows, a view that the cache does not change, the message in its headers asks for one
  invocation, all of whose proofs were in the message or in the cache; it has one capability, for which a
  provider was configured; the audience it names is the server itself, whatever alternative audiences
  were configured; and it is the top of a chain of delegations, each in time, verified and covered by the
  next, down to one whose issuer may issue its capability, and the whole was not revoked.
\<close>

theorem retrieval_changes_authorised:
  assumes "order_ok (se_V (re_E X))"
    and "ret_NewServer X ident (others @ ret_provide_options (re_E X) ps) = Inr (srv, dc)"
    and "\<forall>opt \<in> set others. keeps_ret_service opt"
    and "quiet view (rv_server srv)" and "unseen_store view (rv_cache srv)"
    and "ret_Handle X srv req s = Ret (r, s')" and "view s' \<noteq> view s"
  shows "\<exists>sel msg root ivk s1 cap desc h a t.
           sv_codec (rv_server srv) req = Inr sel \<and> ac_Decode sel req = Ret (Inr msg) \<and> msg_Invocations msg = [root] \<and>
           ExtractInvocation (re_fuel X) (re_L X) (re_U X) root msg (rv_cache srv) s = Ret (Inr ivk, s1) \<and>
           dlg_Capabilities ivk = [cap] \<and> (cp_Can cap, desc, h) \<in> set ps \<and>
           did_String (re_L X) (dlg_Audience (re_L X) ivk) = Ret t \<and> did_String (re_L X) (ps_DID ident) = Ret t \<and>
           (let C = fst (provider_context (sv_context (rv_server srv)) desc)
            in auth_dlg a = ivk \<and> list_all (in_force (se_V (re_E X)) C) (auth_chain a) \<and>
               successively (passed_on (se_V (re_E X)) C) (auth_chain a) \<and>
               issued_by_owner (se_V (re_E X)) C (last (auth_chain a)) \<and> cc_validateAuthorization C a = Ret None)"
proof -
  note srv = ret_NewServer_parts [OF assms(2,3)]
  obtain sel msg root ivk s1 where m: "sv_codec (rv_server srv) req = Inr sel" "ac_Decode sel req = Ret (Inr msg)"
    "msg_Invocations msg = [root]"
    "ExtractInvocation (re_fuel X) (re_L X) (re_U X) root msg (rv_cache srv) s = Ret (Inr ivk, s1)"
    and p: "passes (\<lambda>can ivk ctx. \<exists>desc h auth. (can, desc, h) \<in> set ps \<and> admits (re_E X) desc ivk ctx auth)
      (sv_context (rv_server srv)) ivk"
    by (rule ret_providers.handle_changes [OF assms(4) srv(1) assms(5,6,7)])
  from p obtain cap desc h a where a: "dlg_Capabilities ivk = [cap]" "(cp_Can cap, desc, h) \<in> set ps"
    "admits (re_E X) desc ivk (sv_context (rv_server srv)) a"
    by (auto simp: passes_def)
  obtain t where "did_String (re_L X) (dlg_Audience (re_L X) ivk) = Ret t" "did_String (re_L X) (ps_DID ident) = Ret t"
    using a(3) by (auto simp: admits_def audience_accepted_def srv)
  moreover note access_chain [OF assms(1), of "se_fuel (re_E X)" "fst (provider_context (sv_context (rv_server srv)) desc)" desc ivk a]
  ultimately show ?thesis using m a(1,2) a(3) [unfolded admits_def]
    by (intro exI [of _ sel] exI [of _ msg] exI [of _ root] exI [of _ ivk] exI [of _ s1] exI [of _ cap] exI [of _ desc]
        exI [of _ h] exI [of _ a] exI [of _ t]) (simp add: Let_def)
qed

text \<open>
  C16. When nothing is missing, extracting gives the invocation with everything it needs: it is the one with
  the requested link, and the proofs that were resolved, from the message or from the cache, are all found
  by their links in its blocks, with the same root block and the same contents. It needs fuel for the
  paths through the proofs, blocks that decode and export, and that blocks with the same link are the same.
\<close>

theorem extract_completes:
  assumes "mem_usable R view good cap s" "NewBlockStore [] (msg_Blocks msg) = Inr bs"
    and "f = resolved L U bs (view (fst s))" "weighs f {root} w" "w root \<le> n"
    and "\<forall>l e. needed f {root} l \<longrightarrow> f l \<noteq> Inl e" "missing_set f {root} = {}"
    and "\<forall>d \<in> found_set f {root} (\<lambda>_. True). dlg_decode L U (dl_rt d) = Inr (dl_ucan d) \<and> (\<exists>bl. exports n L U d bl)"
    and "inj_on blk_link (gathered_blocks n L U f bs root)"
  shows "\<exists>ivk s'. ExtractInvocation n L U root msg (MemoryDelegationCache R) s = Ret (Inr ivk, s') \<and>
           view (fst s') = view (fst s) \<and> dlg_Link ivk = root \<and>
           (\<forall>l. needed f {root} l \<longrightarrow> (\<exists>d e. f l = Inr (Some d) \<and>
              NewDelegationView L U l (dl_blks ivk) = Inr e \<and> dl_rt e = dl_rt d \<and> dl_ucan e = dl_ucan d \<and>
              (l = root \<longrightarrow> e = ivk)))"
  using assms by (rule extract_complete)

lemma mem_unseen: "unseen_store snd (MemoryDelegationCache R)"
  by (auto simp: unseen_store_def keeps_def MemoryDelegationCache_def mem_Get_def mem_Put_def
      split: prod.splits)

lemma vary_simps:
  "CanonicalHeaderKey ''Vary'' = ''Vary''" "CanonicalHeaderKey ''Content-Type'' = ''Content-Type''"
  "CanonicalHeaderKey ''X-UCAN-Cache-Expiry'' = ''X-Ucan-Cache-Expiry''"
  by code_simp+

lemma missing_answered:
  assumes "sv_codec (rv_server srv) req = Inr sel" "ac_Decode sel req = Ret (Inr msg)" "msg_Invocations msg = [root]"
    and "rv_cache srv = MemoryDelegationCache R" "mem_usable R view good cap s"
    and "NewBlockStore [] (msg_Blocks msg) = Inr bs" "f = resolved (re_L X) (re_U X) bs (view (fst s))"
    and "weighs f {root} w" "w root \<le> re_fuel X" "\<forall>l e. needed f {root} l \<longrightarrow> f l \<noteq> Inl e"
    and "missing_set f {root} \<noteq> {}" "mem_room view cap (sent_links f bs root) s"
    and "\<And>ls. rl_missing (re_T X) (missing_proofs_model_of ls) = Inr (node_of ls)"
    and "\<And>ls. rl_dagjson (re_T X) (node_of ls) = Inr (json_of ls)"
  shows "\<exists>ms h s'. ret_Handle X srv req s =
             Ret (Inr \<lparr> rs_status = 510, rs_headers = Some h, rs_body = Some (json_of ms, None) \<rparr>, s') \<and>
           set ms = missing_set f {root} \<and> hdr_Get h ''Vary'' = HeaderName \<and>
           hdr_Get h ''Content-Type'' = ''application/json'' \<and> snd s' = snd s \<and> mem_usable R view good cap s' \<and>
           view (fst s') = (\<lambda>l. if l \<in> sent_links f bs root then projr (f l) else view (fst s) l)"
proof -
  obtain ms s' where e: "ExtractInvocation (re_fuel X) (re_L X) (re_U X) root msg (MemoryDelegationCache R) s =
      Ret (Inl (MissingProofs ms), s')" and m: "set ms = missing_set f {root}" "mem_usable R view good cap s'"
    and v: "view (fst s') = (\<lambda>l. if l \<in> sent_links f bs root then projr (f l) else view (fst s) l)"
    using extract_reports_missing [OF assms(5-12)] by blast
  obtain h where h: "missing_response X ms = Inr \<lparr> rr_Status = 510, rr_Headers = Some h, rr_Body = Some (text_body (json_of ms)) \<rparr>"
    "h = hdr_Set (hdr_Set [] ''X-UCAN-Cache-Expiry'' (show_int (se_now (re_E X) + 10 * 60))) ''Content-Type'' ''application/json''"
    by (simp add: missing_response_def MissingProofs_ToIPLD_def assms(13,14) Let_def)
  let ?h = "hdr_Add h ''Vary'' HeaderName"
  have "ret_Handle X srv req s =
      Ret (Inr \<lparr> rs_status = 510, rs_headers = Some ?h, rs_body = Some (json_of ms, None) \<rparr>, s')"
    using assms(1-3) e h(1)
    by (simp add: ret_Handle_def ret_handle_def ret_Execute_def assms(4) http_NewResponse_def text_body_def
        sbind_def sret_def slift_def Let_def)
  moreover have "hdr_Get ?h ''Vary'' = HeaderName" "hdr_Get ?h ''Content-Type'' = ''application/json''"
    by (simp_all add: h(2) hdr_Add_def hdr_Set_def hdr_Get_def vary_simps hdr_values_def Let_def)
  moreover have "snd s' = snd s" by (rule keepsD [OF extract_unseen [OF mem_unseen] e])
  ultimately show ?thesis using m v by blast
qed

text \<open>
  C15. A request whose invocation needs proofs that are neither in its message nor in the cache is answered
  with status 510, and a JSON body that lists exactly the links of those proofs; nothing but the cache
  changes, and that then holds, besides what it held, exactly the needed delegations of the message, so
  that they need not be sent again. It needs fuel for the paths through the proofs, blocks that decode,
  an error model that can be encoded, and an LRU with room for the delegations sent.
\<close>

theorem missing_proofs_requested:
  assumes "sv_codec (rv_server srv) req = Inr sel" "ac_Decode sel req = Ret (Inr msg)" "msg_Invocations msg = [root]"
    and "rv_cache srv = MemoryDelegationCache R" "mem_usable R view good cap s"
    and "NewBlockStore [] (msg_Blocks msg) = Inr bs" "f = resolved (re_L X) (re_U X) bs (view (fst s))"
    and "weighs f {root} w" "w root \<le> re_fuel X" "\<forall>l e. needed f {root} l \<longrightarrow> f l \<noteq> Inl e"
    and "missing_set f {root} \<noteq> {}" "mem_room view cap (sent_links f bs root) s"
    and "\<And>ls. rl_missing (re_T X) (missing_proofs_model_of ls) = Inr (node_of ls)"
    and "\<And>ls. rl_dagjson (re_T X) (node_of ls) = Inr (json_of ls)"
  shows "\<exists>ms h s'. ret_Handle X srv req s =
             Ret (Inr \<lparr> rs_status = 510, rs_headers = Some h, rs_body = Some (json_of ms, None) \<rparr>, s') \<and>
           set ms = missing_set f {root} \<and> hdr_Get h ''Vary'' = HeaderName \<and>
           hdr_Get h ''Content-Type'' = ''application/json'' \<and> snd s' = snd s \<and> mem_usable R view good cap s' \<and>
           view (fst s') = (\<lambda>l. if l \<in> sent_links f bs root then projr (f l) else view (fst s) l)"
  using assms by (rule missing_answered)

section \<open>A cache and an invocation with a proof, for the witnesses\<close>

type_synonym lru0 = "(string \<times> delegation) list"

definition lrulib0 :: "lru0 lrulib" where
  "lrulib0 = \<lparr> lr_New = (\<lambda>sz. Inr []),
     lr_Add = (\<lambda>k d c. take 100 ((k, d) # filter (\<lambda>e. fst e \<noteq> k) c)),
     lr_Get = (\<lambda>k c. case map_of c k of None \<Rightarrow> (None, c) | Some d \<Rightarrow> (Some d, (k, d) # filter (\<lambda>e. fst e \<noteq> k) c)) \<rparr>"

definition good0 :: "lru0 \<Rightarrow> bool" where
  "good0 c \<longleftrightarrow> distinct (map fst c) \<and> length c \<le> 100"

lemma map_of_filter_key: "map_of (filter (\<lambda>e. fst e \<noteq> k) c) l = (if l = k then None else map_of c l)"
  by (induction c) auto

lemma map_of_take: "map_of (take n xs) \<subseteq>\<^sub>m map_of xs"
  by (metis append_take_drop_id map_le_map_add map_of_append)

lemma lru_ok0: "lru_ok lrulib0 map_of good0 100"
  unfolding lru_ok_def
proof (intro allI impI conjI)
  fix c l d assume g: "good0 c"
  let ?f = "filter (\<lambda>e. fst e \<noteq> l) c"
  have d: "distinct (map fst ?f)" "l \<notin> fst ` set ?f" using g by (auto simp: good0_def distinct_map_filter)
  have m: "map_of ((l, d) # ?f) = (map_of c)(l \<mapsto> d)" by (rule ext) (simp add: map_of_filter_key)
  have "set (take 100 ((l, d) # ?f)) \<subseteq> set ((l, d) # ?f)" by (rule set_take_subset)
  show "finite (dom (map_of c))" by (rule finite_dom_map_of)
  show "fst (lr_Get lrulib0 l c) = map_of c l" by (simp add: lrulib0_def split: option.split)
  show "map_of (snd (lr_Get lrulib0 l c)) = map_of c"
    by (auto simp: lrulib0_def map_of_filter_key fun_eq_iff split: option.split)
  show "good0 (snd (lr_Get lrulib0 l c))"
  proof (cases "map_of c l")
    case (Some x)
    then have "length ?f < length c" by (intro length_filter_less [of "(l, x)"]) (auto dest: map_of_SomeD)
    with Some d g show ?thesis by (simp add: lrulib0_def good0_def)
  qed (use g in \<open>simp add: lrulib0_def\<close>)
  have "distinct (map fst ((l, d) # ?f))" using d by simp
  then have "distinct (map fst (take 100 ((l, d) # ?f)))" by (metis distinct_take take_map)
  then show "good0 (lr_Add lrulib0 l d c)" by (simp add: lrulib0_def good0_def)
  show "map_of (lr_Add lrulib0 l d c) l = Some d" by (simp add: lrulib0_def take_Cons')
  show "map_of (lr_Add lrulib0 l d c) \<subseteq>\<^sub>m (map_of c)(l \<mapsto> d)"
    using map_of_take [of 100 "(l, d) # ?f"] by (simp add: lrulib0_def m del: map_of.simps)
  assume k: "card (insert l (dom (map_of c))) \<le> 100"
  have "insert l (dom (map_of c)) = fst ` set ((l, d) # ?f)" by (force simp: dom_map_of_conv_image_fst)
  then have "length ((l, d) # ?f) = card (insert l (dom (map_of c)))"
    using distinct_card [of "map fst ((l, d) # ?f)"] d by simp
  with k have "lr_Add lrulib0 l d c = (l, d) # ?f" by (simp add: lrulib0_def)
  with m show "map_of (lr_Add lrulib0 l d c) = (map_of c)(l \<mapsto> d)" by (simp del: map_of.simps)
qed

definition retenv0 :: "ucan_model \<Rightarrow> (lru0 \<times> nat, lru0) retenv" where
  "retenv0 v = \<lparr> re_E = \<lparr> se_V = venv1 v, se_K = car0, se_R = se_R (env1 v), se_C = const_codec ''m'' data1,
       se_S = se_S (env1 v), se_F = se_F (env1 v), se_fuel = 1, se_now = 1000, se_stderr = (\<lambda>_. sret ()) \<rparr>,
     re_H = hcar0,
     re_T = \<lparr> rl_count = (\<lambda>_. Inr NNull), rl_missing = (\<lambda>m. Inr (NList (map NLink (mp_Proofs m)))),
              rl_dagjson = (\<lambda>n. Inr ''json'') \<rparr>,
     re_lru = lrulib0, re_fuel = 2 \<rparr>"

text \<open>A handler that counts its calls and answers with a part of a file.\<close>

definition ret_handler0 :: "(lru0 \<times> nat) ret_handler" where
  "ret_handler0 cap ivk ctx req s =
     Ret ((Inr (okResult (Inr (NString ''ok'')), None), NewResponse 206 None (Some (text_body ''part''))), (fst s, snd s + 1))"

definition ret_srv0 :: "ucan_model \<Rightarrow> (lru0 \<times> nat) ret_server" where
  "ret_srv0 v = (case ret_NewServer (retenv0 v) signer1 (ret_provide_options (re_E (retenv0 v)) [(''store/add'', ds0, ret_handler0)]) of
     Inr (srv, dc) \<Rightarrow> srv)"

lemma retenv0 [simp]:
  "ve_L (venv1 v) = lib0" "ve_U (venv1 v) = ucanlib0\<lparr> ul_cbor := table_codec 113 [(''u'', v)] \<rparr>"
  "re_C (retenv0 v) = const_codec ''m'' data1" "re_lru (retenv0 v) = lrulib0" "re_fuel (retenv0 v) = 2"
  "se_K (re_E (retenv0 v)) = car0" "re_H (retenv0 v) = hcar0" "se_fuel (re_E (retenv0 v)) = 1"
  "se_V (re_E (retenv0 v)) = venv1 v" "se_R (re_E (retenv0 v)) = se_R (env1 v)"
  by (simp_all add: retenv0_def venv1_def)

lemma ret_srv0:
  shows "ret_NewServer (retenv0 v) signer1 ([] @ ret_provide_options (re_E (retenv0 v)) [(''store/add'', ds0, ret_handler0)]) =
      Inr (ret_srv0 v, Some [])"
    and "rv_cache (ret_srv0 v) = MemoryDelegationCache lrulib0"
    and "srv_LogReceipt (rv_server (ret_srv0 v)) r i = sret None" and "quiet snd (rv_server (ret_srv0 v))"
    and "owned_context (fst (provider_context (sv_context (rv_server (ret_srv0 v))) ds0))"
  by (auto simp: ret_srv0_def ret_NewServer_def ret_provide_options_def ret_WithServiceMethod_def ret_config0_def
      NewMemoryDelegationCache_def lrulib0_def wrapped_options_def option_to_list_def WithInboundCodec_def
      MemoryDelegationCacheSize_def NewServer_def srvConfig0_def Let_def
      or_default_def venv1_def srv_LogReceipt_def quiet_def stderr_catch_def provider_context_def retenv0_def
      NewValidationContext_def NewClaimContext_def owned_context_def signer1_def ps_DID_def verifier0_def)

lemmas ret_srv0_parts = ret_NewServer_parts [OF ret_srv0(1), simplified]

lemma request0:
  obtains req m' where "sv_codec (rv_server (ret_srv0 v)) req = Inr (hcar_accept lib0 car0 hcar0 (const_codec ''m'' data1))"
    "ac_Decode (hcar_accept lib0 car0 hcar0 (const_codec ''m'' data1)) req = Ret (Inr m')" "same_message msg1 m'"
proof -
  let ?C = "const_codec ''m'' data1"
  have s: "hcar_sendable lib0 car0 hcar0 ?C msg1"
    using sendable1 hcar0_ok by (simp add: hcar_sendable_def car_sendable_def)
  obtain b where b: "car_Encode car0 [blk_link (msg_Root msg1)] (msg_Blocks msg1) = (b, None)"
    using car_message_roundtrip [OF car0_ok, of ?C msg1] s by (auto simp: hcar_sendable_def)
  then obtain h where h: "EncodeHeader car0 hcar0 msg1 [-1] = Inr h" by (simp add: EncodeHeader_def read_all_def Let_def)
  obtain m' where m': "h \<noteq> []" "DecodeHeader lib0 car0 hcar0 ?C h = Inr m'" "same_message msg1 m'"
    using header_roundtrip [OF s h] by blast
  have g: "hdr_Get (rq_headers (http_NewRequest None (hdr_Set [] HeaderName h))) HeaderName = h"
    by (simp add: http_NewRequest_def hdr_Set_def hdr_Get_def hdr_values_def)
  show thesis
    by (rule that [of "http_NewRequest None (hdr_Set [] HeaderName h)" m'])
       (use m' in \<open>simp_all add: ret_srv0_parts hcar_inbound_def hcar_accept_def hcarreq_Decode_def g Let_def\<close>)
qed

lemma sent_message0:
  assumes "same_message msg1 m"
  shows "NewBlockStore [] (msg_Blocks m) = Inr store1" "msg_Invocations m = [blk_link (blk2 ''u'')]"
proof -
  have "NewBlockReader [] (br_Iterator store1) = Inr store1"
    using reader_of_store [OF store1_facts(1), of "[]"] by simp
  then show "NewBlockStore [] (msg_Blocks m) = Inr store1"
    using same_message_reads(2) [OF assms] by (simp add: NewBlockReader_eq_NewBlockStore msg_Blocks_def msg1_def)
  show "msg_Invocations m = [blk_link (blk2 ''u'')]"
    using same_message_reads(3) [OF assms] by (simp add: msg_Invocations_def msg1_def data1_def)
qed

lemma decoded0:
  "NewDelegation lib0 (ucanlib0\<lparr> ul_cbor := table_codec 113 [(''u'', v)] \<rparr>) (blk2 ''u'') store1 = Inr (ivk1 v)"
  using block_u(2) [of v] by (simp add: NewDelegation_def NewBlockStore_def dlg_decode_def NewUCAN_def ivk1_def)

lemma extract0:
  assumes "um_Prf v = []" "same_message msg1 m"
  shows "ExtractInvocation 2 lib0 (ucanlib0\<lparr> ul_cbor := table_codec 113 [(''u'', v)] \<rparr>) (blk_link (blk2 ''u'')) m
           (MemoryDelegationCache lrulib0) s = Ret (Inr (ivk1 v), s)"
proof -
  let ?U = "ucanlib0\<lparr> ul_cbor := table_codec 113 [(''u'', v)] \<rparr>"
  have "dlg_Export 2 lib0 ?U [] (ivk1 v) = Ret [Inr (blk2 ''u'')]"
    using assms(1) by (simp add: dlg_Export_def numeral_2_eq_2 ivk1_def ucan_Proofs_def seq_then_def store.iter_empty)
  moreover have "bs_Put store1 (blk2 ''u'') = store1"
    using store1_facts(4) by (simp add: bs_Put_old br_Get_def)
  ultimately have "put_delegations 2 lib0 ?U [ivk1 v] store1 = Ret (Inr store1)" by simp
  moreover have "dlg_Proofs (ivk1 v) = []" using assms(1) by (simp add: dlg_Proofs_def ucan_Proofs_def ivk1_def)
  ultimately show ?thesis
    using sent_message0 [OF assms(2)] store1_facts(4) decoded0 [of v]
    by (simp add: ExtractInvocation_def numeral_2_eq_2 NewInvocationView_def NewDelegationView_def sret_def
        del: put_delegations.simps)
qed

lemma ret_provided0:
  assumes "owner_ucan v"
  shows "ret_Provide (re_E (retenv0 v)) ds0 ret_handler0 (ivk1 v) (sv_context (rv_server (ret_srv0 v))) req (c, n) =
    Ret ((Inr (Some \<lparr> tx_Out = okResult (Inr (NString ''ok'')), tx_Fx = None \<rparr>), NewResponse 206 None (Some (text_body ''part''))),
         (c, n + 1))"
  unfolding ret_Provide_def
  by (subst provided_owner [OF assms, where s' = "((c, n + 1), NewResponse 206 None (Some (text_body ''part'')))"])
     (simp_all add: ret_srv0_parts ret_srv0(5) ret_handler0_def)

lemma ret_run0:
  assumes "owner_ucan v"
  obtains r resp where "ret_Run (retenv0 v) (ret_srv0 v) (ivk1 v) req (c, n) = Ret (Inr (r, resp), (c, n + 1))"
    "rcpt_key r = Some (dlg_Link (ivk1 v))" "wf_store (rp_blks r)"
proof -
  obtain sig where sig: "sg_Sign (signer0 (did0 ''s'')) ''ocm'' = Ret sig" using signer0_signs by blast
  have "\<exists>r. rcpt_Issue lib0 (se_R (env1 v)) (signer0 (did0 ''s'')) (okResult (Inr (NString ''ok'')))
      (ran_FromLink (Some (dlg_Link (ivk1 v)))) [] = Ret (Inr r)"
    using sig
    by (simp add: const_block rcpt_Issue_def NewBlockStore_def ran_WriteInto_def ran_Invocation_def ran_FromLink_def
        receiptConfig0_def join_WriteInto_def issue_meta_def MapResultR1_def MatchResultR2_def node_or_nil_def
        toResultModel_def MatchResultR1_def string_did0 signer0_def env1_def Let_def)
  then obtain r where r: "rcpt_Issue lib0 (se_R (env1 v)) (signer0 (did0 ''s'')) (okResult (Inr (NString ''ok'')))
      (ran_FromLink (Some (dlg_Link (ivk1 v)))) [] = Ret (Inr r)" by blast
  note i = rcpt_issued [OF r]
  have k: "rcpt_key r = Some (dlg_Link (ivk1 v))" using i(1) by (simp add: rcpt_key_def ran_Link_def ran_FromLink_def)
  have "ret_method_of (ret_Provide (re_E (retenv0 v)) ds0 ret_handler0) (ivk1 v) (sv_context (rv_server (ret_srv0 v))) req (c, n) =
      Ret ((Inr (Some \<lparr> tx_Out = okResult (Inr (NString ''ok'')), tx_Fx = None \<rparr>), NewResponse 206 None (Some (text_body ''part''))),
         (c, n + 1))"
    by (simp add: ret_method_of_def ret_provided0 [OF assms] NewTransaction_def sbind_def sret_def)
  moreover have "rv_service (ret_srv0 v) ''store/add'' = Some (ret_method_of (ret_Provide (re_E (retenv0 v)) ds0 ret_handler0))"
    by (simp add: ret_srv0_parts ret_provided_def)
  moreover have "dlg_Capabilities (ivk1 v) = [Ucan.NewCapability ''store/add'' ''did:web:s'' (GNode (NMap []))]"
    using assms by (simp add: dlg_Capabilities_def ivk1_def owner_ucan_def)
  moreover have "ret_issue (retenv0 v) (ret_srv0 v) (okResult (Inr (NString ''ok''))) (dlg_Link (ivk1 v)) (fx_options None) s =
      Ret (Inr r, s)" for s
    using r by (simp add: ret_issue_def fx_options_def ret_srv0_parts signer1_def)
  ultimately have "ret_Run (retenv0 v) (ret_srv0 v) (ivk1 v) req (c, n) =
      Ret (Inr (r, NewResponse 206 None (Some (text_body ''part''))), (c, n + 1))"
    by (simp add: ret_Run_def Let_def Ucan.NewCapability_def ret_srv0(3) sbind_def)
  then show thesis using that k i(6) by blast
qed

lemma ret_handled0:
  assumes "owner_ucan v"
  obtains req r where "ret_Handle (retenv0 v) (ret_srv0 v) req ([], 0) = Ret (r, ([], 1))"
proof -
  let ?A = "hcar_accept lib0 car0 hcar0 (const_codec ''m'' data1)" and ?U = "ucanlib0\<lparr> ul_cbor := table_codec 113 [(''u'', v)] \<rparr>"
  obtain req m' where req: "sv_codec (rv_server (ret_srv0 v)) req = Inr ?A" "ac_Decode ?A req = Ret (Inr m')" "same_message msg1 m'"
    by (rule request0)
  obtain rc resp where run: "ret_Run (retenv0 v) (ret_srv0 v) (ivk1 v) \<lparr> rq_URL = rq_url req, rq_Headers = rq_headers req \<rparr> ([], 0) =
      Ret (Inr (rc, resp), ([], 0 + 1))" "rcpt_key rc = Some (dlg_Link (ivk1 v))" "wf_store (rp_blks rc)"
    by (rule ret_run0 [OF assms])
  obtain m where m: "msg_Build lib0 ?U (const_codec ''m'' data1) [] [rc] = Ret (Inr m)"
    by (rule built1 [OF run(3,2)])
  have "um_Prf v = []" using assms by (simp add: owner_ucan_def)
  note e = extract0 [OF this req(3), of "([], 0 :: nat)"]
  have "ret_Execute (retenv0 v) (ret_srv0 v) m' \<lparr> rq_URL = rq_url req, rq_Headers = rq_headers req \<rparr> ([], 0) =
      Ret (Inr (Some m, resp), ([], 1))"
    using e run(1) m by (simp add: ret_Execute_def sent_message0(2) [OF req(3)] ret_srv0(2) sbind_def sret_def slift_def)
  then have "\<exists>r. ret_Handle (retenv0 v) (ret_srv0 v) req ([], 0) = Ret (r, ([], 1))"
    using req(1,2) sent_message0(2) [OF req(3)]
    by (simp add: ret_Handle_def ret_handle_def sbind_def sret_def slift_def Let_def split: sum.split prod.split)
  then show thesis using that by blast
qed

theorem retrieval_changes_authorised_witness:
  "\<exists>v req r ivk a t. ret_NewServer (retenv0 v) signer1 (ret_provide_options (re_E (retenv0 v)) [(''store/add'', ds0, ret_handler0)]) =
       Inr (ret_srv0 v, Some []) \<and>
     ret_Handle (retenv0 v) (ret_srv0 v) req ([], 0) = Ret (r, ([], 1)) \<and> auth_dlg a = ivk \<and>
     did_String lib0 (dlg_Audience lib0 ivk) = Ret t \<and> did_String lib0 (ps_DID signer1) = Ret t \<and>
     issued_by_owner (venv1 v) (fst (provider_context (sv_context (rv_server (ret_srv0 v))) ds0)) (last (auth_chain a))"
proof -
  obtain v where v: "owner_ucan v" by (rule owner_ucan0)
  obtain req r where r: "ret_Handle (retenv0 v) (ret_srv0 v) req ([], 0) = Ret (r, ([], 1))" by (rule ret_handled0 [OF v])
  have o: "order_ok (se_V (re_E (retenv0 v)))" by (simp add: order_ok_def venv1_def)
  have u: "unseen_store snd (rv_cache (ret_srv0 v))" by (simp add: ret_srv0(2) mem_unseen)
  have "snd ([], 1) \<noteq> snd ([], 0 :: nat)" by simp
  from retrieval_changes_authorised [OF o ret_srv0(1) _ ret_srv0(4) u r this] obtain ivk a t where
    "auth_dlg a = ivk" "did_String lib0 (dlg_Audience lib0 ivk) = Ret t" "did_String lib0 (ps_DID signer1) = Ret t"
    "issued_by_owner (venv1 v) (fst (provider_context (sv_context (rv_server (ret_srv0 v))) ds0)) (last (auth_chain a))"
    by (auto simp: Let_def)
  with ret_srv0(1) [of v] r show ?thesis
    by (intro exI [of _ v] exI [of _ req] exI [of _ r] exI [of _ ivk] exI [of _ a] exI [of _ t]) simp
qed

text \<open>An invocation with one proof: in the first setting the proof is nowhere, in the second it is in the cache.\<close>

definition ucan0 :: "link list \<Rightarrow> ucan_model" where
  "ucan0 prf = \<lparr> um_V = ''0.9.1'', um_Iss = [], um_Aud = [], um_S = [], um_Att = [], um_Prf = prf, um_Exp = None,
     um_Fct = [], um_Nnc = None, um_Nbf = None \<rparr>"

abbreviation ulink :: link where "ulink \<equiv> blk_link (blk2 ''u'')"
abbreviation plink :: link where "plink \<equiv> blk_link (blk2 ''p'')"

definition ucanlib2 :: "(bytes \<times> ucan_model) list \<Rightarrow> ucanlib" where
  "ucanlib2 more_proofs = ucanlib0\<lparr> ul_cbor := table_codec 113 ((''u'', ucan0 [plink]) # more_proofs) \<rparr>"

definition proof0 :: delegation where
  "proof0 = \<lparr> dl_rt = blk2 ''p'', dl_blks = br_empty, dl_atch = br_empty, dl_ucan = ucan0 [] \<rparr>"

lemma links0: "ulink \<noteq> plink" "plink \<noteq> ulink" "blk_link (blk2 ''m'') \<noteq> plink" "blk_link (blk2 ''m'') \<noteq> ulink"
  by (rule blk2_distinct; simp)+

lemma store1_get:
  "br_Get store1 l = (if l = blk_link (blk2 ''m'') then Some (blk2 ''m'') else if l = ulink then Some (blk2 ''u'') else None)"
  using links0 by (simp add: store1_def store.get_put store.inv_put store.inv_empty store.get_empty)

lemma decode2:
  "dlg_decode lib0 (ucanlib2 tab) (blk2 ''u'') = Inr (ucan0 [plink])"
  "dlg_decode lib0 (ucanlib2 [(''p'', ucan0 [])]) (blk2 ''p'') = Inr (ucan0 [])"
  "map_of tab ''m'' = None \<Longrightarrow> \<exists>e. dlg_decode lib0 (ucanlib2 tab) (blk2 ''m'') = Inl e"
  by (simp_all add: dlg_decode_def block_Decode_def ucanlib2_def table_codec_def blk2_def NewBlock_def NewUCAN_def)

lemma resolved2:
  assumes "map_of tab ''m'' = None"
  shows "resolved lib0 (ucanlib2 tab) store1 c ulink = Inr (Some (ivk1 (ucan0 [plink])))"
    and "\<exists>e. resolved lib0 (ucanlib2 tab) store1 c (blk_link (blk2 ''m'')) = Inl e"
    and "l \<noteq> ulink \<Longrightarrow> l \<noteq> blk_link (blk2 ''m'') \<Longrightarrow> resolved lib0 (ucanlib2 tab) store1 c l = Inr (c l)"
  using decode2(1,3) [of tab] assms links0
  by (auto simp: resolved_def store1_get NewDelegation_def NewBlockStore_def ivk1_def)

lemma needed2:
  assumes "map_of tab ''m'' = None" "\<And>d. c plink = Some d \<Longrightarrow> dlg_Proofs d = []"
  shows "needed (resolved lib0 (ucanlib2 tab) store1 c) {ulink} l \<longleftrightarrow> l = ulink \<or> l = plink"
proof
  assume "needed (resolved lib0 (ucanlib2 tab) store1 c) {ulink} l"
  then show "l = ulink \<or> l = plink"
    by (induction rule: needed.induct)
       (use resolved2 [OF assms(1), where c = c] assms(2) links0 in
         \<open>auto simp: dlg_Proofs_def ivk1_def ucan_Proofs_def ucan0_def\<close>)
next
  have "plink \<in> set (dlg_Proofs (ivk1 (ucan0 [plink])))" by (simp add: dlg_Proofs_def ivk1_def ucan_Proofs_def ucan0_def)
  moreover assume "l = ulink \<or> l = plink"
  ultimately show "needed (resolved lib0 (ucanlib2 tab) store1 c) {ulink} l"
    using needed_proof [where l = ulink, OF needed_root [where f = "resolved lib0 (ucanlib2 tab) store1 c"] resolved2(1) [OF assms(1)]]
    by (auto intro: needed_root)
qed

lemma weighs2:
  assumes "map_of tab ''m'' = None" "\<And>l d. c l = Some d \<Longrightarrow> dlg_Proofs d = []"
  shows "weighs (resolved lib0 (ucanlib2 tab) store1 c) Q (\<lambda>l. if l = ulink then 2 else 1)"
  unfolding weighs_def
proof (intro allI conjI impI)
  fix l d assume "needed (resolved lib0 (ucanlib2 tab) store1 c) Q l"
    and r: "resolved lib0 (ucanlib2 tab) store1 c l = Inr (Some d)"
  consider "l = ulink" | "l = blk_link (blk2 ''m'')" | "l \<noteq> ulink" "l \<noteq> blk_link (blk2 ''m'')" by blast
  then show "sum_list (map (\<lambda>l. if l = ulink then 2 else 1) (dlg_Proofs d)) < (if l = ulink then 2 else 1 :: nat)"
    using r resolved2 [OF assms(1), where c = c] assms(2) links0
    by cases (auto simp: dlg_Proofs_def ivk1_def ucan_Proofs_def ucan0_def)
qed simp

theorem missing_proofs_requested_witness:
  "\<exists>srv (X :: (lru0 \<times> nat, lru0) retenv) req ms h s'. ret_Handle X srv req ([], 0) =
       Ret (Inr \<lparr> rs_status = 510, rs_headers = Some h, rs_body = Some (''json'', None) \<rparr>, s') \<and>
     set ms = {plink} \<and> hdr_Get h ''Vary'' = HeaderName \<and> snd s' = 0 \<and>
     map_of (fst s') ulink = Some (ivk1 (ucan0 [plink])) \<and> map_of (fst s') plink = None"
proof -
  let ?v = "ucan0 [plink]" and ?A = "hcar_accept lib0 car0 hcar0 (const_codec ''m'' data1)"
  let ?s = "([] :: lru0, 0 :: nat)"
  obtain req m' where req: "sv_codec (rv_server (ret_srv0 ?v)) req = Inr ?A" "ac_Decode ?A req = Ret (Inr m')" "same_message msg1 m'"
    by (rule request0)
  define f where "f = resolved lib0 (ucanlib2 []) store1 Map.empty"
  have U: "re_U (retenv0 ?v) = ucanlib2 []" by (simp add: ucanlib2_def)
  have f: "f = resolved (re_L (retenv0 ?v)) (re_U (retenv0 ?v)) store1 (map_of (fst ?s))"
    unfolding f_def U by simp
  note r = resolved2 [where tab = "[]" and c = Map.empty, simplified, folded f_def]
  have n: "needed f {ulink} l \<longleftrightarrow> l = ulink \<or> l = plink" for l unfolding f_def by (rule needed2) simp_all
  have w: "weighs f {ulink} (\<lambda>l. if l = ulink then 2 else 1)" unfolding f_def by (rule weighs2) simp_all
  have p: "f plink = Inr None" using r(3) links0 by metis
  have m: "missing_set f {ulink} = {plink}" using n p r(1) by (auto simp: missing_set_def)
  have s: "sent_links f store1 ulink = {ulink}" using n links0 by (auto simp: sent_links_def store1_get)
  have e: "\<forall>l e. needed f {ulink} l \<longrightarrow> f l \<noteq> Inl e" using n p r(1) by auto
  have u: "mem_usable lrulib0 map_of good0 100 ?s" by (simp add: mem_usable_def lru_ok0 good0_def)
  have room: "mem_room map_of 100 (sent_links f store1 ulink) ?s" by (simp add: mem_room_def s)
  have "\<exists>ms h s'. ret_Handle (retenv0 ?v) (ret_srv0 ?v) req ?s =
             Ret (Inr \<lparr> rs_status = 510, rs_headers = Some h, rs_body = Some ((\<lambda>_. ''json'') ms, None) \<rparr>, s') \<and>
           set ms = missing_set f {ulink} \<and> hdr_Get h ''Vary'' = HeaderName \<and>
           hdr_Get h ''Content-Type'' = ''application/json'' \<and> snd s' = snd ?s \<and> mem_usable lrulib0 map_of good0 100 s' \<and>
           map_of (fst s') = (\<lambda>l. if l \<in> sent_links f store1 ulink then projr (f l) else map_of (fst ?s) l)"
    by (rule missing_proofs_requested [OF req(1,2) sent_message0(2) [OF req(3)] ret_srv0(2) u sent_message0(1) [OF req(3)] f w _ e _ room,
          where node_of = "\<lambda>ls. NList (map NLink ls)" and json_of = "\<lambda>_. ''json''"])
       (simp_all add: m retenv0_def missing_proofs_model_of_def)
  then obtain ms h s' where h: "ret_Handle (retenv0 ?v) (ret_srv0 ?v) req ?s =
             Ret (Inr \<lparr> rs_status = 510, rs_headers = Some h, rs_body = Some (''json'', None) \<rparr>, s')"
    "set ms = {plink}" "hdr_Get h ''Vary'' = HeaderName" "snd s' = snd ?s"
    "map_of (fst s') = (\<lambda>l. if l \<in> {ulink} then projr (f l) else map_of (fst ?s) l)"
    unfolding m s by blast
  from h(5) have "map_of (fst s') ulink = Some (ivk1 ?v)" "map_of (fst s') plink = None"
    using r(1) links0 by simp_all
  moreover have "snd s' = 0" using h(4) by simp
  moreover note h(1-3)
  ultimately show ?thesis
    by (intro exI [of _ "ret_srv0 ?v"] exI [of _ "retenv0 ?v"] exI [of _ req] exI [of _ ms] exI [of _ h] exI [of _ s'])
      (simp only: simp_thms)
qed

theorem extract_completes_witness:
  "\<exists>ivk s' e. ExtractInvocation 2 lib0 (ucanlib2 [(''p'', ucan0 [])]) ulink msg1 (MemoryDelegationCache lrulib0)
       ([(plink, proof0)], ()) = Ret (Inr ivk, s') \<and> dlg_Link ivk = ulink \<and>
     NewDelegationView lib0 (ucanlib2 [(''p'', ucan0 [])]) plink (dl_blks ivk) = Inr e \<and> dl_ucan e = ucan0 []"
proof -
  let ?U = "ucanlib2 [(''p'', ucan0 [])]" and ?s = "([(plink, proof0)], ())" and ?i = "ivk1 (ucan0 [plink])"
  define f where "f = resolved lib0 ?U store1 (map_of (fst ?s))"
  have t: "map_of [(''p'', ucan0 [])] ''m'' = None" by simp
  have c: "dlg_Proofs d = []" if "map_of (fst ?s) l = Some d" for l d
    using that by (auto simp: proof0_def dlg_Proofs_def ucan_Proofs_def ucan0_def split: if_splits)
  note r = resolved2 [OF t, where c = "map_of (fst ?s)", folded f_def]
  have n: "needed f {ulink} l \<longleftrightarrow> l = ulink \<or> l = plink" for l unfolding f_def by (rule needed2 [OF t c])
  have w: "weighs f {ulink} (\<lambda>l. if l = ulink then 2 else 1)" unfolding f_def by (rule weighs2 [OF t c])
  have p: "f plink = Inr (Some proof0)" using r(3) [of plink] links0 by simp
  have fs: "found_set f {ulink} (\<lambda>_. True) = {?i, proof0}" using n p r(1) by (auto simp: found_set_def)
  have e: "\<forall>l e. needed f {ulink} l \<longrightarrow> f l \<noteq> Inl e" "missing_set f {ulink} = {}"
    using n p r(1) by (auto simp: missing_set_def)
  have u: "mem_usable lrulib0 map_of good0 100 ?s"
    by (simp add: mem_usable_def lru_ok0 good0_def proof0_def dlg_Link_def)
  have x: "exports 2 lib0 ?U ?i [blk2 ''u'']" "exports 2 lib0 ?U proof0 [blk2 ''p'']"
    using links0 by (simp_all add: exports_def dlg_Export_def numeral_2_eq_2 ivk1_def proof0_def ucan_Proofs_def ucan0_def
        store1_get seq_then_def store.iter_empty)
  then have x': "exports 2 lib0 ?U ?i bl \<longleftrightarrow> bl = [blk2 ''u'']" "exports 2 lib0 ?U proof0 bl \<longleftrightarrow> bl = [blk2 ''p'']" for bl
    by (auto simp: exports_def map_eq_Cons_conv)
  have d: "\<forall>d \<in> found_set f {ulink} (\<lambda>_. True). dlg_decode lib0 ?U (dl_rt d) = Inr (dl_ucan d) \<and> (\<exists>bl. exports 2 lib0 ?U d bl)"
    using decode2(1,2) x by (auto simp: fs ivk1_def proof0_def)
  have "gathered_blocks 2 lib0 ?U f store1 ulink = {blk2 ''m'', blk2 ''u'', blk2 ''p''}"
    unfolding gathered_blocks_def fs using links0 by (auto simp: x' store1_get split: if_splits)
  then have i: "inj_on blk_link (gathered_blocks 2 lib0 ?U f store1 ulink)" using links0 by auto
  have b: "NewBlockStore [] (msg_Blocks msg1) = Inr store1" by (rule sent_message0) (simp add: same_message_def)
  from extract_completes [OF u b f_def w _ e d i] n p
  show ?thesis by (fastforce simp: proof0_def)
qed

end
