(* ===== verification/Client.thy ===== *)
theory Client
  imports Retrieval
begin

text \<open>
  client and client/retrieval: connections, executing invocations over one, and the negotiation that sends
  an invocation too big for a header in parts. The locale \<open>partial_channel\<close> is the contract of a channel
  to a retrieval server; it is interpreted on a channel that hands requests to the server of Retrieval.
\<close>

section \<open>Connections\<close>

text \<open>A channel may also stop the program. A hasher takes the bytes written to it to their digest.\<close>

type_synonym 's channel = "http_request \<Rightarrow> ('s, chan_err + http_response) act"
type_synonym hasher = "bytes \<Rightarrow> bytes"

record 's connection =
  cn_id :: did
  cn_codec :: outbound_codec
  cn_channel :: "'s channel"
  cn_hasher :: hasher

record connConfig =
  cf_hasher :: "hasher option"
  cf_codec :: "outbound_codec option"

text \<open>An option changes the configuration or fails. The hasher and the codec given may be nil.\<close>

type_synonym conn_option = "connConfig \<Rightarrow> err + connConfig"

definition WithHasher :: "hasher option \<Rightarrow> conn_option" where
  "WithHasher hasher cfg = Inr (cfg\<lparr> cf_hasher := hasher \<rparr>)"

definition WithOutboundCodec :: "outbound_codec option \<Rightarrow> conn_option" where
  "WithOutboundCodec codec cfg = Inr (cfg\<lparr> cf_codec := codec \<rparr>)"

fun apply_conn_options :: "conn_option list \<Rightarrow> connConfig \<Rightarrow> err + connConfig" where
  "apply_conn_options [] cfg = Inr cfg"
| "apply_conn_options (opt # opts) cfg =
     (case opt cfg of Inl e \<Rightarrow> Inl e | Inr cfg' \<Rightarrow> apply_conn_options opts cfg')"

definition NewConnection :: "extlib \<Rightarrow> carlib \<Rightarrow> data_model codec \<Rightarrow> did \<Rightarrow> 's channel \<Rightarrow> conn_option list \<Rightarrow>
    err + 's connection" where
  "NewConnection L K C ident channel options =
     (case apply_conn_options options \<lparr> cf_hasher = Some (sha256sum L), cf_codec = None \<rparr> of
        Inl e \<Rightarrow> Inl e
      | Inr cfg \<Rightarrow>
          Inr \<lparr> cn_id = ident, cn_codec = or_default (cf_codec cfg) (car_outbound L K C),
                cn_channel = channel, cn_hasher = or_default (cf_hasher cfg) (sha256sum L) \<rparr>)"

section \<open>Executing invocations\<close>

text \<open>Closing the body of a response does not fail, but a nil body cannot be closed.\<close>

definition close_body :: "http_response \<Rightarrow> ('s, unit) act" where
  "close_body res = (case rs_body res of None \<Rightarrow> slift (Panic ''nil pointer dereference'') | Some _ \<Rightarrow> sret ())"

definition Execute ::
    "extlib \<Rightarrow> ucanlib \<Rightarrow> data_model codec \<Rightarrow> delegation list \<Rightarrow> 's connection \<Rightarrow> ('s, err + message) act" where
  "Execute L U C invocations conn =
     sbind (slift (msg_Build L U C invocations [])) (\<lambda>b. case b of
       Inl e \<Rightarrow> sret (Inl (''building message: '' @ e))
     | Inr input \<Rightarrow>
         (case oc_Encode (cn_codec conn) input of
            Inl (e, big) \<Rightarrow> sret (Inl (''encoding message: '' @ e))
          | Inr req \<Rightarrow>
              sbind (cn_channel conn req) (\<lambda>r. case r of
                Inl e \<Rightarrow> sret (Inl (''sending message: '' @ chan_err_Error e))
              | Inr res \<Rightarrow>
                  sbind (close_body res) (\<lambda>_.
                  sbind (slift (oc_Decode (cn_codec conn) res)) (\<lambda>d. case d of
                    Inl e \<Rightarrow> sret (Inl (''decoding message: '' @ e))
                  | Inr output \<Rightarrow> sret (Inr output))))))"

section \<open>Connections to a retrieval server\<close>

datatype 's rconn_option = RCWithClient "'s http_client option" | RCWithHeaders header

record 's rconn_config =
  rf_client :: "'s http_client option"
  rf_headers :: header

fun apply_rconn_option :: "'s rconn_config \<Rightarrow> 's rconn_option \<Rightarrow> 's rconn_config" where
  "apply_rconn_option cfg (RCWithClient c) = cfg\<lparr> rf_client := c \<rparr>"
| "apply_rconn_option cfg (RCWithHeaders h) = cfg\<lparr> rf_headers := h \<rparr>"

text \<open>An HTTP channel as a channel of a connection.\<close>

definition as_channel :: "'s http_env \<Rightarrow> 's http_channel \<Rightarrow> 's channel" where
  "as_channel N c req s = Ret (chan_Request N c req s)"

definition retrieval_statuses :: "nat list" where
  "retrieval_statuses = [200, 206, 510, 431]"

definition ret_NewConnection ::
    "extlib \<Rightarrow> carlib \<Rightarrow> hcarlib \<Rightarrow> data_model codec \<Rightarrow> 's http_env \<Rightarrow> did \<Rightarrow> string \<Rightarrow> 's rconn_option list \<Rightarrow>
     's connection" where
  "ret_NewConnection L K H C N ident url opts =
     (let cfg = foldl apply_rconn_option \<lparr> rf_client = None, rf_headers = [] \<rparr> opts;
          channel = NewChannel N url [CWithMethod ''GET'', CWithSuccessStatusCode retrieval_statuses,
                      CWithClient (rf_client cfg), CWithHeaders (rf_headers cfg)]
      in \<lparr> cn_id = ident, cn_codec = hcar_outbound L K H C, cn_channel = as_channel N channel,
           cn_hasher = sha256sum L \<rparr>)"

section \<open>The parts of an invocation\<close>

text \<open>
  What executing runs on: the libraries, the fuel of exporting, the JSON decoding of the list of missing
  proofs, and whether the context is done in a state, with its error.
\<close>

record 's clienv =
  ce_L :: extlib
  ce_U :: ucanlib
  ce_C :: "data_model codec"
  ce_fuel :: nat
  ce_json :: "bytes \<Rightarrow> err + missing_proofs_model"
  ce_done :: "'s \<Rightarrow> err option"

definition omitProofs :: "'s clienv \<Rightarrow> delegation \<Rightarrow> (err + delegation) comp" where
  "omitProofs X dlg =
     cmap (\<lambda>blocks. case NewBlockReader [] blocks of
             Inl e \<Rightarrow> Inl e
           | Inr bs \<Rightarrow> NewDelegation (ce_L X) (ce_U X) (dl_rt dlg) bs)
       (dlg_Export (ce_fuel X) (ce_L X) (ce_U X) (dlg_Proofs dlg) dlg)"

text \<open>
  The loop over the proofs. The text of the error of \<open>omitProofs\<close> takes the link of the delegation it
  returned, which is nil.
\<close>

fun collect_parts :: "nat \<Rightarrow> 's clienv \<Rightarrow> blockreader \<Rightarrow> link list \<Rightarrow> (link \<rightharpoonup> delegation) \<Rightarrow>
    (err + (link \<rightharpoonup> delegation)) comp" where
  "collect_parts n X br [] parts = Ret (Inr parts)"
| "collect_parts 0 X br (root # prfs) parts = Fuel"
| "collect_parts (Suc n) X br (root # prfs) parts =
     (case NewDelegationView (ce_L X) (ce_U X) root br of
        Inl e \<Rightarrow> Ret (Inl (''creating delegation: '' @ e))
      | Inr prf \<Rightarrow>
          cbind (omitProofs X prf) (\<lambda>r. case r of
            Inl e \<Rightarrow> Panic ''nil pointer dereference''
          | Inr part \<Rightarrow> collect_parts n X br (prfs @ dlg_Proofs prf) (parts(dlg_Link part \<mapsto> part))))"

definition newPartialInvocationMessage :: "'s clienv \<Rightarrow> link \<Rightarrow> delegation \<Rightarrow> (err + message) comp" where
  "newPartialInvocationMessage X l part =
     cmap (\<lambda>blocks. case NewBlockStore [] blocks of
             Inl e \<Rightarrow> Inl e
           | Inr bs \<Rightarrow>
               (case block_Encode (ce_L X) (ce_C X) \<lparr> dm_Execute = [l], dm_Report = None \<rparr> of
                  Inl e \<Rightarrow> Inl e
                | Inr rt \<Rightarrow> NewMessage (ce_L X) (ce_C X) (blk_link rt) (bs_Put bs rt) True))
       (dlg_Export (ce_fuel X) (ce_L X) (ce_U X) [] part)"

section \<open>The negotiation\<close>

definition too_big :: err where
  "too_big = ''invocation is too big to send in HTTP headers''"

text \<open>The answer to a request for a part: the final response, or the part asked for next.\<close>

definition next_part :: "'s clienv \<Rightarrow> (link \<rightharpoonup> delegation) \<Rightarrow> http_response \<Rightarrow> (err + http_response + delegation) comp" where
  "next_part X parts res =
     (if rs_status res = 206 \<or> rs_status res = 200 then Ret (Inr (Inl res))
      else if rs_status res = 431 then Ret (Inl too_big)
      else if rs_status res \<noteq> 510 then Ret (Inl (''unexpected status code: '' @ show_nat (rs_status res)))
      else case rs_body res of
             None \<Rightarrow> Panic ''nil pointer dereference''
           | Some body \<Rightarrow>
               (case read_all body of
                  Inl e \<Rightarrow> Ret (Inl (''reading not extended body: '' @ e))
                | Inr b \<Rightarrow>
                    (case ce_json X b of
                       Inl e \<Rightarrow> Ret (Inl (''decoding body: '' @ e))
                     | Inr model \<Rightarrow>
                         (case mp_Proofs model of
                            [] \<Rightarrow> Ret (Inl ''server did not include missing proofs in response'')
                          | p # _ \<Rightarrow>
                              (case parts p of
                                 None \<Rightarrow> Ret (Inl (''missing proof not found or was already sent: '' @ p))
                               | Some part \<Rightarrow> Ret (Inr (Inr part)))))))"

fun send_parts :: "nat \<Rightarrow> 's clienv \<Rightarrow> link \<Rightarrow> 's connection \<Rightarrow> (link \<rightharpoonup> delegation) \<Rightarrow> delegation \<Rightarrow>
    ('s, err + http_response) act" where
  "send_parts 0 X l conn parts part s = Fuel"
| "send_parts (Suc n) X l conn parts part s =
     (case ce_done X s of
        Some e \<Rightarrow> Ret (Inl e, s)
      | None \<Rightarrow>
          sbind (slift (newPartialInvocationMessage X l part)) (\<lambda>m. case m of
            Inl e \<Rightarrow> sret (Inl (''building message: '' @ e))
          | Inr input \<Rightarrow>
              (case oc_Encode (cn_codec conn) input of
                 Inl (e, big) \<Rightarrow> sret (Inl (''encoding message: '' @ e))
               | Inr req \<Rightarrow>
                   sbind (cn_channel conn req) (\<lambda>r. case r of
                     Inl e \<Rightarrow> sret (Inl (''sending message: '' @ chan_err_Error e))
                   | Inr res \<Rightarrow>
                       sbind (slift (next_part X parts res)) (\<lambda>x. case x of
                         Inl e \<Rightarrow> sret (Inl e)
                       | Inr (Inl final) \<Rightarrow> sret (Inr final)
                       | Inr (Inr p) \<Rightarrow> send_parts n X l conn (parts(dlg_Link p := None)) p)))) s)"

definition sendPartialInvocations ::
    "nat \<Rightarrow> nat \<Rightarrow> 's clienv \<Rightarrow> delegation \<Rightarrow> 's connection \<Rightarrow> ('s, err + http_response) act" where
  "sendPartialInvocations n k X ivk conn =
     sbind (slift (dlg_Export (ce_fuel X) (ce_L X) (ce_U X) [] ivk)) (\<lambda>blocks. case NewBlockReader [] blocks of
       Inl e \<Rightarrow> sret (Inl (''reading invocation blocks: '' @ e))
     | Inr br \<Rightarrow>
         sbind (slift (omitProofs X ivk)) (\<lambda>o'. case o' of
           Inl e \<Rightarrow> sret (Inl (''creating invocation '' @ dlg_Link ivk @ '' with omitted proofs: '' @ e))
         | Inr part \<Rightarrow>
             sbind (slift (collect_parts n X br (dlg_Proofs ivk) Map.empty)) (\<lambda>c. case c of
               Inl e \<Rightarrow> sret (Inl e)
             | Inr parts \<Rightarrow>
                 if parts = Map.empty then sret (Inl too_big)
                 else send_parts k X (dlg_Link ivk) conn parts part)))"

text \<open>The attempt to send the whole invocation: nothing when it is too big.\<close>

definition send_whole :: "message \<Rightarrow> 's connection \<Rightarrow> ('s, err + http_response option) act" where
  "send_whole input conn =
     (case oc_Encode (cn_codec conn) input of
        Inl (e, big) \<Rightarrow> if big then sret (Inr None) else sret (Inl (''encoding message: '' @ e))
      | Inr req \<Rightarrow>
          sbind (cn_channel conn req) (\<lambda>r. case r of
            Inl e \<Rightarrow> sret (Inl (''sending message: '' @ chan_err_Error e))
          | Inr response \<Rightarrow>
              if rs_status response = 431 then sbind (close_body response) (\<lambda>_. sret (Inr None))
              else sret (Inr (Some response))))"

definition ret_client_Execute ::
    "nat \<Rightarrow> nat \<Rightarrow> 's clienv \<Rightarrow> delegation \<Rightarrow> 's connection \<Rightarrow> ('s, err + message \<times> http_response) act" where
  "ret_client_Execute n k X ivk conn =
     sbind (slift (msg_Build (ce_L X) (ce_U X) (ce_C X) [ivk] [])) (\<lambda>b. case b of
       Inl e \<Rightarrow> sret (Inl (''building message: '' @ e))
     | Inr input \<Rightarrow>
         sbind (send_whole input conn) (\<lambda>w. case w of
           Inl e \<Rightarrow> sret (Inl e)
         | Inr first \<Rightarrow>
             sbind (case first of
                      Some response \<Rightarrow> sret (Inr response)
                    | None \<Rightarrow>
                        sbind (sendPartialInvocations n k X ivk conn) (\<lambda>p.
                          sret (map_sum (\<lambda>e. ''sending partial invocations: '' @ e) id p))) (\<lambda>r. case r of
               Inl e \<Rightarrow> sret (Inl e)
             | Inr response \<Rightarrow>
                 sbind (slift (oc_Decode (cn_codec conn) response)) (\<lambda>d. case d of
                   Inl e \<Rightarrow> sret (Inl (''decoding message: '' @ e))
                 | Inr output \<Rightarrow> sret (Inr (output, response))))))"

section \<open>What a part holds\<close>

lemma export_loop_nil: "\<forall>p \<in> set ps. f p = Ret [] \<Longrightarrow> export_loop f ps = Ret []"
  by (induction ps) auto

text \<open>A delegation without its proofs, as it is sent: its root block is all there is.\<close>

definition part_of :: "delegation \<Rightarrow> blockreader \<Rightarrow> delegation" where
  "part_of d bs = \<lparr> dl_rt = dl_rt d, dl_blks = bs, dl_atch = br_empty, dl_ucan = dl_ucan d \<rparr>"

definition root_only :: "delegation \<Rightarrow> delegation" where
  "root_only d = part_of d (bs_Put br_empty (dl_rt d))"

lemma root_only_simps [simp]:
  "dl_rt (root_only d) = dl_rt d" "dlg_Link (root_only d) = dlg_Link d" "dl_ucan (root_only d) = dl_ucan d"
  "dlg_Proofs (root_only d) = dlg_Proofs d" "dl_atch (root_only d) = br_empty" "root_only (root_only d) = root_only d"
  "dl_blks (root_only d) = bs_Put br_empty (dl_rt d)"
  by (simp_all add: root_only_def part_of_def dlg_Link_def dlg_Proofs_def)

lemma omitProofs_result:
  assumes "wf_store (dl_atch d)" "dlg_decode (ce_L X) (ce_U X) (dl_rt d) = Inr (dl_ucan d)" "0 < ce_fuel X"
  obtains bs where "omitProofs X d = Ret (Inr (part_of d bs))" "wf_store bs"
    "\<And>k. br_Get bs k = (case br_Get (dl_atch d) k of Some b \<Rightarrow> Some b | None \<Rightarrow>
       if k = dlg_Link d then Some (dl_rt d) else None)"
proof -
  obtain n where n: "ce_fuel X = Suc n" using assms(3) by (cases "ce_fuel X") auto
  obtain as where as: "br_Iterator (dl_atch d) = map Inr as" "NewBlockReader [] (map Inr as) = Inr (dl_atch d)"
    using store_blocks [OF assms(1)] by metis
  have "dlg_Export (ce_fuel X) (ce_L X) (ce_U X) (dlg_Proofs d) d = Ret (map Inr (as @ [dl_rt d]))"
    by (simp add: n dlg_Export_def export_loop_nil dlg_Proofs_def as seq_then_def)
  moreover have r: "NewBlockReader [] (map Inr (as @ [dl_rt d])) = Inr (bs_Put (dl_atch d) (dl_rt d))"
    using reader_of_store [OF assms(1), of "[dl_rt d]"] as by simp
  ultimately have "omitProofs X d = Ret (Inr (part_of d (bs_Put (dl_atch d) (dl_rt d))))"
    using assms(2) by (simp add: omitProofs_def NewDelegation_def NewBlockStore_def part_of_def)
  moreover have "wf_store (bs_Put (dl_atch d) (dl_rt d))" by (rule store.inv_put [OF assms(1)])
  ultimately show thesis
    by (rule that) (auto simp: store.get_put [OF assms(1)] dlg_Link_def split: option.split)
qed

lemma omitted_root:
  assumes "dl_atch d = br_empty" "dlg_decode (ce_L X) (ce_U X) (dl_rt d) = Inr (dl_ucan d)" "0 < ce_fuel X"
  shows "omitProofs X d = Ret (Inr (root_only d))"
proof -
  obtain n where n: "ce_fuel X = Suc n" using assms(3) by (cases "ce_fuel X") auto
  have "dlg_Export (ce_fuel X) (ce_L X) (ce_U X) (dlg_Proofs d) d = Ret [Inr (dl_rt d)]"
    by (simp add: n dlg_Export_def export_loop_nil dlg_Proofs_def assms(1) store.iter_empty seq_then_def)
  moreover have "NewBlockReader [] [Inr (dl_rt d)] = Inr (bs_Put br_empty (dl_rt d))"
    by (simp add: NewBlockReader_eq_NewBlockStore NewBlockStore_def)
  ultimately show ?thesis
    using assms(2) by (simp add: omitProofs_def NewDelegation_def NewBlockStore_def root_only_def part_of_def)
qed

lemma omitProofs_view:
  assumes "NewDelegationView (ce_L X) (ce_U X) l br = Inr d" "0 < ce_fuel X"
  shows "omitProofs X d = Ret (Inr (root_only d))"
  using assms by (intro omitted_root) (auto simp: NewDelegationView_Inr)

text \<open>The message a part is sent in.\<close>

definition partial_message :: "link \<Rightarrow> block \<Rightarrow> block \<Rightarrow> message" where
  "partial_message l rt mrt =
     \<lparr> ms_root = mrt, ms_data = \<lparr> dm_Execute = [l], dm_Report = None \<rparr>, ms_blks = bs_Put (bs_Put br_empty rt) mrt,
       ms_store = True, ms_invs = Map.empty, ms_rcpts = Map.empty \<rparr>"

lemma partial_message_result:
  assumes "dl_atch p = br_empty" "\<forall>k \<in> set (dlg_Proofs p). br_Get (dl_blks p) k = None" "0 < ce_fuel X"
    and "codec_ok (ce_C X)" "block_Encode (ce_L X) (ce_C X) \<lparr> dm_Execute = [l], dm_Report = None \<rparr> = Inr mrt"
    and "blk_link mrt \<noteq> dlg_Link p"
  shows "newPartialInvocationMessage X l p = Ret (Inr (partial_message l (dl_rt p) mrt))"
proof -
  obtain n where n: "ce_fuel X = Suc n" using assms(3) by (cases "ce_fuel X") auto
  have "dlg_Export (ce_fuel X) (ce_L X) (ce_U X) [] p = Ret [Inr (dl_rt p)]"
    using assms(2) by (simp add: n dlg_Export_def export_loop_nil dlg_Proofs_def assms(1) store.iter_empty seq_then_def)
  moreover have "br_Get (bs_Put (bs_Put br_empty (dl_rt p)) mrt) (blk_link mrt) = Some mrt"
    using assms(6) by (simp add: store.get_put store.inv_put store.inv_empty store.get_empty dlg_Link_def)
  ultimately show ?thesis
    using assms(5) block_codec_roundtrip [OF assms(4,5)]
    by (simp add: newPartialInvocationMessage_def NewBlockStore_def NewMessage_def partial_message_def)
qed

section \<open>The parts collected\<close>

definition viewed :: "extlib \<Rightarrow> ucanlib \<Rightarrow> blockreader \<Rightarrow> link \<Rightarrow> err + delegation option" where
  "viewed L U br l = map_sum id Some (NewDelegationView L U l br)"

lemma viewed_Inr: "viewed L U br l = Inr x \<longleftrightarrow> (\<exists>d. NewDelegationView L U l br = Inr d \<and> x = Some d)"
  by (cases "NewDelegationView L U l br") (auto simp: viewed_def)

lemma needed_empty [simp]: "\<not> needed f {} l"
  by (blast dest: needed_none)

lemma collect_parts_result:
  assumes "weighs (viewed (ce_L X) (ce_U X) br) (set ls) w" "sum_list (map w ls) \<le> n" "0 < ce_fuel X" "wf_store br"
    and "\<And>l. needed (viewed (ce_L X) (ce_U X) br) (set ls) l \<Longrightarrow> NewDelegationView (ce_L X) (ce_U X) l br = Inr (D l)"
  shows "collect_parts n X br ls parts = Ret (Inr (\<lambda>l.
           if needed (viewed (ce_L X) (ce_U X) br) (set ls) l then Some (root_only (D l)) else parts l))"
  using assms(1,2,5)
proof (induction n arbitrary: ls parts)
  case 0
  then have "ls = []" using weighsD(1) [OF 0(1) needed_root, of "hd ls"] by (cases ls) auto
  then show ?case by simp
next
  case (Suc n)
  let ?f = "viewed (ce_L X) (ce_U X) br"
  show ?case
  proof (cases ls)
    case Nil
    then show ?thesis by simp
  next
    case (Cons p ps)
    have d: "NewDelegationView (ce_L X) (ce_U X) p br = Inr (D p)" by (rule Suc.prems(3)) (simp add: Cons needed_root)
    then have f: "?f p = Inr (Some (D p))" by (simp add: viewed_def)
    have l: "dlg_Link (D p) = p"
      using d assms(4) by (auto simp: NewDelegationView_Inr dlg_Link_def wf_store_def br_Get_def)
    let ?ls = "ps @ dlg_Proofs (D p)"
    have s: "needed ?f (set ls) l \<longleftrightarrow> l = p \<or> needed ?f (set ?ls) l" for l
      using needed_step [where f = ?f and p = p, OF f, of "set ps" l] by (simp add: Cons Un_commute)
    have "weighs ?f (set ?ls) w"
      using weighs_step [OF Suc.prems(1) [unfolded Cons list.set] f] by (simp add: Un_commute)
    moreover have "sum_list (map w ?ls) \<le> n"
      using Suc.prems(2) weighsD(2) [OF Suc.prems(1) needed_root f] by (simp add: Cons)
    ultimately have "collect_parts n X br ?ls (parts(p \<mapsto> root_only (D p))) = Ret (Inr (\<lambda>l.
        if needed ?f (set ?ls) l then Some (root_only (D l)) else (parts(p \<mapsto> root_only (D p))) l))"
      using Suc.prems(3) s by (intro Suc.IH) auto
    then show ?thesis
      unfolding s using d omitProofs_view [OF d assms(3)] l by (simp add: Cons fun_eq_iff)
  qed
qed

section \<open>The negotiation ends\<close>

lemma next_part_cases:
  assumes "rs_body res \<noteq> None"
  shows "(\<exists>e. next_part X parts res = Ret (Inl e)) \<or>
     next_part X parts res = Ret (Inr (Inl res)) \<or>
     (\<exists>k p. next_part X parts res = Ret (Inr (Inr p)) \<and> parts k = Some p)"
proof -
  obtain body where b: "rs_body res = Some body" using assms by blast
  show ?thesis
    unfolding next_part_def b option.case
    by (simp split: sum.split list.split option.split) blast
qed

lemma drop_part:
  assumes "finite (dom m)" "m k = Some p"
  shows "finite (dom (m(k := None)))" "Suc (card (dom (m(k := None)))) = card (dom m)"
proof -
  have d: "dom (m(k := None)) = dom m - {k}" by simp
  show "finite (dom (m(k := None)))" unfolding d using assms(1) by (rule finite_Diff)
  show "Suc (card (dom (m(k := None)))) = card (dom m)"
    unfolding d using assms(2) by (intro card_Suc_Diff1 [OF assms(1)]) blast
qed

text \<open>A channel that answers every request, with responses that have a body, and counts the requests.\<close>

definition answering :: "('s \<Rightarrow> nat) \<Rightarrow> 's channel \<Rightarrow> bool" where
  "answering sent chan \<longleftrightarrow>
     (\<forall>req s. \<exists>r s'. chan req s = Ret (r, s') \<and> sent s' = Suc (sent s) \<and> (\<forall>res. r = Inr res \<longrightarrow> rs_body res \<noteq> None))"

lemma send_parts_ends:
  assumes "answering sent (cn_channel conn)" "finite (dom parts)" "card (dom parts) < n"
    and "\<And>k p. parts k = Some p \<Longrightarrow> dlg_Link p = k"
    and "\<And>p. p = part \<or> p \<in> ran parts \<Longrightarrow> \<exists>m. newPartialInvocationMessage X l p = Ret m"
  shows "\<exists>r s'. send_parts n X l conn parts part s = Ret (r, s') \<and> sent s' \<le> sent s + card (dom parts) + 1"
  using assms(2-5)
proof (induction n arbitrary: parts part s)
  case (Suc n)
  show ?case
  proof (cases "ce_done X s")
    case None
    obtain m where m: "newPartialInvocationMessage X l part = Ret m" using Suc.prems(4) by blast
    show ?thesis
    proof (cases m)
      case (Inr input)
      show ?thesis
      proof (cases "oc_Encode (cn_codec conn) input")
        case req: (Inr req)
        obtain r s1 where r: "cn_channel conn req s = Ret (r, s1)" "sent s1 = Suc (sent s)"
            "\<And>res. r = Inr res \<Longrightarrow> rs_body res \<noteq> None"
          using assms(1) unfolding answering_def by metis
        show ?thesis
        proof (cases r)
          case res: (Inr res)
          from next_part_cases [OF r(3) [OF res], of X parts]
          consider (failed) e where "next_part X parts res = Ret (Inl e)"
            | (final) "next_part X parts res = Ret (Inr (Inl res))"
            | (more) k p where "next_part X parts res = Ret (Inr (Inr p))" "parts k = Some p"
            by blast
          then show ?thesis
          proof cases
            case (more k p)
            let ?ps = "parts(dlg_Link p := None)"
            have k: "dlg_Link p = k" by (rule Suc.prems(3) [OF more(2)])
            note c = drop_part [OF Suc.prems(1) more(2), folded k]
            have "\<exists>r s'. send_parts n X l conn ?ps p s1 = Ret (r, s') \<and> sent s' \<le> sent s1 + card (dom ?ps) + 1"
            proof (rule Suc.IH)
              show "\<exists>m. newPartialInvocationMessage X l q = Ret m" if "q = p \<or> q \<in> ran ?ps" for q
                using that more(2) by (intro Suc.prems(4)) (auto simp: ran_def split: if_splits)
              show "card (dom ?ps) < n" using c(2) Suc.prems(2) by linarith
              show "dlg_Link q = j" if "?ps j = Some q" for j q using that Suc.prems(3) by (auto split: if_splits)
            qed (rule c(1))
            then obtain r' s' where "send_parts n X l conn ?ps p s1 = Ret (r', s')" "sent s' \<le> sent s1 + card (dom ?ps) + 1"
              by blast
            moreover from this(2) have "sent s' \<le> sent s + card (dom parts) + 1" using c(2) r(2) by linarith
            ultimately show ?thesis using more(1) r(1) by (simp add: None m Inr req res sbind_def slift_def)
          qed (use r(1,2) in \<open>simp_all add: None m Inr req res sbind_def slift_def sret_def\<close>)
        qed (use r(1,2) in \<open>simp add: None m Inr req sbind_def slift_def sret_def\<close>)
      qed (simp add: None m Inr sbind_def slift_def sret_def split: prod.split)
    qed (simp add: None m sbind_def slift_def sret_def)
  qed simp
qed simp

lemma send_whole_ends:
  assumes "answering sent (cn_channel conn)"
  shows "\<exists>r s'. send_whole input conn s = Ret (r, s') \<and> sent s' \<le> sent s + 1"
proof (cases "oc_Encode (cn_codec conn) input")
  case (Inr req)
  obtain r s' where r: "cn_channel conn req s = Ret (r, s')" "sent s' = Suc (sent s)"
      "\<And>res. r = Inr res \<Longrightarrow> rs_body res \<noteq> None"
    using assms unfolding answering_def by metis
  then show ?thesis
    by (cases r) (auto simp: send_whole_def Inr sbind_def slift_def sret_def close_body_def split: option.split)
qed (simp add: send_whole_def sret_def split: prod.split)

text \<open>The message of one part is built, whether it encodes or not.\<close>

lemma part_message_built:
  assumes "NewDelegationView (ce_L X) (ce_U X) l br = Inr d" "wf_store br" "ce_fuel X = Suc n"
    and "sum_list (map w (dlg_Proofs d)) < (w l :: nat)"
  shows "\<exists>m. newPartialInvocationMessage X root (root_only d) = Ret m"
proof -
  have l: "dlg_Link d = l"
    using assms(1,2) by (auto simp: NewDelegationView_Inr dlg_Link_def wf_store_def br_Get_def)
  have "dlg_Proofs d = um_Prf (dl_ucan d)" by (simp add: dlg_Proofs_def ucan_Proofs_def)
  moreover have "j \<noteq> l" if "j \<in> set (dlg_Proofs d)" for j
    using assms(4) member_le_sum_list [of "w j" "map w (dlg_Proofs d)"] that by auto
  then have "\<forall>j \<in> set (dlg_Proofs d). br_Get (bs_Put br_empty (dl_rt d)) j = None"
    using l by (auto simp: store.get_put store.inv_empty store.get_empty dlg_Link_def)
  ultimately have "dlg_Export (ce_fuel X) (ce_L X) (ce_U X) [] (root_only d) = Ret [Inr (dl_rt d)]"
    using assms(3) by (auto simp: dlg_Export_def export_loop_nil store.iter_empty seq_then_def ucan_Proofs_def)
  then show ?thesis by (simp add: newPartialInvocationMessage_def)
qed

text \<open>Executing ends when the negotiation in parts does, one request later.\<close>

lemma ret_execute_ends:
  assumes "answering sent (cn_channel conn)" "\<And>res. \<exists>d. oc_Decode (cn_codec conn) res = Ret d"
    and "msg_Build (ce_L X) (ce_U X) (ce_C X) [ivk] [] = Ret b"
    and "\<And>s. \<exists>r s'. sendPartialInvocations n k X ivk conn s = Ret (r, s') \<and> sent s' \<le> sent s + c"
  shows "\<exists>r s'. ret_client_Execute n k X ivk conn s = Ret (r, s') \<and> sent s' \<le> sent s + c + 1"
proof (cases b)
  case (Inr input)
  obtain r s1 where r: "send_whole input conn s = Ret (r, s1)" "sent s1 \<le> sent s + 1"
    using send_whole_ends [OF assms(1)] by blast
  show ?thesis
  proof (cases r)
    case first: (Inr first)
    show ?thesis
    proof (cases first)
      case None
      obtain q s2 where q: "sendPartialInvocations n k X ivk conn s1 = Ret (q, s2)" "sent s2 \<le> sent s1 + c"
        using assms(4) by blast
      obtain d where "\<And>res. q = Inr res \<Longrightarrow> oc_Decode (cn_codec conn) res = Ret d"
        using assms(2) by (cases q) auto
      then show ?thesis
        using q r by (cases q; cases d) (simp_all add: ret_client_Execute_def assms(3) Inr first None sbind_def slift_def sret_def)
    next
      case (Some res)
      obtain d where "oc_Decode (cn_codec conn) res = Ret d" using assms(2) by blast
      then show ?thesis
        using r by (cases d) (simp_all add: ret_client_Execute_def assms(3) Inr first Some sbind_def slift_def sret_def)
    qed
  qed (use r in \<open>simp add: ret_client_Execute_def assms(3) Inr sbind_def slift_def sret_def\<close>)
qed (simp add: ret_client_Execute_def assms(3) sbind_def slift_def sret_def)

text \<open>
  C24. Executing an invocation over a retrieval connection ends, whatever the server answers: it makes at
  most two requests more than there are proofs, the attempt to send the whole, the invocation without
  proofs, and each proof once. The channel answers every request with a body, the proofs are among the
  blocks of the invocation and decode, and there is fuel for their paths and their number.
\<close>

theorem negotiation_ends:
  assumes "answering sent (cn_channel conn)" "\<And>res. \<exists>d. oc_Decode (cn_codec conn) res = Ret d"
    and "msg_Build (ce_L X) (ce_U X) (ce_C X) [ivk] [] = Ret b"
    and "dlg_Export (ce_fuel X) (ce_L X) (ce_U X) [] ivk = Ret blocks" "NewBlockReader [] blocks = Inr br"
    and "omitProofs X ivk = Ret (Inr part)" "newPartialInvocationMessage X (dlg_Link ivk) part = Ret m"
    and "N = {l. needed (viewed (ce_L X) (ce_U X) br) (set (dlg_Proofs ivk)) l}"
    and "\<And>l. l \<in> N \<Longrightarrow> NewDelegationView (ce_L X) (ce_U X) l br = Inr (D l)"
    and "weighs (viewed (ce_L X) (ce_U X) br) (set (dlg_Proofs ivk)) w" "sum_list (map w (dlg_Proofs ivk)) \<le> n"
    and "finite N" "card N < k"
  shows "\<exists>r s'. ret_client_Execute n k X ivk conn s = Ret (r, s') \<and> sent s' \<le> sent s + card N + 2"
proof -
  let ?L = "ce_L X" and ?U = "ce_U X" and ?f = "viewed (ce_L X) (ce_U X) br"
  have wf: "wf_store br" using assms(5) by (rule reader_wf)
  have n: "\<exists>n. ce_fuel X = Suc n" using assms(4) by (cases "ce_fuel X") (auto simp: dlg_Export_def)
  let ?parts = "\<lambda>l. if l \<in> N then Some (root_only (D l)) else None"
  have c: "collect_parts n X br (dlg_Proofs ivk) Map.empty = Ret (Inr ?parts)"
    using collect_parts_result [OF assms(10,11) _ wf, where D = D and parts = Map.empty] assms(8,9) n by auto
  have l: "dlg_Link (D l) = l" if "l \<in> N" for l
    using assms(9) [OF that] wf by (auto simp: NewDelegationView_Inr dlg_Link_def wf_store_def br_Get_def)
  have new: "\<exists>m. newPartialInvocationMessage X (dlg_Link ivk) (root_only (D l)) = Ret m" if "l \<in> N" for l
  proof -
    have "needed ?f (set (dlg_Proofs ivk)) l" "?f l = Inr (Some (D l))"
      using that assms(8,9) by (auto simp: viewed_def)
    then have "sum_list (map w (dlg_Proofs (D l))) < w l" using weighsD(2) [OF assms(10)] by blast
    with assms(9) [OF that] wf n show ?thesis using part_message_built by metis
  qed
  have d: "dom ?parts = N" by (auto split: if_splits)
  have multi: "\<exists>r s'. sendPartialInvocations n k X ivk conn s = Ret (r, s') \<and> sent s' \<le> sent s + card N + 1" for s
  proof (cases "N = {}")
    case True
    then show ?thesis by (simp add: sendPartialInvocations_def assms(4-6) c sbind_def slift_def sret_def)
  next
    case False
    have "\<exists>r s'. send_parts k X (dlg_Link ivk) conn ?parts part s = Ret (r, s') \<and> sent s' \<le> sent s + card (dom ?parts) + 1"
      by (rule send_parts_ends [OF assms(1)]) (use assms(7,12,13) d l new in \<open>auto simp: ran_def split: if_splits\<close>)
    moreover have "?parts \<noteq> Map.empty" using False by (metis d dom_empty)
    ultimately show ?thesis using d by (simp add: sendPartialInvocations_def assms(4-6) c sbind_def slift_def)
  qed
  then show ?thesis using ret_execute_ends [OF assms(1-3), where c = "card N + 1"] by simp
qed

section \<open>The contract of a channel to a retrieval server\<close>

text \<open>
  The server holds some of the links that are needed, and is ready for one of them. It answers the request for a part with a final
  response, or asks for needed parts that it does not hold, is ready for the first of them, and holds the part sent.
\<close>

definition next_round ::
    "'s clienv \<Rightarrow> link set \<Rightarrow> (link \<Rightarrow> 's \<Rightarrow> bool) \<Rightarrow> ('s \<Rightarrow> link set) \<Rightarrow> (http_response \<Rightarrow> 's \<Rightarrow> bool) \<Rightarrow>
     link \<Rightarrow> 's \<Rightarrow> http_response \<Rightarrow> 's \<Rightarrow> bool" where
  "next_round X links ready has finished k s res s' \<longleftrightarrow>
     rs_status res \<in> {200, 206} \<and> finished res s' \<or>
     (\<exists>body b model p ps. rs_status res = 510 \<and> rs_body res = Some body \<and> read_all body = Inr b \<and>
        ce_json X b = Inr model \<and> mp_Proofs model = p # ps \<and> p \<in> links - has s - {k} \<and> ready p s' \<and>
        insert k (has s) \<subseteq> has s')"

locale partial_channel =
  fixes X :: "'s clienv"
    and conn :: "'s connection"
    and l :: link
    and part :: "link \<Rightarrow> delegation"
    and links :: "link set"
    and ready :: "link \<Rightarrow> 's \<Rightarrow> bool"
    and has :: "'s \<Rightarrow> link set"
    and finished :: "http_response \<Rightarrow> 's \<Rightarrow> bool"
  assumes part_link: "ready k s \<Longrightarrow> dlg_Link (part k) = k"
    and answered: "ready k s \<Longrightarrow> \<exists>input req res s'. ce_done X s = None \<and>
          newPartialInvocationMessage X l (part k) = Ret (Inr input) \<and> oc_Encode (cn_codec conn) input = Inr req \<and>
          cn_channel conn req s = Ret (Inr res, s') \<and>
          next_round X links ready has finished k s res s'"
begin

lemma negotiated:
  assumes "ready k s" "finite (dom parts)" "links - has s - {k} \<subseteq> dom parts"
    and "\<And>j p. parts j = Some p \<Longrightarrow> p = part j" "card (dom parts) < n"
  shows "\<exists>res s'. send_parts n X l conn parts (part k) s = Ret (Inr res, s') \<and> rs_status res \<in> {200, 206} \<and> finished res s'"
  using assms
proof (induction n arbitrary: s k parts)
  case (Suc n)
  obtain input req res s1 where m: "ce_done X s = None" "newPartialInvocationMessage X l (part k) = Ret (Inr input)"
      "oc_Encode (cn_codec conn) input = Inr req" "cn_channel conn req s = Ret (Inr res, s1)"
    and a: "next_round X links ready has finished k s res s1"
    using answered [OF Suc.prems(1)] by blast
  from a consider (final) "rs_status res \<in> {200, 206}" "finished res s1"
    | (more) body b model p ps where "rs_status res = 510" "rs_body res = Some body" "read_all body = Inr b"
      "ce_json X b = Inr model" "mp_Proofs model = p # ps" "p \<in> links - has s - {k}" "ready p s1" "insert k (has s) \<subseteq> has s1"
    unfolding next_round_def by (elim disjE exE conjE)
  then show ?case
  proof cases
    case final
    then have "next_part X parts res = Ret (Inr (Inl res))" by (auto simp: next_part_def)
    with final m show ?thesis by (simp add: sbind_def slift_def sret_def)
  next
    case (more body b model p ps)
    note r = more(1-5) and p = more(6) and s1 = more(7,8)
    from p Suc.prems(3,4) have parts: "parts p = Some (part p)" by (metis domD in_mono)
    note lp = part_link [OF s1(1)]
    let ?ps = "parts(p := None)"
    note c = drop_part [OF Suc.prems(2) parts]
    have "\<exists>res s'. send_parts n X l conn ?ps (part p) s1 = Ret (Inr res, s') \<and> rs_status res \<in> {200, 206} \<and> finished res s'"
    proof (rule Suc.IH [OF s1(1)])
      show "links - has s1 - {p} \<subseteq> dom ?ps" using Suc.prems(3) s1(2) by auto
      show "q = part j" if "?ps j = Some q" for j q using that Suc.prems(4) by (auto split: if_splits)
      show "card (dom ?ps) < n" using c(2) Suc.prems(5) by linarith
    qed (rule c(1))
    moreover have "next_part X parts res = Ret (Inr (Inr (part p)))" using r parts by (simp add: next_part_def)
    ultimately show ?thesis using m by (simp add: sbind_def slift_def lp)
  qed
qed simp

end

section \<open>What goes over the wire\<close>

text \<open>A request that carries its message in a header of at most 4096 bytes, and has no body.\<close>

definition header_fits :: "http_request \<Rightarrow> bool" where
  "header_fits req \<longleftrightarrow> rq_body req = None \<and> length (hdr_Get (rq_headers req) HeaderName) \<le> 4096"

lemma encoded_fits: "hcarreq_Encode K H msg = Inr req \<Longrightarrow> header_fits req"
  by (auto simp: hcarreq_Encode_def EncodeHeader_def Let_def MaxHeaderSizeBytes_def header_fits_def http_NewRequest_def
      hdr_Set_def hdr_Get_def hdr_values_def split: sum.splits if_splits)

lemma send_whole_channels:
  assumes "cn_codec conn = hcar_outbound L K H C" "\<And>req. header_fits req \<Longrightarrow> c1 req = c2 req"
  shows "send_whole input (conn\<lparr> cn_channel := c1 \<rparr>) = send_whole input (conn\<lparr> cn_channel := c2 \<rparr>)"
  using assms(2) encoded_fits by (auto simp: send_whole_def assms(1) hcar_outbound_def split: sum.splits)

lemma send_parts_channels:
  assumes "cn_codec conn = hcar_outbound L K H C" "\<And>req. header_fits req \<Longrightarrow> c1 req = c2 req"
  shows "send_parts k X l (conn\<lparr> cn_channel := c1 \<rparr>) parts part s = send_parts k X l (conn\<lparr> cn_channel := c2 \<rparr>) parts part s"
proof (induction k arbitrary: parts part s)
  case (Suc k)
  let ?A = "conn\<lparr> cn_channel := c1 \<rparr>" and ?B = "conn\<lparr> cn_channel := c2 \<rparr>"
  have ih: "send_parts k X l ?A = send_parts k X l ?B" by (intro ext) (rule Suc.IH)
  have sent: "c1 req = c2 req" if "hcarreq_Encode K H input = Inr req" for req input
    by (rule assms(2) [OF encoded_fits [OF that]])
  show ?case
  proof (cases "newPartialInvocationMessage X l part")
    case (Ret m)
    then show ?thesis by (auto simp: ih assms(1) hcar_outbound_def split: option.split sum.split dest!: sent)
  qed (simp_all split: option.split)
qed simp

text \<open>
  C25. What goes over the wire is small. A retrieval client hands to its channel only requests that
  carry their message in a header of at most 4096 bytes: whatever the channel does with any other
  request makes no difference to an execution, whole or in parts.
\<close>

theorem requests_fit_headers:
  assumes "cn_codec conn = hcar_outbound L K H C" and "\<And>req. header_fits req \<Longrightarrow> c1 req = c2 req"
  shows "ret_client_Execute n k X ivk (conn\<lparr> cn_channel := c1 \<rparr>) = ret_client_Execute n k X ivk (conn\<lparr> cn_channel := c2 \<rparr>)"
proof -
  have "sendPartialInvocations n k X ivk (conn\<lparr> cn_channel := c1 \<rparr>) = sendPartialInvocations n k X ivk (conn\<lparr> cn_channel := c2 \<rparr>)"
  proof -
    have "send_parts k X l (conn\<lparr> cn_channel := c1 \<rparr>) = send_parts k X l (conn\<lparr> cn_channel := c2 \<rparr>)" for l
      by (intro ext) (rule send_parts_channels [OF assms])
    then show ?thesis unfolding sendPartialInvocations_def by presburger
  qed
  moreover have "send_whole input (conn\<lparr> cn_channel := c1 \<rparr>) = send_whole input (conn\<lparr> cn_channel := c2 \<rparr>)" for input
    by (rule send_whole_channels [OF assms])
  ultimately show ?thesis by (simp add: ret_client_Execute_def cong: sum.case_cong option.case_cong)
qed

theorem requests_fit_headers_witness:
  "\<exists>conn :: nat connection.
     cn_codec conn = hcar_outbound lib0 car0 hcar0 msgcodec0 \<and>
     (\<forall>n k X ivk. ret_client_Execute n k X ivk conn =
        ret_client_Execute n k X ivk (conn\<lparr> cn_channel := \<lambda>req s. if header_fits req then cn_channel conn req s else Fuel \<rparr>))"
proof -
  let ?conn = "\<lparr> cn_id = did0 ''s'', cn_codec = hcar_outbound lib0 car0 hcar0 msgcodec0,
     cn_channel = \<lambda>req s. Ret (Inl (ChanErr ''refused''), s + 1 :: nat), cn_hasher = sha256sum lib0 \<rparr>"
  have "ret_client_Execute n k X ivk ?conn = ret_client_Execute n k X ivk
      (?conn\<lparr> cn_channel := \<lambda>req s. if header_fits req then cn_channel ?conn req s else Fuel \<rparr>)" for n k X ivk
    using requests_fit_headers [of ?conn lib0 car0 hcar0 msgcodec0 "cn_channel ?conn"
      "\<lambda>req s. if header_fits req then cn_channel ?conn req s else Fuel"] by simp
  then show ?thesis by (intro exI [of _ ?conn]) simp
qed

end
