(* ===== verification/Negotiation.thy ===== *)
theory Negotiation
  imports Client
begin

text \<open>
  The client of client/retrieval against the server of server/retrieval: a channel that hands requests to
  the server meets the contract of Client, so the negotiation brings a complete invocation to the server
  and its answer back.
\<close>

section \<open>The client and the server\<close>

text \<open>A network that hands each request to the server and gives its answer.\<close>

definition direct_channel :: "('s, 'c) retenv \<Rightarrow> 's ret_server \<Rightarrow> 's channel" where
  "direct_channel Y srv req =
     sbind (ret_Handle Y srv req) (\<lambda>r. sret (map_sum (\<lambda>e. ChanErr (ge_Error e)) id r))"

text \<open>
  A client and a server with the same libraries, the header codec, the in-memory cache and a JSON codec
  that reads what it writes; the context of the client is not done.
\<close>

definition peers :: "('c \<times> 'w) clienv \<Rightarrow> ('c \<times> 'w, 'c) retenv \<Rightarrow> ('c \<times> 'w) connection \<Rightarrow> ('c \<times> 'w) ret_server \<Rightarrow>
    'c lrulib \<Rightarrow> bool" where
  "peers X Y conn srv R \<longleftrightarrow>
     ce_L X = re_L Y \<and> ce_U X = re_U Y \<and> ce_C X = re_C Y \<and> 0 < ce_fuel X \<and> (\<forall>s. ce_done X s = None) \<and>
     cn_codec conn = hcar_outbound (re_L Y) (se_K (re_E Y)) (re_H Y) (re_C Y) \<and>
     cn_channel conn = direct_channel Y srv \<and>
     sv_codec (rv_server srv) = hcar_inbound (re_L Y) (se_K (re_E Y)) (re_H Y) (re_C Y) \<and>
     rv_cache srv = MemoryDelegationCache R \<and> codec_ok (re_C Y) \<and>
     (\<forall>ls. \<exists>n b. rl_missing (re_T Y) (missing_proofs_model_of ls) = Inr n \<and> rl_dagjson (re_T Y) n = Inr b \<and>
        ce_json X b = Inr (missing_proofs_model_of ls))"

definition proof_links :: "('s, 'c) retenv \<Rightarrow> blockreader \<Rightarrow> link \<Rightarrow> link set" where
  "proof_links Y br root = {l. needed (viewed (re_L Y) (re_U Y) br) {root} l}"

text \<open>
  An invocation that can be sent in parts: its blocks hold the delegations \<open>D\<close> of the links it needs,
  whose paths are no more than the fuel, and each part's message is small enough for a header.
\<close>

definition divisible :: "('s, 'c) retenv \<Rightarrow> blockreader \<Rightarrow> link \<Rightarrow> (link \<Rightarrow> delegation) \<Rightarrow> (link \<Rightarrow> nat) \<Rightarrow> block \<Rightarrow> bool" where
  "divisible Y br root D w mrt \<longleftrightarrow>
     wf_store br \<and> (\<forall>l \<in> proof_links Y br root. NewDelegationView (re_L Y) (re_U Y) l br = Inr (D l)) \<and>
     weighs (viewed (re_L Y) (re_U Y) br) {root} w \<and> w root \<le> re_fuel Y \<and>
     block_Encode (re_L Y) (re_C Y) \<lparr> dm_Execute = [root], dm_Report = None \<rparr> = Inr mrt \<and>
     blk_link mrt \<notin> proof_links Y br root \<and>
     (\<forall>l \<in> proof_links Y br root. let m = partial_message root (dl_rt (D l)) mrt
        in hcar_sendable (re_L Y) (se_K (re_E Y)) (re_H Y) (re_C Y) m \<and> (\<exists>req. hcarreq_Encode (se_K (re_E Y)) (re_H Y) m = Inr req))"

text \<open>The invocation as the server puts it together, with everything it needs.\<close>

definition assembled :: "('s, 'c) retenv \<Rightarrow> blockreader \<Rightarrow> link \<Rightarrow> (link \<Rightarrow> delegation) \<Rightarrow> delegation \<Rightarrow> bool" where
  "assembled Y br root D ivk \<longleftrightarrow>
     dlg_Link ivk = root \<and> dl_ucan ivk = dl_ucan (D root) \<and>
     (\<forall>l \<in> proof_links Y br root. \<exists>e. NewDelegationView (re_L Y) (re_U Y) l (dl_blks ivk) = Inr e \<and> dl_ucan e = dl_ucan (D l))"

text \<open>A server that answers the assembled invocation, in a header, and says OK or that it gives a part.\<close>

definition answers :: "('s, 'c) retenv \<Rightarrow> 's ret_server \<Rightarrow> delegation \<Rightarrow> ret_request \<Rightarrow> 's \<Rightarrow> receipt \<Rightarrow> ret_response \<Rightarrow>
    message \<Rightarrow> http_response \<Rightarrow> 's \<Rightarrow> bool" where
  "answers Y srv ivk req s rcpt resp m enc s' \<longleftrightarrow>
     ret_Run Y srv ivk req s = Ret (Inr (rcpt, resp), s') \<and> rr_Status resp \<in> {0, 200, 206} \<and>
     msg_Build (re_L Y) (re_U Y) (re_C Y) [] [rcpt] = Ret (Inr m) \<and>
     hcar_sendable (re_L Y) (se_K (re_E Y)) (re_H Y) (re_C Y) m \<and> hcarres_Encode (se_K (re_E Y)) (re_H Y) m = Inr enc"

definition serving :: "('s, 'c) retenv \<Rightarrow> 's ret_server \<Rightarrow> blockreader \<Rightarrow> link \<Rightarrow> (link \<Rightarrow> delegation) \<Rightarrow> bool" where
  "serving Y srv br root D \<longleftrightarrow>
     (\<forall>ivk req s. assembled Y br root D ivk \<longrightarrow> (\<exists>rcpt resp m enc s'. answers Y srv ivk req s rcpt resp m enc s'))"

text \<open>A cached delegation is the one of its link, and exports just its root block.\<close>

definition kept :: "('s, 'c) retenv \<Rightarrow> delegation \<Rightarrow> delegation \<Rightarrow> bool" where
  "kept Y d d' \<longleftrightarrow> dl_rt d' = dl_rt d \<and> dl_ucan d' = dl_ucan d \<and> exports (re_fuel Y) (re_L Y) (re_U Y) d' [dl_rt d]"

definition nego_ready ::
    "('c \<times> 'w) clienv \<Rightarrow> ('c \<times> 'w, 'c) retenv \<Rightarrow> ('c \<times> 'w) connection \<Rightarrow> ('c \<times> 'w) ret_server \<Rightarrow> 'c lrulib \<Rightarrow>
     ('c \<Rightarrow> string \<rightharpoonup> delegation) \<Rightarrow> ('c \<Rightarrow> bool) \<Rightarrow> nat \<Rightarrow> blockreader \<Rightarrow> link \<Rightarrow> (link \<Rightarrow> delegation) \<Rightarrow> (link \<Rightarrow> nat) \<Rightarrow> block \<Rightarrow>
     link \<Rightarrow> 'c \<times> 'w \<Rightarrow> bool" where
  "nego_ready X Y conn srv R view good cap br root D w mrt k s \<longleftrightarrow>
     peers X Y conn srv R \<and> divisible Y br root D w mrt \<and> serving Y srv br root D \<and>
     mem_usable R view good cap s \<and> mem_room view cap (proof_links Y br root) s \<and>
     (\<forall>l \<in> proof_links Y br root. \<forall>d. view (fst s) l = Some d \<longrightarrow> kept Y (D l) d) \<and>
     needed (\<lambda>l. Inr (view (fst s) l)) {root} k"

text \<open>A final response: the server's, for the assembled invocation.\<close>

definition answered_by :: "('s, 'c) retenv \<Rightarrow> 's ret_server \<Rightarrow> blockreader \<Rightarrow> link \<Rightarrow> (link \<Rightarrow> delegation) \<Rightarrow>
    http_response \<Rightarrow> 's \<Rightarrow> bool" where
  "answered_by Y srv br root D res s' \<longleftrightarrow>
     (\<exists>ivk req s rcpt resp m enc. assembled Y br root D ivk \<and> answers Y srv ivk req s rcpt resp m enc s' \<and>
        rs_status res = (if rr_Status resp = 0 then 200 else rr_Status resp) \<and>
        rs_body res = Some (case rr_Body resp of None \<Rightarrow> text_body [] | Some b \<Rightarrow> b) \<and>
        resp_Get res HeaderName = resp_Get enc HeaderName)"

section \<open>What the server sees of a part\<close>

lemma needed_graph:
  assumes "needed f Q l" "\<And>j d. needed f Q j \<Longrightarrow> f j = Inr (Some d) \<Longrightarrow> \<exists>d'. g j = Inr (Some d') \<and> dlg_Proofs d' = dlg_Proofs d"
  shows "needed g Q l"
  using assms(1)
proof (induction rule: needed.induct)
  case (needed_proof l d q)
  with assms(2) obtain d' where "g l = Inr (Some d')" "dlg_Proofs d' = dlg_Proofs d" by blast
  with needed_proof show ?case by (metis needed.needed_proof)
qed (rule needed_root)

lemma same_proofs: "dl_ucan d = dl_ucan e \<Longrightarrow> dlg_Proofs d = dlg_Proofs e"
  by (simp add: dlg_Proofs_def)

lemma divisible_link:
  assumes "divisible Y br root D w mrt" "l \<in> proof_links Y br root"
  shows "dlg_Link (D l) = l" "set (dlg_Proofs (D l)) \<subseteq> proof_links Y br root"
    and "0 < w l" "sum_list (map w (dlg_Proofs (D l))) < w l" "l \<notin> set (dlg_Proofs (D l))"
    and "dlg_decode (re_L Y) (re_U Y) (dl_rt (D l)) = Inr (dl_ucan (D l))" "viewed (re_L Y) (re_U Y) br l = Inr (Some (D l))"
proof -
  from assms have v: "NewDelegationView (re_L Y) (re_U Y) l br = Inr (D l)" by (simp add: divisible_def)
  with assms(1) show "dlg_Link (D l) = l" "dlg_decode (re_L Y) (re_U Y) (dl_rt (D l)) = Inr (dl_ucan (D l))"
    by (auto simp: NewDelegationView_Inr dlg_Link_def divisible_def wf_store_def br_Get_def)
  show f: "viewed (re_L Y) (re_U Y) br l = Inr (Some (D l))" by (simp add: viewed_def v)
  have n: "needed (viewed (re_L Y) (re_U Y) br) {root} l" using assms(2) by (simp add: proof_links_def)
  show "set (dlg_Proofs (D l)) \<subseteq> proof_links Y br root"
    using needed_proof [OF n f] by (auto simp: proof_links_def)
  from assms(1) have w: "weighs (viewed (re_L Y) (re_U Y) br) {root} w" by (simp add: divisible_def)
  show "0 < w l" by (rule weighsD(1) [OF w n])
  show s: "sum_list (map w (dlg_Proofs (D l))) < w l" by (rule weighsD(2) [OF w n f])
  then show "l \<notin> set (dlg_Proofs (D l))" using member_le_sum_list [of "w l" "map w (dlg_Proofs (D l))"] by auto
qed

definition part_store :: "delegation \<Rightarrow> block \<Rightarrow> blockreader" where
  "part_store d mrt = bs_Put (bs_Put br_empty (dl_rt d)) mrt"

lemma part_store_get:
  "br_Get (part_store d mrt) l =
     (if l = dlg_Link d then Some (dl_rt d) else if l = blk_link mrt then Some mrt else None)"
  by (auto simp: part_store_def store.get_put store.inv_put store.inv_empty store.get_empty dlg_Link_def)

lemma root_linked: "root \<in> proof_links Y br root"
  by (simp add: proof_links_def needed_root)

lemma part_seen:
  assumes "divisible Y br root D w mrt" "k \<in> proof_links Y br root"
    and "\<forall>l \<in> proof_links Y br root. \<forall>d. c l = Some d \<longrightarrow> kept Y (D l) d"
  defines "bs \<equiv> part_store (D k) mrt"
  defines "f \<equiv> resolved (re_L Y) (re_U Y) bs c"
  shows "l \<in> proof_links Y br root \<Longrightarrow> f l = (if l = k then Inr (Some (part_of (D k) bs)) else Inr (c l))"
    and "l \<in> proof_links Y br root \<Longrightarrow> f l = Inr (Some d) \<Longrightarrow> kept Y (D l) d"
    and "needed f {root} l \<Longrightarrow> l \<in> proof_links Y br root"
    and "weighs f {root} w"
proof -
  note k = divisible_link [OF assms(1,2)]
  have m: "blk_link mrt \<notin> proof_links Y br root" using assms(1) by (simp add: divisible_def)
  obtain n where n: "re_fuel Y = Suc n"
    using divisible_link(3) [OF assms(1) root_linked] assms(1) by (cases "re_fuel Y") (auto simp: divisible_def)
  show f: "f l = (if l = k then Inr (Some (part_of (D k) bs)) else Inr (c l))" if "l \<in> proof_links Y br root" for l
    using k(1,6) m that
    by (auto simp: f_def bs_def resolved_def part_store_get NewDelegation_def NewBlockStore_def part_of_def)
  have "\<forall>j \<in> set (dlg_Proofs (D k)). br_Get bs j = None"
    using k(1,2,5) m by (auto simp: bs_def part_store_get)
  then have x: "kept Y (D k) (part_of (D k) bs)"
    by (simp add: kept_def part_of_def exports_def dlg_Export_def n export_loop_nil dlg_Proofs_def store.iter_empty seq_then_def)
  show kd: "kept Y (D l) d" if "l \<in> proof_links Y br root" "f l = Inr (Some d)" for l d
    using that f [OF that(1)] x assms(3) by (auto split: if_splits)
  have p: "dlg_Proofs d = dlg_Proofs (D l)" if "l \<in> proof_links Y br root" "f l = Inr (Some d)" for l d
    using kd [OF that] by (intro same_proofs) (simp add: kept_def)
  show l: "l \<in> proof_links Y br root" if "needed f {root} l" for l
    using that
  proof (induction rule: needed.induct)
    case (needed_proof l d q)
    with p [OF needed_proof.IH] divisible_link(2) [OF assms(1) needed_proof.IH] show ?case by auto
  qed (simp add: root_linked)
  show "weighs f {root} w"
    unfolding weighs_def using l p divisible_link(3,4) [OF assms(1)] by metis
qed

section \<open>One round\<close>

lemma part_message_sent:
  assumes "peers X Y conn srv R" "divisible Y br root D w mrt" "k \<in> proof_links Y br root"
  obtains req m where "newPartialInvocationMessage X root (root_only (D k)) = Ret (Inr (partial_message root (dl_rt (D k)) mrt))"
    "oc_Encode (cn_codec conn) (partial_message root (dl_rt (D k)) mrt) = Inr req"
    "sv_codec (rv_server srv) req = Inr (hcar_accept (re_L Y) (se_K (re_E Y)) (re_H Y) (re_C Y))"
    "ac_Decode (hcar_accept (re_L Y) (se_K (re_E Y)) (re_H Y) (re_C Y)) req = Ret (Inr m)"
    "msg_Invocations m = [root]" "NewBlockStore [] (msg_Blocks m) = Inr (part_store (D k) mrt)"
proof -
  let ?m = "partial_message root (dl_rt (D k)) mrt"
  note k = divisible_link [OF assms(2,3)]
  have "blk_link mrt \<noteq> k" using assms(2,3) by (auto simp: divisible_def)
  moreover have "\<forall>j \<in> set (dlg_Proofs (D k)). br_Get (bs_Put br_empty (dl_rt (D k))) j = None"
    using k(1,5) by (auto simp: store.get_put [OF store.inv_empty] store.get_empty dlg_Link_def)
  ultimately have new: "newPartialInvocationMessage X root (root_only (D k)) = Ret (Inr ?m)"
    using partial_message_result [of "root_only (D k)" X root mrt] assms(1,2) k(1)
    by (simp add: peers_def divisible_def)
  obtain req where s: "hcar_sendable (re_L Y) (se_K (re_E Y)) (re_H Y) (re_C Y) ?m" "hcarreq_Encode (se_K (re_E Y)) (re_H Y) ?m = Inr req"
    using assms(2,3) by (auto simp: divisible_def Let_def)
  obtain m where m: "hcarreq_Decode (re_L Y) (se_K (re_E Y)) (re_H Y) (re_C Y) req = Inr m" "same_message ?m m"
    using header_request.carried [OF s] by auto
  have wf: "wf_store (part_store (D k) mrt)"
    by (simp add: part_store_def store.inv_put store.inv_empty)
  then have "NewBlockStore [] (br_Iterator (part_store (D k) mrt)) = Inr (part_store (D k) mrt)"
    using reader_of_store [OF wf, of "[]"] by (simp add: NewBlockReader_eq_NewBlockStore)
  moreover have "msg_Blocks m = br_Iterator (part_store (D k) mrt)" "msg_Invocations m = [root]"
    using same_message_reads(2,3) [OF m(2)] by (simp_all add: msg_Blocks_def msg_Invocations_def partial_message_def part_store_def)
  moreover have "sv_codec (rv_server srv) req = Inr (hcar_accept (re_L Y) (se_K (re_E Y)) (re_H Y) (re_C Y))"
    using header_request_accepted [OF s] assms(1) by (simp add: peers_def)
  moreover have "ac_Decode (hcar_accept (re_L Y) (se_K (re_E Y)) (re_H Y) (re_C Y)) req = Ret (Inr m)"
    using m(1) by (simp add: hcar_accept_def)
  moreover have "oc_Encode (cn_codec conn) ?m = Inr req" using s(2) assms(1) by (simp add: peers_def hcar_outbound_def)
  ultimately show thesis using that new by simp
qed

lemma mem_room_mono:
  assumes "mem_room view cap K s" "J \<subseteq> K" "mem_usable R view good cap s"
  shows "mem_room view cap J s"
proof -
  have "finite (dom (view (fst s)))" using mem_step(4) [of R view good cap "fst s" "snd s"] assms(3) by simp
  then have "card (dom (view (fst s)) \<union> J) \<le> card (dom (view (fst s)) \<union> K)"
    using assms(1,2) by (intro card_mono) (auto simp: mem_room_def)
  with assms(1,2) show ?thesis by (auto simp: mem_room_def intro: finite_subset)
qed

lemma ready_link:
  assumes "nego_ready X Y conn srv R view good cap br root D w mrt k s"
  shows "k \<in> proof_links Y br root"
    and "needed (\<lambda>l. Inr (view (fst s) l)) {root} l \<Longrightarrow> l \<in> proof_links Y br root"
proof -
  let ?N = "proof_links Y br root"
  from assms have dv: "divisible Y br root D w mrt" and kc: "\<forall>l \<in> ?N. \<forall>d. view (fst s) l = Some d \<longrightarrow> kept Y (D l) d"
    and nk: "needed (\<lambda>l. Inr (view (fst s) l)) {root} k"
    by (simp_all add: nego_ready_def)
  show cN: "l \<in> ?N" if "needed (\<lambda>l. Inr (view (fst s) l)) {root} l" for l
    using that
  proof (induction rule: needed.induct)
    case (needed_proof l d q)
    have "kept Y (D l) d" by (rule bspec [OF kc needed_proof.IH, rule_format]) (use needed_proof.hyps(2) in simp)
    then have "dlg_Proofs d = dlg_Proofs (D l)" by (intro same_proofs) (simp add: kept_def)
    with needed_proof.hyps(3) divisible_link(2) [OF dv needed_proof.IH] show ?case by auto
  qed (simp add: root_linked)
  from cN [OF nk] show "k \<in> ?N" .
qed

text \<open>With proofs missing, the server asks for one it does not hold, and keeps the part.\<close>

lemma round_missing:
  assumes "nego_ready X Y conn srv R view good cap br root D w mrt k s"
    and "sv_codec (rv_server srv) req = Inr sel" "ac_Decode sel req = Ret (Inr m)" "msg_Invocations m = [root]"
    and "NewBlockStore [] (msg_Blocks m) = Inr (part_store (D k) mrt)"
    and "f = resolved (re_L Y) (re_U Y) (part_store (D k) mrt) (view (fst s))" "missing_set f {root} \<noteq> {}"
    and "k \<in> proof_links Y br root"
  obtains p ps b s' h where "ret_Handle Y srv req s = Ret (Inr \<lparr> rs_status = 510, rs_headers = Some h, rs_body = Some (b, None) \<rparr>, s')"
    "ce_json X b = Inr (missing_proofs_model_of (p # ps))" "p \<in> proof_links Y br root - dom (view (fst s)) - {k}"
    "nego_ready X Y conn srv R view good cap br root D w mrt p s'" "insert k (dom (view (fst s))) \<subseteq> dom (view (fst s'))"
proof -
  let ?N = "proof_links Y br root"
  from assms(1) have P: "peers X Y conn srv R" and dv: "divisible Y br root D w mrt" and sv: "serving Y srv br root D"
    and u: "mem_usable R view good cap s" and room: "mem_room view cap ?N s"
    and kc: "\<forall>l \<in> ?N. \<forall>d. view (fst s) l = Some d \<longrightarrow> kept Y (D l) d"
    and nk: "needed (\<lambda>l. Inr (view (fst s) l)) {root} k"
    by (simp_all add: nego_ready_def)
  note seen = part_seen [OF dv assms(8) kc, folded assms(6)]
  have cache: "rv_cache srv = MemoryDelegationCache R" using P by (simp add: peers_def)
  have "\<forall>ls. \<exists>n b. rl_missing (re_T Y) (missing_proofs_model_of ls) = Inr n \<and> rl_dagjson (re_T Y) n = Inr b \<and>
        ce_json X b = Inr (missing_proofs_model_of ls)"
    using P by (simp add: peers_def)
  then obtain node_of json_of where j: "\<And>ls. rl_missing (re_T Y) (missing_proofs_model_of ls) = Inr (node_of ls)"
    "\<And>ls. rl_dagjson (re_T Y) (node_of ls) = Inr (json_of ls)" "\<And>ls. ce_json X (json_of ls) = Inr (missing_proofs_model_of ls)"
    by metis
  have sent: "sent_links f (part_store (D k) mrt) root \<subseteq> ?N" using seen(3) by (auto simp: sent_links_def)
  note room' = mem_room_mono [OF room sent u]
  have good: "\<forall>l e. needed f {root} l \<longrightarrow> f l \<noteq> Inl e"
  proof (intro allI impI)
    fix l e assume "needed f {root} l"
    from seen(1) [OF seen(3) [OF this]] show "f l \<noteq> Inl e" by simp
  qed
  have fuel: "w root \<le> re_fuel Y" using dv by (simp add: divisible_def)
  obtain ms h s' where h: "ret_Handle Y srv req s =
        Ret (Inr \<lparr> rs_status = 510, rs_headers = Some h, rs_body = Some (json_of ms, None) \<rparr>, s')"
    and ms: "set ms = missing_set f {root}" and u': "mem_usable R view good cap s'"
    and v: "view (fst s') = (\<lambda>l. if l \<in> sent_links f (part_store (D k) mrt) root then projr (f l) else view (fst s) l)"
    using missing_answered [OF assms(2-4) cache u assms(5,6) seen(4) fuel good assms(7) room' j(1,2)] by blast
  obtain p ps where p: "ms = p # ps" using ms assms(7) by (cases ms) auto
  with ms have np: "needed f {root} p" "f p = Inr None" by (auto simp: missing_set_def)
  from seen(3) [OF np(1)] seen(1) [OF seen(3) [OF np(1)]] np(2)
  have pN: "p \<in> ?N" "p \<noteq> k" "view (fst s) p = None" by (auto split: if_splits)
  note cN = ready_link(2) [OF assms(1)]
  have "needed f {root} k"
  proof (rule needed_graph [OF nk])
    fix l d assume l: "needed (\<lambda>l. Inr (view (fst s) l)) {root} l" "Inr (view (fst s) l) = Inr (Some d)"
    have "kept Y (D l) d" by (rule bspec [OF kc cN [OF l(1)], rule_format]) (use l(2) in simp)
    then have "dlg_Proofs d = dlg_Proofs (D l)" by (intro same_proofs) (simp add: kept_def)
    with l seen(1) [OF cN [OF l(1)]] show "\<exists>d'. f l = Inr (Some d') \<and> dlg_Proofs d' = dlg_Proofs d"
      by (auto simp: part_of_def dlg_Proofs_def)
  qed
  moreover have "blk_link mrt \<notin> ?N" using dv by (simp add: divisible_def)
  moreover note divisible_link(1) [OF dv assms(8)]
  ultimately have "sent_links f (part_store (D k) mrt) root = {k}"
    using seen(3) by (auto simp: sent_links_def part_store_get split: if_splits)
  then have v': "view (fst s') = (view (fst s))(k \<mapsto> part_of (D k) (part_store (D k) mrt))"
    unfolding v using seen(1) [OF assms(8)] by (simp add: fun_eq_iff)
  have "dom (view (fst s')) \<union> ?N = dom (view (fst s)) \<union> ?N" using assms(8) by (auto simp: v')
  then have "mem_room view cap ?N s'" using room by (simp add: mem_room_def)
  moreover have "\<forall>l \<in> ?N. \<forall>d. view (fst s') l = Some d \<longrightarrow> kept Y (D l) d"
    using kc seen(2) [OF assms(8)] seen(1) [OF assms(8)] by (auto simp: v')
  moreover have "needed (\<lambda>l. Inr (view (fst s') l)) {root} p"
  proof (rule needed_graph [OF np(1)])
    fix l d assume "needed f {root} l" "f l = Inr (Some d)"
    with seen(1) [OF seen(3)] show "\<exists>d'. Inr (view (fst s') l) = Inr (Some d') \<and> dlg_Proofs d' = dlg_Proofs d"
      by (auto simp: v' split: if_splits)
  qed
  ultimately have "nego_ready X Y conn srv R view good cap br root D w mrt p s'"
    using P dv sv u' by (simp add: nego_ready_def)
  with h j(3) pN show thesis by (intro that [of h "json_of ms" s' p ps]) (auto simp: p v')
qed

lemma exports_unique: "exports n L U d x \<Longrightarrow> exports n L U d y \<Longrightarrow> x = y"
  by (simp add: exports_def inj_map_eq_map)

text \<open>With nothing missing, the server assembles the invocation and answers it.\<close>

lemma round_assembled:
  assumes "nego_ready X Y conn srv R view good cap br root D w mrt k s"
    and "NewBlockStore [] (msg_Blocks m) = Inr (part_store (D k) mrt)"
    and "f = resolved (re_L Y) (re_U Y) (part_store (D k) mrt) (view (fst s))" "missing_set f {root} = {}"
    and "k \<in> proof_links Y br root"
  obtains ivk s' where "ExtractInvocation (re_fuel Y) (re_L Y) (re_U Y) root m (MemoryDelegationCache R) s = Ret (Inr ivk, s')"
    "assembled Y br root D ivk"
proof -
  let ?N = "proof_links Y br root" and ?bs = "part_store (D k) mrt"
  from assms(1) have dv: "divisible Y br root D w mrt" and u: "mem_usable R view good cap s"
    and kc: "\<forall>l \<in> ?N. \<forall>d. view (fst s) l = Some d \<longrightarrow> kept Y (D l) d"
    by (simp_all add: nego_ready_def)
  note seen = part_seen [OF dv assms(5) kc, folded assms(3)]
  note link = divisible_link [OF dv]
  have good: "\<forall>l e. needed f {root} l \<longrightarrow> f l \<noteq> Inl e"
  proof (intro allI impI)
    fix l e assume "needed f {root} l"
    from seen(1) [OF seen(3) [OF this]] show "f l \<noteq> Inl e" by simp
  qed
  have fuel: "w root \<le> re_fuel Y" using dv by (simp add: divisible_def)
  have mrt: "blk_link mrt \<notin> ?N" using dv by (simp add: divisible_def)
  have found: "\<exists>l \<in> ?N. kept Y (D l) d" if "d \<in> found_set f {root} (\<lambda>_. True)" for d
    using that seen(2,3) by (auto simp: found_set_def)
  have parts: "\<forall>d \<in> found_set f {root} (\<lambda>_. True). dlg_decode (re_L Y) (re_U Y) (dl_rt d) = Inr (dl_ucan d) \<and>
      (\<exists>bl. exports (re_fuel Y) (re_L Y) (re_U Y) d bl)"
    using found link(6) by (metis kept_def)
  have blocks: "b = mrt \<or> (\<exists>l \<in> ?N. b = dl_rt (D l))" if "b \<in> gathered_blocks (re_fuel Y) (re_L Y) (re_U Y) f ?bs root" for b
    using that unfolding gathered_blocks_def
  proof (elim UnE CollectE exE conjE)
    assume "br_Get ?bs (blk_link b) = Some b"
    then have "b = mrt \<or> b = dl_rt (D k)" unfolding part_store_get by (metis option.inject option.distinct(1))
    then show ?thesis using assms(5) by blast
  next
    fix d bl
    assume d: "d \<in> found_set f {root} (\<lambda>_. True)" "exports (re_fuel Y) (re_L Y) (re_U Y) d bl" "b \<in> set bl"
    from found [OF d(1)] obtain l where l: "l \<in> ?N" "kept Y (D l) d" by blast
    have "bl = [dl_rt (D l)]" by (rule exports_unique [OF d(2) l(2) [unfolded kept_def, THEN conjunct2, THEN conjunct2]])
    then have "b = dl_rt (D l)" using d(3) by simp
    with l(1) show ?thesis by blast
  qed
  have inj: "inj_on blk_link (gathered_blocks (re_fuel Y) (re_L Y) (re_U Y) f ?bs root)"
  proof (rule inj_onI)
    fix a b assume a: "a \<in> gathered_blocks (re_fuel Y) (re_L Y) (re_U Y) f ?bs root"
      and b: "b \<in> gathered_blocks (re_fuel Y) (re_L Y) (re_U Y) f ?bs root" and e: "blk_link a = blk_link b"
    have "blk_link (dl_rt (D l)) = l" if "l \<in> ?N" for l using link(1) [OF that] by (simp add: dlg_Link_def)
    with blocks [OF a] blocks [OF b] e mrt show "a = b" by auto
  qed
  obtain ivk s' where e: "ExtractInvocation (re_fuel Y) (re_L Y) (re_U Y) root m (MemoryDelegationCache R) s = Ret (Inr ivk, s')"
    and l: "dlg_Link ivk = root"
    and v: "\<forall>l. needed f {root} l \<longrightarrow> (\<exists>d e. f l = Inr (Some d) \<and> NewDelegationView (re_L Y) (re_U Y) l (dl_blks ivk) = Inr e \<and>
        dl_rt e = dl_rt d \<and> dl_ucan e = dl_ucan d \<and> (l = root \<longrightarrow> e = ivk))"
    using extract_complete [OF u assms(2,3) seen(4) fuel good assms(4) parts inj] by blast
  have got: "\<exists>d. f l = Inr (Some d) \<and> kept Y (D l) d" if n: "needed f {root} l" for l
  proof -
    have lN: "l \<in> ?N" by (rule seen(3) [OF n])
    from v n obtain d where d: "f l = Inr (Some d)" by blast
    with seen(2) [OF lN d] show ?thesis by blast
  qed
  have all: "needed f {root} l" if "l \<in> ?N" for l
    using that unfolding proof_links_def mem_Collect_eq
  proof (induction rule: needed.induct)
    case (needed_proof l d q)
    have "l \<in> ?N" using needed_proof.hyps(1) by (simp add: proof_links_def)
    then have "d = D l" using link(7) needed_proof.hyps(2) by simp
    obtain d' where d': "f l = Inr (Some d')" "kept Y (D l) d'" using got [OF needed_proof.IH] by blast
    then have "dlg_Proofs d' = dlg_Proofs d" unfolding \<open>d = D l\<close> by (intro same_proofs) (simp add: kept_def)
    with needed.needed_proof [OF needed_proof.IH d'(1)] needed_proof.hyps(3) show ?case by simp
  qed (rule needed_root, simp)
  have "assembled Y br root D ivk"
    unfolding assembled_def
  proof (intro conjI ballI)
    show "dlg_Link ivk = root" by (rule l)
    show t: "\<exists>e. NewDelegationView (re_L Y) (re_U Y) l (dl_blks ivk) = Inr e \<and> dl_ucan e = dl_ucan (D l)" if lN: "l \<in> ?N" for l
    proof -
      obtain d e where "f l = Inr (Some d)" "NewDelegationView (re_L Y) (re_U Y) l (dl_blks ivk) = Inr e" "dl_ucan e = dl_ucan d"
        using v all [OF lN] by blast
      with seen(2) [OF lN] show ?thesis by (auto simp: kept_def)
    qed
    obtain d e where "f root = Inr (Some d)" "dl_ucan e = dl_ucan d" "e = ivk"
      using v all [OF root_linked] by blast
    with seen(2) [OF root_linked] show "dl_ucan ivk = dl_ucan (D root)" by (auto simp: kept_def)
  qed
  with e show thesis by (rule that)
qed

lemma first_value_kept:
  assumes "hdr_values h (CanonicalHeaderKey k) = v # vs"
  shows "\<exists>us. hdr_values (hdr_Add h k' v') (CanonicalHeaderKey k) = v # us"
  using assms by (auto simp: hdr_Add_def Let_def)

lemma first_value_kept_all:
  "hdr_values h (CanonicalHeaderKey k) = v # vs \<Longrightarrow> \<exists>us. hdr_values (addAllHeaders h hs) (CanonicalHeaderKey k) = v # us"
proof -
  have one: "\<exists>us. hdr_values (foldl (\<lambda>d v. hdr_Add d name v) h vals) (CanonicalHeaderKey k) = v # us"
    if "hdr_values h (CanonicalHeaderKey k) = v # vs" for h name vals vs
    using that
  proof (induction vals arbitrary: h vs)
    case (Cons v' vals)
    obtain us where "hdr_values (hdr_Add h name v') (CanonicalHeaderKey k) = v # us"
      using first_value_kept [OF Cons.prems] by blast
    from Cons.IH [OF this] show ?case by simp
  qed simp
  have src: "\<exists>us. hdr_values (foldl (\<lambda>d (name, values). foldl (\<lambda>d v. hdr_Add d name v) d values) h src) (CanonicalHeaderKey k) = v # us"
    if "hdr_values h (CanonicalHeaderKey k) = v # vs" for h src vs
    using that
  proof (induction src arbitrary: h vs)
    case (Cons x src)
    then show ?case using one [of h vs "fst x" "snd x"] by (cases x) fastforce
  qed simp
  show "hdr_values h (CanonicalHeaderKey k) = v # vs \<Longrightarrow> \<exists>us. hdr_values (addAllHeaders h hs) (CanonicalHeaderKey k) = v # us"
    unfolding addAllHeaders_def
  proof (induction hs arbitrary: h vs)
    case (Cons x hs)
    then show ?case using src [of h vs x] by fastforce
  qed simp
qed

text \<open>The header of the encoded message is the first of its name in the response, whatever is added to it.\<close>

lemma added_header:
  assumes "h \<noteq> []" "hs = addAllHeaders (hdr_Set [] HeaderName h) l \<or> hs = hdr_Set [] HeaderName h"
  shows "hdr_Get (hdr_Add hs name v) HeaderName = h"
proof -
  have e: "hdr_values (hdr_Set [] HeaderName h) (CanonicalHeaderKey HeaderName) = h # []"
    by (simp add: hdr_Set_def hdr_values_def)
  have "\<exists>us. hdr_values hs (CanonicalHeaderKey HeaderName) = h # us"
    using assms(2) first_value_kept_all [OF e, of l] e by blast
  then obtain us where "hdr_values hs (CanonicalHeaderKey HeaderName) = h # us" by blast
  from first_value_kept [OF this, of name v] show ?thesis by (auto simp: hdr_Get_def)
qed

lemma round_answered:
  assumes "sv_codec (rv_server srv) req = Inr (hcar_accept (re_L Y) (se_K (re_E Y)) (re_H Y) (re_C Y))"
    and "ac_Decode (hcar_accept (re_L Y) (se_K (re_E Y)) (re_H Y) (re_C Y)) req = Ret (Inr m)" "msg_Invocations m = [root]"
    and "ExtractInvocation (re_fuel Y) (re_L Y) (re_U Y) root m (rv_cache srv) s = Ret (Inr ivk, s1)"
    and "assembled Y br root D ivk" "serving Y srv br root D"
  obtains res s' where "ret_Handle Y srv req s = Ret (Inr res, s')" "rs_status res \<in> {200, 206}" "answered_by Y srv br root D res s'"
proof -
  let ?q = "\<lparr> rq_URL = rq_url req, rq_Headers = rq_headers req \<rparr>"
  obtain rcpt resp out enc s' where a: "answers Y srv ivk ?q s1 rcpt resp out enc s'"
    using assms(5,6) unfolding serving_def by blast
  then have run: "ret_Run Y srv ivk ?q s1 = Ret (Inr (rcpt, resp), s')" "rr_Status resp \<in> {0, 200, 206}"
      "msg_Build (re_L Y) (re_U Y) (re_C Y) [] [rcpt] = Ret (Inr out)" "hcarres_Encode (se_K (re_E Y)) (re_H Y) out = Inr enc"
    and snd: "hcar_sendable (re_L Y) (se_K (re_E Y)) (re_H Y) (re_C Y) out"
    by (simp_all add: answers_def)
  obtain h where h: "EncodeHeader (se_K (re_E Y)) (re_H Y) out [] = Inr h" "enc = http_NewResponse 200 None (Some (hdr_Set [] HeaderName h))"
    using run(4) by (auto simp: hcarres_Encode_def case_sum_eq)
  have ne: "h \<noteq> []" using header_roundtrip(1) [OF snd h(1)] .
  obtain hs where hs: "rs_headers (merge_response enc resp) = Some hs"
    "hs = addAllHeaders (hdr_Set [] HeaderName h) (case rr_Headers resp of None \<Rightarrow> [] | Some x \<Rightarrow> [x]) \<or> hs = hdr_Set [] HeaderName h"
    by (cases "rr_Headers resp") (simp_all add: merge_response_def Let_def http_NewResponse_def h(2))
  let ?res = "http_NewResponse (rs_status (merge_response enc resp))
    (case rs_body (merge_response enc resp) of None \<Rightarrow> Some (text_body []) | Some b \<Rightarrow> Some b) (Some (hdr_Add hs ''Vary'' HeaderName))"
  have "ret_Handle Y srv req s = Ret (Inr ?res, s')"
    using assms(1-4) run hs(1)
    by (simp add: ret_Handle_def ret_handle_def ret_Execute_def sbind_def sret_def slift_def Let_def hcar_accept_def)
  moreover have st: "rs_status ?res = (if rr_Status resp = 0 then 200 else rr_Status resp)"
    using run(2) by (auto simp: merge_response_def http_NewResponse_def Let_def h(2))
  moreover have "rs_status ?res \<in> {200, 206}" unfolding st using run(2) by auto
  moreover have "rs_body ?res = Some (case rr_Body resp of None \<Rightarrow> text_body [] | Some b \<Rightarrow> b)"
    by (simp add: merge_response_def http_NewResponse_def Let_def split: option.split)
  moreover have "resp_Get ?res HeaderName = resp_Get enc HeaderName"
    using added_header [OF ne hs(2), of "''Vary''" HeaderName]
    by (simp add: resp_Get_def h(2) http_NewResponse_def hdr_Set_def hdr_Get_def hdr_values_def)
  ultimately have "answered_by Y srv br root D ?res s'"
    unfolding answered_by_def using assms(5) a by blast
  with \<open>ret_Handle Y srv req s = Ret (Inr ?res, s')\<close> \<open>rs_status ?res \<in> {200, 206}\<close> show thesis by (rule that)
qed

section \<open>The server answers a channel of parts\<close>

interpretation nego: partial_channel X conn root "\<lambda>k. root_only (D k)" "proof_links Y br root"
    "nego_ready X Y conn srv R view good cap br root D w mrt" "\<lambda>s. dom (view (fst s))" "answered_by Y srv br root D"
  for X :: "('c \<times> 'w) clienv" and conn root D and Y :: "('c \<times> 'w, 'c) retenv" and br srv R view good cap w mrt
proof
  fix k s
  assume r: "nego_ready X Y conn srv R view good cap br root D w mrt k s"
  then have P: "peers X Y conn srv R" and dv: "divisible Y br root D w mrt" and sv: "serving Y srv br root D"
    by (simp_all add: nego_ready_def)
  note k = ready_link(1) [OF r]
  show "dlg_Link (root_only (D k)) = k" using divisible_link(1) [OF dv k] by simp
  let ?sel = "hcar_accept (re_L Y) (se_K (re_E Y)) (re_H Y) (re_C Y)"
  obtain req m where m: "newPartialInvocationMessage X root (root_only (D k)) = Ret (Inr (partial_message root (dl_rt (D k)) mrt))"
    "oc_Encode (cn_codec conn) (partial_message root (dl_rt (D k)) mrt) = Inr req"
    and q: "sv_codec (rv_server srv) req = Inr ?sel" "ac_Decode ?sel req = Ret (Inr m)" "msg_Invocations m = [root]"
    "NewBlockStore [] (msg_Blocks m) = Inr (part_store (D k) mrt)"
    by (rule part_message_sent [OF P dv k])
  have d: "ce_done X s = None" using P unfolding peers_def by blast
  have chan: "cn_channel conn = direct_channel Y srv" and cache: "rv_cache srv = MemoryDelegationCache R"
    using P by (simp_all add: peers_def)
  let ?f = "resolved (re_L Y) (re_U Y) (part_store (D k) mrt) (view (fst s))"
  let ?next = "next_round X (proof_links Y br root) (nego_ready X Y conn srv R view good cap br root D w mrt)
    (\<lambda>s. dom (view (fst s))) (answered_by Y srv br root D) k s"
  have "\<exists>res s'. ret_Handle Y srv req s = Ret (Inr res, s') \<and> ?next res s'"
  proof (cases "missing_set ?f {root} = {}")
    case True
    obtain ivk s1 where e: "ExtractInvocation (re_fuel Y) (re_L Y) (re_U Y) root m (rv_cache srv) s = Ret (Inr ivk, s1)"
      "assembled Y br root D ivk"
      by (rule round_assembled [OF r q(4) refl True k, folded cache])
    show ?thesis by (rule round_answered [OF q(1-3) e sv]) (auto simp: next_round_def)
  next
    case False
    obtain p ps b s' h where o: "ret_Handle Y srv req s = Ret (Inr \<lparr> rs_status = 510, rs_headers = Some h, rs_body = Some (b, None) \<rparr>, s')"
      "ce_json X b = Inr (missing_proofs_model_of (p # ps))" "p \<in> proof_links Y br root - dom (view (fst s)) - {k}"
      "nego_ready X Y conn srv R view good cap br root D w mrt p s'" "insert k (dom (view (fst s))) \<subseteq> dom (view (fst s'))"
      by (rule round_missing [OF r q(1-4) refl False k])
    have "?next \<lparr> rs_status = 510, rs_headers = Some h, rs_body = Some (b, None) \<rparr> s'"
      unfolding next_round_def
      by (intro disjI2 exI [of _ "(b, None)"] exI [of _ b] exI [of _ "missing_proofs_model_of (p # ps)"] exI [of _ p] exI [of _ ps])
        (use o(2-5) in \<open>simp add: read_all_def missing_proofs_model_of_def\<close>)
    with o(1) show ?thesis by blast
  qed
  then obtain res s' where h: "ret_Handle Y srv req s = Ret (Inr res, s')" "?next res s'" by blast
  then have "cn_channel conn req s = Ret (Inr res, s')" by (simp add: chan direct_channel_def sbind_def sret_def)
  with m d h(2) show "\<exists>input req res s'. ce_done X s = None \<and>
          newPartialInvocationMessage X root (root_only (D k)) = Ret (Inr input) \<and> oc_Encode (cn_codec conn) input = Inr req \<and>
          cn_channel conn req s = Ret (Inr res, s') \<and> ?next res s'"
    by blast
qed

text \<open>What the client makes of the invocation: the parts, and the one to begin with.\<close>

lemma parts_collected:
  assumes "peers X Y conn srv R" "divisible Y br root D w mrt" "set ps = set (dlg_Proofs (D root))" "sum_list (map w ps) \<le> n"
    and "finite (proof_links Y br root)"
  obtains parts where "collect_parts n X br ps Map.empty = Ret (Inr parts)" "dom parts \<subseteq> proof_links Y br root"
    "proof_links Y br root - {root} \<subseteq> dom parts" "\<And>j p. parts j = Some p \<Longrightarrow> p = root_only (D j)"
proof -
  let ?f = "viewed (re_L Y) (re_U Y) br"
  have LU: "ce_L X = re_L Y" "ce_U X = re_U Y" "0 < ce_fuel X" using assms(1) by (simp_all add: peers_def)
  note root = divisible_link [OF assms(2) root_linked]
  have step: "needed ?f {root} l \<longleftrightarrow> l = root \<or> needed ?f (set ps) l" for l
    using needed_step [where f = ?f and p = root, OF root(7), of "{}" l] by (simp add: assms(3))
  have w: "weighs ?f (set ps) w"
    using assms(2) step unfolding divisible_def weighs_def by blast
  have "wf_store br" "\<And>l. l \<in> proof_links Y br root \<Longrightarrow> NewDelegationView (re_L Y) (re_U Y) l br = Inr (D l)"
    using assms(2) by (simp_all add: divisible_def)
  then have "collect_parts n X br ps Map.empty = Ret (Inr (\<lambda>l. if needed ?f (set ps) l then Some (root_only (D l)) else None))"
    using collect_parts_result [of X br ps w n D Map.empty] w assms(4) LU step by (simp add: proof_links_def)
  then show thesis
  proof (rule that)
    show "proof_links Y br root - {root} \<subseteq> dom (\<lambda>l. if needed ?f (set ps) l then Some (root_only (D l)) else None)"
      unfolding proof_links_def using step by (simp add: subset_iff domIff)
  qed (auto simp: proof_links_def step split: if_splits)
qed

text \<open>
  C6. The negotiation succeeds: an invocation too big for a header, sent over a retrieval connection to a
  retrieval server, is answered, and the message executing returns is the server's answer for the whole
  invocation, whose proofs all decode from its blocks, with the status and the body the handler gave. The
  server holds what it was sent before, or nothing, in a cache with room for the proofs.
\<close>

theorem negotiation_succeeds:
  assumes "nego_ready X Y conn srv R view good cap br root D w mrt root s"
    and "dlg_Export (ce_fuel X) (ce_L X) (ce_U X) [] ivk = Ret blocks" "NewBlockReader [] blocks = Inr br"
    and "dl_rt ivk = dl_rt (D root)" "dl_ucan ivk = dl_ucan (D root)" "dl_atch ivk = br_empty" "dlg_Proofs ivk \<noteq> []"
    and "msg_Build (ce_L X) (ce_U X) (ce_C X) [ivk] [] = Ret (Inr input)" "oc_Encode (cn_codec conn) input = Inl (e, True)"
    and "sum_list (map w (dlg_Proofs ivk)) \<le> n" "card (proof_links Y br root) < k"
  shows "\<exists>out res s' ivk' req s1 rcpt resp m enc.
    ret_client_Execute n k X ivk conn s = Ret (Inr (out, res), s') \<and> assembled Y br root D ivk' \<and>
    answers Y srv ivk' req s1 rcpt resp m enc s' \<and> same_message m out \<and>
    rs_status res = (if rr_Status resp = 0 then 200 else rr_Status resp) \<and>
    rs_body res = Some (case rr_Body resp of None \<Rightarrow> text_body [] | Some b \<Rightarrow> b)"
proof -
  from assms(1) have P: "peers X Y conn srv R" and dv: "divisible Y br root D w mrt" and room: "mem_room view cap (proof_links Y br root) s"
    by (simp_all add: nego_ready_def)
  have LU: "ce_L X = re_L Y" "ce_U X = re_U Y" "0 < ce_fuel X" using P by (simp_all add: peers_def)
  have fin: "finite (proof_links Y br root)" using room by (simp add: mem_room_def)
  note root = divisible_link [OF dv root_linked]
  have pf: "dlg_Proofs ivk = dlg_Proofs (D root)" by (rule same_proofs [OF assms(5)])
  obtain parts where parts: "collect_parts n X br (dlg_Proofs ivk) Map.empty = Ret (Inr parts)" "dom parts \<subseteq> proof_links Y br root"
    "proof_links Y br root - {root} \<subseteq> dom parts" "\<And>j p. parts j = Some p \<Longrightarrow> p = root_only (D j)"
    using parts_collected [OF P dv _ assms(10) fin] pf by metis
  have ne: "parts \<noteq> Map.empty"
    using parts(3) root(2,5) assms(7) unfolding pf by (cases "dlg_Proofs (D root)") auto
  have r: "root_only ivk = root_only (D root)" by (simp add: root_only_def part_of_def assms(4,5))
  have omit: "omitProofs X ivk = Ret (Inr (root_only (D root)))"
    using omitted_root [of ivk X] assms(4-6) root(6) LU r by simp
  have l: "dlg_Link ivk = root" using root(1) assms(4) by (simp add: dlg_Link_def)
  have c: "card (dom parts) < k" using card_mono [OF fin parts(2)] assms(11) by linarith
  have d: "proof_links Y br root - dom (view (fst s)) - {root} \<subseteq> dom parts" using parts(3) by blast
  obtain res s' where sp: "send_parts k X root conn parts (root_only (D root)) s = Ret (Inr res, s')"
    and a: "answered_by Y srv br root D res s'"
    using nego.negotiated [OF assms(1) finite_subset [OF parts(2) fin] d parts(4) c] by blast
  have multi: "sendPartialInvocations n k X ivk conn s = Ret (Inr res, s')"
    using sp ne by (simp add: sendPartialInvocations_def assms(2,3) omit parts(1) l sbind_def slift_def)
  from a obtain ivk' req s1 rcpt resp m enc where b: "assembled Y br root D ivk'" "answers Y srv ivk' req s1 rcpt resp m enc s'"
      "rs_status res = (if rr_Status resp = 0 then 200 else rr_Status resp)"
      "rs_body res = Some (case rr_Body resp of None \<Rightarrow> text_body [] | Some b \<Rightarrow> b)" "resp_Get res HeaderName = resp_Get enc HeaderName"
    unfolding answered_by_def by blast
  obtain out where out: "hcarres_Decode (re_L Y) (se_K (re_E Y)) (re_H Y) (re_C Y) enc = Inr out" "same_message m out"
    using header_response.carried [of "re_L Y" "se_K (re_E Y)" "re_H Y" "re_C Y" m enc] b(2) by (auto simp: answers_def)
  then have "oc_Decode (cn_codec conn) res = Ret (Inr out)"
    using P b(5) by (simp add: peers_def hcar_outbound_def hcarres_Decode_def)
  then have "ret_client_Execute n k X ivk conn s = Ret (Inr (out, res), s')"
    using multi by (simp add: ret_client_Execute_def send_whole_def assms(8,9) sbind_def slift_def sret_def)
  with b out(2) show ?thesis by blast
qed

section \<open>A client and a server, for the witness\<close>

text \<open>
  An invocation with one proof. The compression knows a few messages, which become short, and makes all
  others longer, so that the parts fit in a header and the whole does not.
\<close>

definition hcar3 :: "bytes list \<Rightarrow> hcarlib" where
  "hcar3 book = \<lparr>
     hl_gzip = (\<lambda>b. if b \<in> set book then replicate (length (takeWhile (\<lambda>x. x \<noteq> b) book)) (CHR 0x00)
                     else replicate 4096 (CHR 0x00) @ b),
     hl_gunzip = (\<lambda>c. Inr (if length c < length book then book ! length c else drop 4096 c, None)),
     hl_base64 = z_encode \<rparr>"

lemma book_index:
  "b \<in> set book \<Longrightarrow> length (takeWhile (\<lambda>x. x \<noteq> b) book) < length book \<and> book ! length (takeWhile (\<lambda>x. x \<noteq> b) book) = b"
  by (induction book) auto

lemma hcar3_ok: "length book \<le> 4096 \<Longrightarrow> hcarlib_ok lib0 (hcar3 book)"
  using book_index [of _ book] by (auto simp: hcarlib_ok_def hcar3_def z_encode_def z_decode_def lib0_def)

definition ucan3 :: ucan_model where
  "ucan3 = (ucan0 [plink])\<lparr> um_Att := [Ucan.capability_model.make ''did:web:s'' ''store/add'' (Some (NMap []))] \<rparr>"

definition ucanlib3 :: ucanlib where
  "ucanlib3 = ucanlib0\<lparr> ul_cbor := table_codec 113 [(''u'', ucan3), (''p'', ucan0 [])] \<rparr>"

definition data3 :: data_model where
  "data3 = \<lparr> dm_Execute = [], dm_Report = Some \<lparr> rt_Keys = [ulink], rt_Values = [ulink \<mapsto> blk_link (blk2 ''r'')] \<rparr> \<rparr>"

definition msgcodec3 :: "data_model codec" where
  "msgcodec3 = table_codec 113 [(''m'', data1), (''n'', data3)]"

definition reply3 :: "(link \<rightharpoonup> receipt) \<Rightarrow> message" where
  "reply3 rs = \<lparr> ms_root = blk2 ''n'', ms_data = data3, ms_blks = foldl bs_Put br_empty [blk2 ''r'', blk2 ''n''],
                 ms_store = True, ms_invs = Map.empty, ms_rcpts = rs \<rparr>"

definition car_bytes :: "message \<Rightarrow> bytes" where
  "car_bytes m = fst (car_Encode car0 [blk_link (msg_Root m)] (msg_Blocks m))"

definition book3 :: "bytes list" where
  "book3 = map car_bytes [partial_message ulink (blk2 ''u'') (blk2 ''m''), partial_message ulink (blk2 ''p'') (blk2 ''m''),
                          reply3 Map.empty]"

text \<open>The JSON of a list of links is each of them with its length before it.\<close>

fun links_from :: "nat \<Rightarrow> bytes \<Rightarrow> link list" where
  "links_from 0 b = []"
| "links_from (Suc n) b = (case take_str b of None \<Rightarrow> [] | Some (l, rest) \<Rightarrow> l # links_from n rest)"

lemma links_from_put: "length ls \<le> n \<Longrightarrow> links_from n (concat (map put_str ls)) = ls"
proof (induction ls arbitrary: n)
  case Nil
  then show ?case by (cases n) (simp_all add: take_str_def leb_take.simps)
next
  case (Cons l ls)
  then show ?case by (cases n) simp_all
qed

lemma put_str_length: "length ls \<le> length (concat (map put_str ls))"
proof (induction ls)
  case (Cons l ls)
  have "put_str l \<noteq> []" using take_str_put [of l "[]"] by (auto simp: take_str_def leb_take.simps)
  then have "1 \<le> length (put_str l)" by (cases "put_str l") auto
  with Cons show ?case by simp
qed simp

lemma table3:
  "block_Encode lib0 msgcodec3 data1 = Inr (blk2 ''m'')" "block_Encode lib0 msgcodec3 data3 = Inr (blk2 ''n'')"
  "codec_ok msgcodec3" "dlg_decode lib0 ucanlib3 (blk2 ''u'') = Inr ucan3" "dlg_decode lib0 ucanlib3 (blk2 ''p'') = Inr (ucan0 [])"
  by (simp_all add: block_Encode_def msgcodec3_def table_codec_def blk2_def data1_def data3_def codec_ok_def
      dlg_decode_def block_Decode_def ucanlib3_def NewBlock_def NewUCAN_def)

lemma links3: "distinct (map blk_link [blk2 ''u'', blk2 ''p'', blk2 ''m'', blk2 ''n'', blk2 ''r''])"
  by (simp add: blk2_link)

lemma find_block: "distinct (map blk_link bs) \<Longrightarrow> b \<in> set bs \<Longrightarrow> find (\<lambda>x. blk_link x = blk_link b) bs = Some b"
  by (induction bs) (auto simp: inj_on_eq_iff)

lemma sendable3:
  assumes "ms_blks m = foldl bs_Put br_empty (map blk2 xs)" "distinct (map (\<lambda>x. blk_link (blk2 x)) xs)"
    and "ms_root m = blk2 x" "x \<in> set xs" "block_Encode lib0 msgcodec3 (ms_data m) = Inr (blk2 x)"
  shows "hcar_sendable lib0 car0 (hcar3 book3) msgcodec3 m"
proof -
  have d: "distinct (map blk_link (map blk2 xs))" using assms(2) by (simp add: comp_def)
  have "\<exists>y. b = blk2 y" if "Inr b \<in> set (br_Iterator (ms_blks m))" for b
    using that first_per_link_subset [of "{}" "map blk2 xs"] by (auto simp: assms(1) store.contents(2))
  moreover have "br_Get (ms_blks m) (blk_link (ms_root m)) = Some (ms_root m)"
    unfolding assms(1,3) store.contents(1) using assms(4) by (intro find_block [OF d]) simp
  moreover have "car_intact car0 (blk2 b)" for b by (rule encoded_car_intact [OF const_block(1)])
  moreover have "block_Decode lib0 msgcodec3 (ms_root m) = Inr (ms_data m)"
    using block_codec_roundtrip [OF table3(3) assms(5)] assms(3) by simp
  moreover have "hcarlib_ok lib0 (hcar3 book3)" by (rule hcar3_ok) (simp add: book3_def)
  ultimately show ?thesis
    unfolding hcar_sendable_def sendable_def using car0_ok assms(1) store.contents(3) by metis
qed

lemma header3:
  assumes "hcar_sendable lib0 car0 (hcar3 book3) msgcodec3 m"
  shows "(\<exists>h. EncodeHeader car0 (hcar3 book3) m [] = Inr h) \<longleftrightarrow> car_bytes m \<in> set book3"
    and "car_bytes m \<notin> set book3 \<Longrightarrow> EncodeHeader car0 (hcar3 book3) m [] = Inl (ErrHeaderTooLarge, True)"
proof -
  have "sendable lib0 car0 msgcodec3 m" using assms by (simp add: hcar_sendable_def)
  then obtain b where b: "car_Encode car0 [blk_link (msg_Root m)] (msg_Blocks m) = (b, None)"
    by (rule car_message_roundtrip [OF car0_ok])
  then have e: "car_bytes m = b" by (simp add: car_bytes_def)
  have "length book3 \<le> 4095" by (simp add: book3_def)
  with book_index [of b book3] have "b \<in> set book3 \<Longrightarrow> length (takeWhile (\<lambda>x. x \<noteq> b) book3) < 4096" by linarith
  then show "(\<exists>h. EncodeHeader car0 (hcar3 book3) m [] = Inr h) \<longleftrightarrow> car_bytes m \<in> set book3"
    and "car_bytes m \<notin> set book3 \<Longrightarrow> EncodeHeader car0 (hcar3 book3) m [] = Inl (ErrHeaderTooLarge, True)"
    by (auto simp: EncodeHeader_def b e read_all_def hcar3_def z_encode_def MaxHeaderSizeBytes_def Let_def)
qed

text \<open>Messages with the same CAR have the same blocks.\<close>

lemma car_bytes_blocks:
  assumes "hcar_sendable lib0 car0 H msgcodec3 m" "hcar_sendable lib0 car0 H msgcodec3 m'" "car_bytes m = car_bytes m'"
  shows "ms_blks m = ms_blks m'"
proof -
  have r: "\<exists>x. message_of_car lib0 car0 msgcodec3 (car_bytes n, None) = Inr x \<and> ms_blks x = ms_blks n"
    if "hcar_sendable lib0 car0 H msgcodec3 n" for n
    by (rule car_message_roundtrip [OF car0_ok, of msgcodec3 n])
       (use that in \<open>auto simp: hcar_sendable_def car_bytes_def same_message_def\<close>)
  show ?thesis using r [OF assms(1)] r [OF assms(2)] assms(3) by auto
qed

lemma root3: "block_Encode lib0 msgcodec3 \<lparr> dm_Execute = [ulink], dm_Report = None \<rparr> = Inr (blk2 ''m'')"
  using table3(1) by (simp add: data1_def)

lemma parts3:
  "b \<in> {''u'', ''p''} \<Longrightarrow> hcar_sendable lib0 car0 (hcar3 book3) msgcodec3 (partial_message ulink (blk2 b) (blk2 ''m''))"
  "b \<in> {''u'', ''p''} \<Longrightarrow> \<exists>req. hcarreq_Encode car0 (hcar3 book3) (partial_message ulink (blk2 b) (blk2 ''m'')) = Inr req"
  "hcar_sendable lib0 car0 (hcar3 book3) msgcodec3 (reply3 rs)"
  "\<exists>enc. hcarres_Encode car0 (hcar3 book3) (reply3 rs) = Inr enc"
proof -
  show p: "hcar_sendable lib0 car0 (hcar3 book3) msgcodec3 (partial_message ulink (blk2 b) (blk2 ''m''))" if "b \<in> {''u'', ''p''}" for b
    using that links3 by (intro sendable3 [where xs = "[b, ''m'']" and x = "''m''"]) (auto simp: partial_message_def root3)
  show q: "hcar_sendable lib0 car0 (hcar3 book3) msgcodec3 (reply3 rs)"
    using links3 by (intro sendable3 [where xs = "[''r'', ''n'']" and x = "''n''"]) (auto simp: reply3_def table3)
  have "car_bytes (reply3 rs) = car_bytes (reply3 Map.empty)" by (simp add: car_bytes_def reply3_def msg_Root_def msg_Blocks_def)
  then have "car_bytes (reply3 rs) \<in> set book3" by (simp add: book3_def)
  with header3(1) [OF q] show "\<exists>enc. hcarres_Encode car0 (hcar3 book3) (reply3 rs) = Inr enc"
    by (auto simp: hcarres_Encode_def)
  assume b: "b \<in> {''u'', ''p''}"
  then have "car_bytes (partial_message ulink (blk2 b) (blk2 ''m'')) \<in> set book3" by (auto simp: book3_def)
  with header3(1) [OF p [OF b]] show "\<exists>req. hcarreq_Encode car0 (hcar3 book3) (partial_message ulink (blk2 b) (blk2 ''m'')) = Inr req"
    by (auto simp: hcarreq_Encode_def)
qed

text \<open>The server counts the calls of its only method.\<close>

definition method3 :: "(lru0 \<times> nat) ret_method" where
  "method3 ivk ctx req s =
     Ret ((Inr (Some \<lparr> tx_Out = okResult (Inr (NString ''ok'')), tx_Fx = None \<rparr>), NewResponse 206 None (Some (text_body ''part''))),
          (fst s, snd s + 1))"

definition retenv3 :: "rcptlib \<Rightarrow> (lru0 \<times> nat, lru0) retenv" where
  "retenv3 R = \<lparr> re_E = \<lparr> se_V = \<lparr> ve_L = lib0, ve_U = ucanlib3, ve_order = rev \<rparr>, se_K = car0, se_R = R, se_C = msgcodec3,
       se_S = se_S (env1 ucan3), se_F = se_F (env1 ucan3), se_fuel = 1, se_now = 1000, se_stderr = (\<lambda>_. sret ()) \<rparr>,
     re_H = hcar3 book3,
     re_T = \<lparr> rl_count = (\<lambda>_. Inr NNull), rl_missing = (\<lambda>m. Inr (NList (map NLink (mp_Proofs m)))),
              rl_dagjson = (\<lambda>n. case n of NList ls \<Rightarrow> Inr (concat (map (\<lambda>l. case l of NLink c \<Rightarrow> put_str c | _ \<Rightarrow> []) ls))
                                 | _ \<Rightarrow> Inl ''unsupported'') \<rparr>,
     re_lru = lrulib0, re_fuel = 2 \<rparr>"

definition ret_srv3 :: "rcptlib \<Rightarrow> (lru0 \<times> nat) ret_server" where
  "ret_srv3 R = (case ret_NewServer (retenv3 R) signer1 [ret_WithServiceMethod ''store/add'' method3] of Inr (srv, dc) \<Rightarrow> srv)"

definition clienv3 :: "(lru0 \<times> nat) clienv" where
  "clienv3 = \<lparr> ce_L = lib0, ce_U = ucanlib3, ce_C = msgcodec3, ce_fuel = 2,
     ce_json = (\<lambda>b. Inr (missing_proofs_model_of (links_from (length b) b))), ce_done = (\<lambda>_. None) \<rparr>"

definition conn3 :: "rcptlib \<Rightarrow> (lru0 \<times> nat) connection" where
  "conn3 R = \<lparr> cn_id = did0 ''s'', cn_codec = hcar_outbound lib0 car0 (hcar3 book3) msgcodec3,
     cn_channel = direct_channel (retenv3 R) (ret_srv3 R), cn_hasher = sha256sum lib0 \<rparr>"

lemma retenv3 [simp]:
  "re_L (retenv3 R) = lib0" "re_U (retenv3 R) = ucanlib3" "re_C (retenv3 R) = msgcodec3" "re_lru (retenv3 R) = lrulib0"
  "re_fuel (retenv3 R) = 2" "se_K (re_E (retenv3 R)) = car0" "re_H (retenv3 R) = hcar3 book3" "se_R (re_E (retenv3 R)) = R"
  by (simp_all add: retenv3_def)

lemma ret_made3:
  "ret_NewServer (retenv3 R) signer1 [ret_WithServiceMethod ''store/add'' method3] = Inr (ret_srv3 R, Some [])"
  by (simp add: ret_srv3_def ret_NewServer_def ret_WithServiceMethod_def ret_config0_def
      NewMemoryDelegationCache_def lrulib0_def wrapped_options_def option_to_list_def WithInboundCodec_def
      MemoryDelegationCacheSize_def NewServer_def srvConfig0_def Let_def or_default_def)

lemma ret_srv3 [simp]:
  "sv_codec (rv_server (ret_srv3 R)) = hcar_inbound lib0 car0 (hcar3 book3) msgcodec3"
  "rv_cache (ret_srv3 R) = MemoryDelegationCache lrulib0" "sv_id (rv_server (ret_srv3 R)) = signer1"
  "rv_service (ret_srv3 R) = [''store/add'' \<mapsto> ret_method_of method3]" "srv_LogReceipt (rv_server (ret_srv3 R)) r i = sret None"
  "sv_catch (rv_server (ret_srv3 R)) = stderr_catch (re_E (retenv3 R))"
  by (simp_all add: ret_srv3_def ret_NewServer_def ret_WithServiceMethod_def ret_config0_def
      NewMemoryDelegationCache_def lrulib0_def wrapped_options_def option_to_list_def WithInboundCodec_def
      MemoryDelegationCacheSize_def NewServer_def srvConfig0_def Let_def or_default_def srv_LogReceipt_def)

lemma peers3: "peers clienv3 (retenv3 R) (conn3 R) (ret_srv3 R) lrulib0"
proof -
  have "\<exists>n b. rl_missing (re_T (retenv3 R)) (missing_proofs_model_of ls) = Inr n \<and> rl_dagjson (re_T (retenv3 R)) n = Inr b \<and>
        ce_json clienv3 b = Inr (missing_proofs_model_of ls)" for ls
    using links_from_put [OF put_str_length, of ls]
    by (simp add: retenv3_def clienv3_def missing_proofs_model_of_def comp_def)
  then show ?thesis
    unfolding peers_def using table3(3) by (simp add: clienv3_def conn3_def)
qed

definition br3 :: blockreader where
  "br3 = foldl bs_Put br_empty [blk2 ''p'', blk2 ''u'']"

definition ivk3 :: delegation where
  "ivk3 = \<lparr> dl_rt = blk2 ''u'', dl_blks = br3, dl_atch = br_empty, dl_ucan = ucan3 \<rparr>"

definition D3 :: "link \<Rightarrow> delegation" where
  "D3 l = (if l = ulink then ivk3 else \<lparr> dl_rt = blk2 ''p'', dl_blks = br3, dl_atch = br_empty, dl_ucan = ucan0 [] \<rparr>)"

definition w3 :: "link \<Rightarrow> nat" where
  "w3 l = (if l = ulink then 2 else 1)"

lemma br3_get: "br_Get br3 l = (if l = plink then Some (blk2 ''p'') else if l = ulink then Some (blk2 ''u'') else None)"
  unfolding br3_def store.contents(1) using links0 by simp

lemma view3: "l = ulink \<or> l = plink \<Longrightarrow> NewDelegationView lib0 ucanlib3 l br3 = Inr (D3 l)"
  using links0 table3(4,5) by (auto simp: NewDelegationView_Inr br3_get D3_def ivk3_def)

lemma proofs3: "dlg_Proofs (D3 l) = (if l = ulink then [plink] else [])"
  by (simp add: D3_def ivk3_def dlg_Proofs_def ucan_Proofs_def ucan0_def ucan3_def)

lemma needed3: "needed (viewed lib0 ucanlib3 br3) {ulink} l \<longleftrightarrow> l = ulink \<or> l = plink"
proof
  assume "needed (viewed lib0 ucanlib3 br3) {ulink} l"
  then show "l = ulink \<or> l = plink"
    by (induction rule: needed.induct) (use view3 proofs3 in \<open>auto simp: viewed_def split: if_splits\<close>)
next
  have "viewed lib0 ucanlib3 br3 ulink = Inr (Some (D3 ulink))" "plink \<in> set (dlg_Proofs (D3 ulink))"
    using view3 proofs3 by (simp_all add: viewed_def)
  moreover assume "l = ulink \<or> l = plink"
  ultimately show "needed (viewed lib0 ucanlib3 br3) {ulink} l"
    using needed_proof [where l = ulink and Q = "{ulink}", OF needed_root] needed_root by blast
qed

lemma divisible3: "divisible (retenv3 R) br3 ulink D3 w3 (blk2 ''m'')"
proof -
  have N: "proof_links (retenv3 R) br3 ulink = {ulink, plink}"
    using needed3 by (auto simp: proof_links_def)
  have v: "viewed lib0 ucanlib3 br3 l = Inr (Some (D3 l))" if "needed (viewed lib0 ucanlib3 br3) {ulink} l" for l
    using that view3 unfolding needed3 by (auto simp: viewed_def)
  have "weighs (viewed lib0 ucanlib3 br3) {ulink} w3"
    unfolding weighs_def using v links0 by (auto simp: proofs3 w3_def)
  moreover have "dl_rt (D3 l) = blk2 (if l = ulink then ''u'' else ''p'')" for l by (simp add: D3_def ivk3_def)
  moreover have "wf_store br3" unfolding br3_def by (rule store.contents(3))
  ultimately show ?thesis
    using view3 parts3(1,2) links0 root3 by (auto simp: divisible_def N w3_def Let_def)
qed

lemma replied3:
  assumes "rp_blks r = bs_Put br_empty (rp_rt r)" "rp_rt r = blk2 ''r''" "om_Ran (rc_Ocm (rp_data r)) = Some ulink"
  shows "msg_Build lib0 ucanlib3 msgcodec3 [] [r] = Ret (Inr (reply3 [blk_link (blk2 ''r'') \<mapsto> r]))"
proof -
  have g: "br_Get (rp_blks r) ulink = None"
    using assms(1,2) links3 by (auto simp: store.get_put store.inv_empty store.get_empty)
  have it: "rcpt_Blocks r = map Inr [blk2 ''r'']"
    using assms(1,2) store.contents(2) [of "[blk2 ''r'']"] by (simp add: rcpt_Blocks_def)
  show ?thesis
    using table3(2) assms g it by (simp add: msg_Build_def NewBlockStore_def rcpt_Ran_def ran_FromLink_def ran_Link_def
        rcpt_Root_def data3_def reply3_def)
qed

definition issued3 :: "rcptlib \<Rightarrow> receipt \<Rightarrow> bool" where
  "issued3 R r \<longleftrightarrow>
     rcpt_Issue lib0 R (signer0 (did0 ''s'')) (okResult (Inr (NString ''ok''))) (ran_FromLink (Some ulink)) [] = Ret (Inr r) \<and>
     rp_blks r = bs_Put br_empty (rp_rt r) \<and> rp_rt r = blk2 ''r'' \<and> om_Ran (rc_Ocm (rp_data r)) = Some ulink"

lemma run3:
  assumes "issued3 R r" "assembled (retenv3 R) br3 ulink D3 ivk"
  shows "ret_Run (retenv3 R) (ret_srv3 R) ivk req s =
      Ret (Inr (r, NewResponse 206 None (Some (text_body ''part''))), (fst s, snd s + 1))"
proof -
  from assms(2) have i: "dlg_Link ivk = ulink" "dl_ucan ivk = ucan3" by (simp_all add: assembled_def D3_def ivk3_def)
  have cap: "dlg_Capabilities ivk = [Ucan.NewCapability ''store/add'' ''did:web:s'' (any_of_node (Some (NMap [])))]"
    by (simp add: dlg_Capabilities_def ucan_Capabilities_def i(2) ucan3_def Ucan.capability_model.defs)
  have "ret_issue (retenv3 R) (ret_srv3 R) (okResult (Inr (NString ''ok''))) ulink (fx_options None) t = Ret (Inr r, t)" for t
    using assms(1) by (simp add: ret_issue_def fx_options_def signer1_def issued3_def)
  then show ?thesis
    by (simp add: ret_Run_def Let_def cap i(1) Ucan.NewCapability_def ret_method_of_def method3_def NewTransaction_def sbind_def sret_def)
qed

lemma serving3:
  assumes "issued3 R r"
  shows "serving (retenv3 R) (ret_srv3 R) br3 ulink D3"
  unfolding serving_def
proof (intro allI impI)
  fix ivk req and s :: "lru0 \<times> nat"
  assume "assembled (retenv3 R) br3 ulink D3 ivk"
  note run = run3 [OF assms this, of req s]
  have m: "msg_Build lib0 ucanlib3 msgcodec3 [] [r] = Ret (Inr (reply3 [blk_link (blk2 ''r'') \<mapsto> r]))"
    using assms by (intro replied3) (simp_all add: issued3_def)
  obtain enc where "hcarres_Encode car0 (hcar3 book3) (reply3 [blk_link (blk2 ''r'') \<mapsto> r]) = Inr enc"
    using parts3(4) by blast
  then show "\<exists>rcpt resp m enc s'. answers (retenv3 R) (ret_srv3 R) ivk req s rcpt resp m enc s'"
    using run m parts3(3) by (auto simp: answers_def NewResponse_def)
qed

text \<open>The whole invocation is built, and too big.\<close>

lemma whole3:
  obtains input e where "msg_Build lib0 ucanlib3 msgcodec3 [ivk3] [] = Ret (Inr input)" "hcarreq_Encode car0 (hcar3 book3) input = Inl (e, True)"
proof -
  let ?input = "\<lparr> ms_root = blk2 ''m'', ms_data = data1, ms_blks = foldl bs_Put br_empty (map blk2 [''p'', ''u'', ''m'']),
    ms_store = True, ms_invs = [ulink \<mapsto> ivk3], ms_rcpts = Map.empty \<rparr>"
  have "dlg_Blocks ivk3 = map Inr [blk2 ''p'', blk2 ''u'']"
    using links0 by (simp add: dlg_Blocks_def iter_Concat2_def ivk3_def br3_def store.contents(2) store.iter_empty del: foldl.simps)
  then have b: "msg_Build lib0 ucanlib3 msgcodec3 [ivk3] [] = Ret (Inr ?input)"
    using root3 by (simp add: msg_Build_def NewBlockStore_def WriteInto_ok dlg_Link_def ivk3_def data1_def)
  have s: "hcar_sendable lib0 car0 (hcar3 book3) msgcodec3 ?input"
    by (rule sendable3 [where xs = "[''p'', ''u'', ''m'']" and x = "''m''"]) (use links0 table3(1) in auto)
  have no: "car_bytes ?input \<noteq> car_bytes m"
    if "hcar_sendable lib0 car0 (hcar3 book3) msgcodec3 m" "br_Get (ms_blks m) ulink = None \<or> br_Get (ms_blks m) plink = None" for m
  proof
    assume "car_bytes ?input = car_bytes m"
    then have "ms_blks ?input = ms_blks m" by (rule car_bytes_blocks [OF s that(1)])
    moreover have "br_Get (ms_blks ?input) ulink \<noteq> None" "br_Get (ms_blks ?input) plink \<noteq> None"
      unfolding message.simps store.contents(1) using links0 by simp_all
    ultimately show False using that(2) by auto
  qed
  have g: "br_Get (foldl bs_Put br_empty bs) l = None" if "l \<notin> blk_link ` set bs" for bs l
    unfolding store.contents(1) using that by (auto simp: find_None_iff)
  have l: "ulink \<notin> blk_link ` set [blk2 ''p'', blk2 ''m'']" "plink \<notin> blk_link ` set [blk2 ''u'', blk2 ''m'']"
    "ulink \<notin> blk_link ` set [blk2 ''r'', blk2 ''n'']"
    using links3 by auto
  have "car_bytes ?input \<notin> set book3"
    using no [OF parts3(1) [of "''u''"]] no [OF parts3(1) [of "''p''"]] no [OF parts3(3)] g [OF l(1)] g [OF l(2)] g [OF l(3)]
    by (auto simp: book3_def partial_message_def reply3_def)
  with header3(2) [OF s] show thesis by (intro that [OF b]) (simp add: hcarreq_Encode_def)
qed

lemma links_needed3: "proof_links (retenv3 R) br3 ulink = {ulink, plink}"
  using needed3 by (auto simp: proof_links_def)

lemma ready3:
  assumes "issued3 R r"
  shows "nego_ready clienv3 (retenv3 R) (conn3 R) (ret_srv3 R) lrulib0 map_of good0 100 br3 ulink D3 w3 (blk2 ''m'') ulink ([], 0)"
  unfolding nego_ready_def using peers3 divisible3 serving3 [OF assms]
  by (simp add: links_needed3 mem_usable_def lru_ok0 good0_def mem_room_def needed_root card_insert_if)

lemma exported3: "dlg_Export 2 lib0 ucanlib3 [] ivk3 = Ret (map Inr [blk2 ''p'', blk2 ''u''])"
  using links0 by (simp add: dlg_Export_def numeral_2_eq_2 ivk3_def ucan_Proofs_def ucan0_def ucan3_def br3_get
      table3(5) seq_then_def store.iter_empty)

lemma reread3: "NewBlockReader [] (map Inr [blk2 ''p'', blk2 ''u'']) = Inr br3"
  by (simp add: NewBlockReader_eq_NewBlockStore NewBlockStore_def br3_def)

lemma clienv3 [simp]: "ce_L clienv3 = lib0" "ce_U clienv3 = ucanlib3" "ce_C clienv3 = msgcodec3" "ce_fuel clienv3 = 2"
  by (simp_all add: clienv3_def)

text \<open>A channel that asks for the same proof, again and again.\<close>

definition insisting :: "(lru0 \<times> nat) channel" where
  "insisting req s =
     Ret (Inr \<lparr> rs_status = 510, rs_headers = None, rs_body = Some (put_str plink, None) \<rparr>, (fst s, snd s + 1))"

theorem negotiation_ends_witness:
  "\<exists>r s'. ret_client_Execute 1 2 clienv3 ivk3 ((conn3 (se_R (env1 ucan3)))\<lparr> cn_channel := insisting \<rparr>) ([], 0) = Ret (r, s') \<and> snd s' \<le> 3"
proof -
  let ?N = "{l. needed (viewed (ce_L clienv3) (ce_U clienv3) br3) (set (dlg_Proofs ivk3)) l}"
  have p: "dlg_Proofs ivk3 = [plink]" using proofs3 [of ulink] by (simp add: D3_def)
  have N: "?N = {plink}"
  proof -
    have "viewed lib0 ucanlib3 br3 plink = Inr (Some (D3 plink))" using view3 by (simp add: viewed_def)
    from needed_step [where f = "viewed lib0 ucanlib3 br3", OF this, of "{}"] show ?thesis
      using links0 by (auto simp: p proofs3)
  qed
  have w: "weighs (viewed (ce_L clienv3) (ce_U clienv3) br3) (set (dlg_Proofs ivk3)) w3"
    using N view3 links0 unfolding weighs_def set_eq_iff by (auto simp: viewed_def proofs3 w3_def)
  have o: "omitProofs clienv3 ivk3 = Ret (Inr (root_only ivk3))"
    by (rule omitted_root) (simp_all add: ivk3_def table3)
  have m: "newPartialInvocationMessage clienv3 ulink (root_only ivk3) = Ret (Inr (partial_message ulink (blk2 ''u'') (blk2 ''m'')))"
    using partial_message_result [of "root_only ivk3" clienv3 ulink "blk2 ''m''"] links0 root3 table3(3) p
    by (simp add: ivk3_def dlg_Link_def store.get_put [OF store.inv_empty] store.get_empty)
  obtain input e where b: "msg_Build lib0 ucanlib3 msgcodec3 [ivk3] [] = Ret (Inr input)" by (rule whole3)
  have "\<exists>r s'. ret_client_Execute 1 2 clienv3 ivk3 ((conn3 (se_R (env1 ucan3)))\<lparr> cn_channel := insisting \<rparr>) ([], 0) = Ret (r, s') \<and>
      snd s' \<le> snd ([] :: lru0, 0 :: nat) + card {plink} + 2"
    by (rule negotiation_ends [where sent = snd and ivk = ivk3 and br = br3 and D = D3 and w = w3 and N = "{plink}" and n = 1 and k = 2,
          OF _ _ _ _ reread3 o])
      (use b exported3 m N w view3 p in \<open>auto simp: answering_def insisting_def conn3_def hcar_outbound_def w3_def dlg_Link_def ivk3_def links0\<close>)
  then show ?thesis by (simp add: numeral_3_eq_3)
qed

theorem negotiation_succeeds_witness:
  "\<exists>R out res s'. ret_client_Execute 1 3 clienv3 ivk3 (conn3 R) ([], 0) = Ret (Inr (out, res), s') \<and> rs_status res = 206 \<and>
     rs_body res = Some (text_body ''part'') \<and> 0 < snd s'"
proof -
  obtain r where r: "issued3 (R0 (rp_data r)) r"
    unfolding issued3_def by (rule receipt0 [where l = ulink]) metis
  let ?R = "R0 (rp_data r)" and ?s = "([] :: lru0, 0 :: nat)"
  have N: "proof_links (retenv3 ?R) br3 ulink = {ulink, plink}" by (rule links_needed3)
  note ready = ready3 [OF r]
  obtain input e where w: "msg_Build lib0 ucanlib3 msgcodec3 [ivk3] [] = Ret (Inr input)"
      "hcarreq_Encode car0 (hcar3 book3) input = Inl (e, True)"
    by (rule whole3)
  have "\<exists>out res s' ivk' req s1 rcpt resp m enc.
    ret_client_Execute 1 3 clienv3 ivk3 (conn3 ?R) ?s = Ret (Inr (out, res), s') \<and> assembled (retenv3 ?R) br3 ulink D3 ivk' \<and>
    answers (retenv3 ?R) (ret_srv3 ?R) ivk' req s1 rcpt resp m enc s' \<and> same_message m out \<and>
    rs_status res = (if rr_Status resp = 0 then 200 else rr_Status resp) \<and>
    rs_body res = Some (case rr_Body resp of None \<Rightarrow> text_body [] | Some b \<Rightarrow> b)"
    by (rule negotiation_succeeds [OF ready, where ivk = ivk3, unfolded clienv3, OF exported3 reread3])
      (use w links0 proofs3 [of ulink] in \<open>simp_all add: D3_def conn3_def hcar_outbound_def N w3_def, simp_all add: ivk3_def\<close>)
  then obtain out res s' ivk' req s1 rcpt resp m enc where e: "ret_client_Execute 1 3 clienv3 ivk3 (conn3 ?R) ?s = Ret (Inr (out, res), s')"
    and a: "assembled (retenv3 ?R) br3 ulink D3 ivk'" "answers (retenv3 ?R) (ret_srv3 ?R) ivk' req s1 rcpt resp m enc s'"
    and b: "rs_status res = (if rr_Status resp = 0 then 200 else rr_Status resp)"
      "rs_body res = Some (case rr_Body resp of None \<Rightarrow> text_body [] | Some b \<Rightarrow> b)"
    by blast
  from a(2) run3 [OF r a(1), of req s1] have "resp = NewResponse 206 None (Some (text_body ''part''))" "0 < snd s'"
    by (auto simp: answers_def)
  with e b show ?thesis by (intro exI [of _ ?R] exI [of _ out] exI [of _ res] exI [of _ s']) (simp add: NewResponse_def)
qed

end
