(* ===== verification/Session.thy ===== *)
theory Session
  imports Negotiation
begin

text \<open>
  Sequences of requests. The locale \<open>checked_store\<close> is a delegation store that keeps an invariant as long as
  only checked delegations are put into it; handling a request keeps the invariant, and so does every
  sequence of requests. It is interpreted on the in-memory cache.
\<close>

section \<open>Actions that keep an invariant\<close>

text \<open>An action that keeps an invariant of the state and gives only results with a property.\<close>

definition delivers :: "('s \<Rightarrow> bool) \<Rightarrow> ('s, 'a) act \<Rightarrow> ('a \<Rightarrow> bool) \<Rightarrow> bool" where
  "delivers P m Q \<longleftrightarrow> (\<forall>s r s'. P s \<longrightarrow> m s = Ret (r, s') \<longrightarrow> P s' \<and> Q r)"

abbreviation preserves :: "('s \<Rightarrow> bool) \<Rightarrow> ('s, 'a) act \<Rightarrow> bool" where
  "preserves P m \<equiv> delivers P m (\<lambda>_. True)"

lemma deliversD: "delivers P m Q \<Longrightarrow> P s \<Longrightarrow> m s = Ret (r, s') \<Longrightarrow> P s' \<and> Q r"
  by (simp add: delivers_def)

lemma delivers_bind:
  assumes "delivers P m Q" "\<And>x. Q x \<Longrightarrow> delivers P (k x) T"
  shows "delivers P (sbind m k) T"
  unfolding delivers_def
proof (intro allI impI)
  fix s r s' assume s: "P s" and b: "sbind m k s = Ret (r, s')"
  from b obtain x s1 where x: "m s = Ret (x, s1)" "k x s1 = Ret (r, s')" by (auto simp: sbind_def split: comp.splits)
  from deliversD [OF assms(1) s x(1)] have "P s1" "Q x" by blast+
  from deliversD [OF assms(2) [OF this(2)] this(1) x(2)] show "P s' \<and> T r" .
qed

lemma delivers_base:
  "Q x \<Longrightarrow> delivers P (sret x) Q" "(\<And>x. c = Ret x \<Longrightarrow> Q x) \<Longrightarrow> delivers P (slift c) Q"
  by (auto simp: delivers_def sret_def slift_def split: comp.splits)

lemma delivers_cases:
  "(\<And>e. y = Inl e \<Longrightarrow> delivers P (f e) Q) \<Longrightarrow> (\<And>v. y = Inr v \<Longrightarrow> delivers P (g v) Q) \<Longrightarrow> delivers P (case_sum f g y) Q"
  "(z = None \<Longrightarrow> delivers P n Q) \<Longrightarrow> (\<And>v. z = Some v \<Longrightarrow> delivers P (h v) Q) \<Longrightarrow> delivers P (case_option n h z) Q"
  "(b \<Longrightarrow> delivers P n Q) \<Longrightarrow> (\<not> b \<Longrightarrow> delivers P n' Q) \<Longrightarrow> delivers P (if b then n else n') Q"
  "(\<And>a b. w = (a, b) \<Longrightarrow> delivers P (q a b) Q) \<Longrightarrow> delivers P (case_prod q w) Q"
  "(\<And>e. delivers P (i e) Q) \<Longrightarrow> (\<And>l. delivers P (j l) Q) \<Longrightarrow> delivers P (case_extract_error i j x') Q"
  by (simp_all split: sum.split option.split prod.split extract_error.split)

lemmas delivers_intros = delivers_base delivers_cases

lemma keeps_preserves: "keeps view m \<Longrightarrow> preserves (\<lambda>s. Q (view s)) m"
  by (auto simp: keeps_def delivers_def)

lemma ret_issue_preserves:
  "preserves P (ret_issue X srv out l opts)" "preserves P (ret_issue_failure X srv e resp l)"
  "preserves P (issue_count_errors X srv ls)"
  by (rule keeps_preserves [where view = "\<lambda>s. s"], rule issue_frames)+

section \<open>A store of checked delegations\<close>

definition checked :: "extlib \<Rightarrow> ucanlib \<Rightarrow> delegation \<Rightarrow> bool" where
  "checked L U d \<longleftrightarrow> dlg_decode L U (dl_rt d) = Inr (dl_ucan d)"

text \<open>The methods of a service, the error handler and the receipt logger keep an invariant.\<close>

definition benign :: "('s \<Rightarrow> bool) \<Rightarrow> 's ret_server \<Rightarrow> bool" where
  "benign P srv \<longleftrightarrow>
     (\<forall>can m ivk ctx req. rv_service srv can = Some m \<longrightarrow> preserves P (m ivk ctx req)) \<and>
     (\<forall>e. preserves P (sv_catch (rv_server srv) e)) \<and>
     (\<forall>rcpt ivk. preserves P (srv_LogReceipt (rv_server srv) rcpt ivk))"

lemma benignD:
  "benign P srv \<Longrightarrow> rv_service srv can = Some m \<Longrightarrow> preserves P (m ivk ctx req)"
  "benign P srv \<Longrightarrow> preserves P (sv_catch (rv_server srv) e)"
  "benign P srv \<Longrightarrow> preserves P (srv_LogReceipt (rv_server srv) rcpt ivk)"
  by (simp_all add: benign_def)

lemmas delivers_lift = delivers_bind [where Q = "\<lambda>_. True" and m = "slift c" for c]

lemma run_preserves: "benign P srv \<Longrightarrow> preserves P (ret_Run X srv ivk req)"
  unfolding ret_Run_def Let_def
  by (intro delivers_intros ret_issue_preserves delivers_lift delivers_bind [OF ret_issue_preserves(1)]
      delivers_bind [OF benignD(1)] delivers_bind [OF benignD(2)] delivers_bind [OF benignD(3)]) auto

locale checked_store =
  fixes cache :: "'s dlg_store"
    and L :: extlib
    and U :: ucanlib
    and P :: "'s \<Rightarrow> bool"
  assumes get_keeps: "preserves P (ds_Get cache l)"
    and put_keeps: "checked L U d \<Longrightarrow> preserves P (ds_Put cache d)"
begin

lemma extract_loop_checked:
  "list_all (checked L U) newdlgs \<Longrightarrow>
     delivers P (extract_loop n L U cache bs ls (dlgs, newdlgs, missing))
       (\<lambda>r. \<forall>ds ns ms. r = Inr (ds, ns, ms) \<longrightarrow> list_all (checked L U) ns)"
proof (induction n arbitrary: ls dlgs newdlgs missing)
  case 0
  then show ?case by (cases ls) (auto intro!: delivers_intros)
next
  case (Suc n)
  show ?case
  proof (cases ls)
    case (Cons p ps)
    have "checked L U d" if "NewDelegation L U blk bs = Inr d" for blk d
      using that by (auto simp: checked_def NewDelegation_Inr)
    then show ?thesis
      unfolding Cons extract_loop.simps
      by (intro delivers_intros delivers_bind [OF get_keeps] Suc.IH) (use Suc.prems in auto)
  qed (use Suc.prems in \<open>auto intro!: delivers_intros\<close>)
qed

lemma cache_all_checked: "list_all (checked L U) ds \<Longrightarrow> preserves P (cache_all cache ds)"
  by (induction ds) (auto intro!: delivers_intros delivers_bind [OF put_keeps])

lemma extract_checked: "preserves P (ExtractInvocation n L U root msg cache)"
proof -
  have "list_all (checked L U) []" by simp
  note loop = extract_loop_checked [OF this]
  show ?thesis
    unfolding ExtractInvocation_def
    by (intro delivers_intros delivers_bind [OF loop] delivers_bind [OF cache_all_checked]
        delivers_bind [where Q = "\<lambda>_. True" and m = "slift c" for c]) auto
qed

lemma handle_checked:
  assumes "benign P srv" "rv_cache srv = cache" "re_L X = L" "re_U X = U"
  shows "preserves P (ret_Handle X srv req)"
proof -
  have count: "preserves P (sbind (issue_count_errors X srv ls) k)" if "\<And>x. preserves P (k x)" for ls and k :: "err + receipt list \<Rightarrow> ('s, 'b) act"
    by (rule delivers_bind [OF ret_issue_preserves(3) that])
  have "preserves P (ret_Execute X srv msg q)" for msg q
    unfolding ret_Execute_def Let_def assms(2-4)
    by (intro delivers_intros delivers_lift count delivers_bind [OF extract_checked] delivers_bind [OF run_preserves [OF assms(1)]]) auto
  note ex = delivers_bind [OF this]
  have "preserves P (ret_handle X srv req)"
    unfolding ret_handle_def Let_def by (intro delivers_intros delivers_lift count ex) auto
  then show ?thesis
    unfolding ret_Handle_def Let_def by (intro delivers_intros delivers_bind [where Q = "\<lambda>_. True"]) auto
qed

end

text \<open>The states a server comes to by handling requests, whatever they are.\<close>

inductive reaches :: "('s, 'c) retenv \<Rightarrow> 's ret_server \<Rightarrow> 's \<Rightarrow> 's \<Rightarrow> bool" for X srv s where
  start: "reaches X srv s s"
| handled: "reaches X srv s s' \<Longrightarrow> ret_Handle X srv req s' = Ret (r, s'') \<Longrightarrow> reaches X srv s s''"

context checked_store
begin

lemma reaches_checked:
  assumes "reaches X srv s s'" "P s" "benign P srv" "rv_cache srv = cache" "re_L X = L" "re_U X = U"
  shows "P s'"
  using assms(1)
proof (induction rule: reaches.induct)
  case (handled s' req r s'')
  with deliversD [OF handle_checked [OF assms(3-6)]] show ?case by blast
qed (rule assms(2))

end

section \<open>The cache of a server\<close>

definition sound_cache :: "extlib \<Rightarrow> ucanlib \<Rightarrow> 'c lrulib \<Rightarrow> ('c \<Rightarrow> string \<rightharpoonup> delegation) \<Rightarrow> ('c \<Rightarrow> bool) \<Rightarrow> nat \<Rightarrow> 'c \<times> 'w \<Rightarrow> bool" where
  "sound_cache L U R view good cap s \<longleftrightarrow>
     mem_usable R view good cap s \<and> (\<forall>l d. view (fst s) l = Some d \<longrightarrow> checked L U d)"

interpretation mem_checked: checked_store "MemoryDelegationCache R" L U "sound_cache L U R view good cap"
  for R :: "'c lrulib" and L U view good cap
proof
  fix l
  show "preserves (sound_cache L U R view good cap) (ds_Get (MemoryDelegationCache R) l)"
    using mem.get [of R view good cap _ l] unfolding delivers_def sound_cache_def by fastforce
next
  fix d
  assume "checked L U d"
  then show "preserves (sound_cache L U R view good cap) (ds_Put (MemoryDelegationCache R) d)"
    using mem.put [of R view good cap _ d] unfolding delivers_def sound_cache_def by fastforce
qed

definition untouched :: "('c \<times> 'w) ret_server \<Rightarrow> bool" where
  "untouched srv \<longleftrightarrow>
     (\<forall>can m ivk ctx req. rv_service srv can = Some m \<longrightarrow> keeps fst (m ivk ctx req)) \<and>
     (\<forall>e. keeps fst (sv_catch (rv_server srv) e)) \<and>
     (\<forall>rcpt ivk. keeps fst (srv_LogReceipt (rv_server srv) rcpt ivk))"

lemma untouched_benign:
  fixes srv :: "('c \<times> 'w) ret_server"
  assumes "untouched srv"
  shows "benign (sound_cache L U R view good cap) srv"
proof -
  have b: "benign (\<lambda>s :: 'c \<times> 'w. Q (fst s)) srv" for Q
    using assms by (auto simp: untouched_def benign_def intro!: keeps_preserves [of fst])
  show ?thesis
    using b [of "\<lambda>c. lru_ok R view good cap \<and> good c \<and> (\<forall>l d. view c l = Some d \<longrightarrow> dlg_Link d = l) \<and>
      (\<forall>l d. view c l = Some d \<longrightarrow> checked L U d)"]
    by (simp add: sound_cache_def [abs_def] mem_usable_def conj_assoc)
qed

lemma fresh_cache:
  assumes "ret_NewServer X ident opts = Inr (srv, Some c)"
  shows "rv_cache srv = MemoryDelegationCache (re_lru X)" "lr_New (re_lru X) 100 = Inr c"
  using assms by (auto simp: ret_NewServer_def NewMemoryDelegationCache_def MemoryDelegationCacheSize_def split: sum.splits option.splits)

text \<open>
  C7. The delegation cache of a retrieval server cannot be poisoned. Whatever requests a server made with the
  in-memory cache has handled, every delegation in its cache is held under the link of its root block, the
  bytes of that block hash to the link and decode to the delegation's UCAN, and there are never more than 100.
  The LRU starts empty and holds what it was given; the methods, the error handler and the receipt logger do
  not change the cache.
\<close>

theorem cache_integrity:
  assumes "ret_NewServer X ident opts = Inr (srv, Some c)" "untouched srv" "reaches X srv (c, w) s'"
    and "lru_ok (re_lru X) view good 100" "\<And>c. good c \<Longrightarrow> card (dom (view c)) \<le> 100"
    and "\<And>c. lr_New (re_lru X) 100 = Inr c \<Longrightarrow> good c \<and> view c = Map.empty"
  shows "card (dom (view (fst s'))) \<le> 100 \<and>
         (\<forall>l d. view (fst s') l = Some d \<longrightarrow> dlg_Link d = l \<and>
            cid_v1 (re_L X) (cd_Code (ul_cbor (re_U X))) (digest_Bytes (sha256_Sum (re_L X) (blk_bytes (dl_rt d)))) = l \<and>
            dlg_decode (re_L X) (re_U X) (dl_rt d) = Inr (dl_ucan d))"
proof -
  note fresh = fresh_cache [OF assms(1)]
  have "sound_cache (re_L X) (re_U X) (re_lru X) view good 100 (c, w)"
    using assms(4) assms(6) [OF fresh(2)] by (simp add: sound_cache_def mem_usable_def)
  from mem_checked.reaches_checked [OF assms(3) this untouched_benign [OF assms(2)] fresh(1) refl refl]
  have s: "sound_cache (re_L X) (re_U X) (re_lru X) view good 100 s'" .
  have "cid_v1 (re_L X) (cd_Code (ul_cbor (re_U X))) (digest_Bytes (sha256_Sum (re_L X) (blk_bytes (dl_rt d)))) = dlg_Link d"
    if "checked (re_L X) (re_U X) d" for d
    using that by (auto simp: checked_def dlg_decode_Inr block_Decode_Inr intact_def dlg_Link_def digest_Bytes_def sha256_Sum_def Let_def)
  moreover have "good (fst s')" using s by (simp add: sound_cache_def mem_usable_def)
  ultimately show ?thesis using s assms(5) by (auto simp: sound_cache_def mem_usable_def checked_def)
qed

theorem cache_integrity_witness:
  "\<exists>X :: (lru0 \<times> nat, lru0) retenv. \<exists>srv s' d. reaches X srv ([], 0) s' \<and> map_of (fst s') ulink = Some d \<and>
     card (dom (map_of (fst s'))) \<le> 100 \<and>
     cid_v1 (re_L X) 113 (digest_Bytes (sha256_Sum (re_L X) (blk_bytes (dl_rt d)))) = ulink"
proof -
  obtain r where r: "issued3 (R0 (rp_data r)) r"
    unfolding issued3_def by (rule receipt0 [where l = ulink]) metis
  let ?X = "retenv3 (R0 (rp_data r))" and ?srv = "ret_srv3 (R0 (rp_data r))" and ?s = "([] :: lru0, 0 :: nat)"
  have ready: "nego_ready clienv3 ?X (conn3 (R0 (rp_data r))) ?srv lrulib0 map_of good0 100 br3 ulink D3 w3 (blk2 ''m'') ulink ?s"
    by (rule ready3 [OF r])
  obtain req m where q: "sv_codec (rv_server ?srv) req = Inr (hcar_accept (re_L ?X) (se_K (re_E ?X)) (re_H ?X) (re_C ?X))"
      "ac_Decode (hcar_accept (re_L ?X) (se_K (re_E ?X)) (re_H ?X) (re_C ?X)) req = Ret (Inr m)" "msg_Invocations m = [ulink]"
      "NewBlockStore [] (msg_Blocks m) = Inr (part_store (D3 ulink) (blk2 ''m''))"
    by (rule part_message_sent [OF peers3 divisible3 root_linked])
  define f where "f = resolved (re_L ?X) (re_U ?X) (part_store (D3 ulink) (blk2 ''m'')) (map_of (fst ?s))"
  have "\<forall>l \<in> proof_links ?X br3 ulink. \<forall>d. map_of (fst ?s) l = Some d \<longrightarrow> kept ?X (D3 l) d" by simp
  note seen = part_seen(1) [OF divisible3 root_linked this, folded f_def]
  have u: "f ulink = Inr (Some (part_of (D3 ulink) (part_store (D3 ulink) (blk2 ''m''))))" "f plink = Inr None"
    using seen [of ulink] seen [of plink] links0 by (simp_all add: links_needed3)
  have "plink \<in> set (dlg_Proofs (part_of (D3 ulink) (part_store (D3 ulink) (blk2 ''m''))))"
    using proofs3 [of ulink] by (simp add: part_of_def dlg_Proofs_def)
  with needed_proof [where f = f and l = ulink, OF needed_root u(1), of "{ulink}"] u(2) have "plink \<in> missing_set f {ulink}" by (auto simp: missing_set_def)
  then have "missing_set f {ulink} \<noteq> {}" by blast
  then obtain s' x where h: "ret_Handle ?X ?srv req ?s = Ret (x, s')" "insert ulink (dom (map_of (fst ?s))) \<subseteq> dom (map_of (fst s'))"
    using round_missing [OF ready q f_def _ root_linked] by metis
  then have re: "reaches ?X ?srv ?s s'" by (blast intro: reaches.intros)
  obtain d where d: "map_of (fst s') ulink = Some d" using h(2) by auto
  have new: "ret_NewServer ?X signer1 [ret_WithServiceMethod ''store/add'' method3] = Inr (?srv, Some [])"
    by (rule ret_made3)
  have un: "untouched ?srv"
    by (auto simp: untouched_def keeps_def ret_method_of_def method3_def stderr_catch_def retenv3_def)
  have "card (dom (map_of c)) \<le> 100" if "good0 c" for c :: lru0
    using that distinct_card [of "map fst c"] by (simp add: good0_def dom_map_of_conv_image_fst)
  from cache_integrity [OF new un re, of map_of good0] this re d show ?thesis
    using lru_ok0 by (intro exI [of _ ?X] exI [of _ ?srv] exI [of _ s'] exI [of _ d]) (auto simp: lrulib0_def good0_def ucanlib3_def table_codec_def)
qed

end
