(* ===== verification/Exchange.thy ===== *)
theory Exchange
  imports Session
begin

text \<open>
  A client of package client and a server of package server over the CAR codec, with the server itself as the
  channel of the connection (server/server.go, Request): what executing invocations over it gives.
\<close>

definition srv_Request :: "'s srvenv \<Rightarrow> (delegation list \<Rightarrow> delegation list) \<Rightarrow> 's server \<Rightarrow> 's channel" where
  "srv_Request E order srv request =
     sbind (srv_Handle E order srv request) (\<lambda>r. sret (map_sum (\<lambda>e. ChanErr (ge_Error e)) id r))"

text \<open>A connection to the server, both over the CAR codec.\<close>

definition connected :: "'s srvenv \<Rightarrow> (delegation list \<Rightarrow> delegation list) \<Rightarrow> 's server \<Rightarrow> 's connection \<Rightarrow> bool" where
  "connected E order srv conn \<longleftrightarrow>
     cn_codec conn = car_outbound (se_L E) (se_K E) (se_C E) \<and> cn_channel conn = srv_Request E order srv \<and>
     sv_codec srv = car_inbound (se_L E) (se_K E) (se_C E)"

text \<open>What arrives at the server is what the client built, and what the client returns is what the server made of it.\<close>

lemma execute_over_connection:
  assumes "connected E order srv conn" "msg_Build (se_L E) U (se_C E) ds [] = Ret (Inr input)"
    and "car_sendable (se_L E) (se_K E) (se_C E) input"
    and "\<And>msg a s1. same_message input msg \<Longrightarrow> srv_Execute E order srv msg s = Ret (Inr a, s1) \<Longrightarrow>
           car_sendable (se_L E) (se_K E) (se_C E) a"
    and "Execute (se_L E) U (se_C E) ds conn s = Ret (Inr out, s')"
  obtains msg a where "same_message input msg" "srv_Execute E order srv msg s = Ret (Inr a, s')" "same_message a out"
proof -
  let ?req = "carreq_Encode (se_K E) input"
  obtain msg where msg: "carreq_Decode (se_L E) (se_K E) (se_C E) ?req = Ret (Inr msg)" "same_message input msg"
    using car_request.carried [OF assms(3) refl] by blast
  have h: "srv_Handle E order srv ?req s =
      sbind (srv_Execute E order srv msg) (\<lambda>r. case r of Inl e \<Rightarrow> sret (Inl e) | Inr m \<Rightarrow> sret (Inr (carres_Encode (se_K E) m))) s"
    using assms(1) msg(1)
    by (simp add: srv_Handle_def connected_def car_request_accepted car_accept_def sbind_def sret_def slift_def cong: sum.case_cong)
  have "map_sum (\<lambda>e. ChanErr (ge_Error e)) id y = Inr res \<longleftrightarrow> y = Inr res" for y :: "goerror + http_response" and res
    by (cases y) auto
  then obtain res where r: "srv_Handle E order srv ?req s = Ret (Inr res, s')"
    and d: "carres_Decode (se_L E) (se_K E) (se_C E) res = Ret (Inr out)"
    using assms(1,2,5)
    by (auto simp: Execute_def connected_def car_outbound_def srv_Request_def act_case close_body_def
        eq_commute [of "Inr _" "map_sum _ _ _"])
  obtain a where a: "srv_Execute E order srv msg s = Ret (Inr a, s')" "res = carres_Encode (se_K E) a"
    using r unfolding h by (auto simp: act_case)
  have "\<exists>m'. carres_Decode (se_L E) (se_K E) (se_C E) res = Ret (Inr m') \<and> same_message a m'"
    unfolding a(2) by (rule car_response.carried [OF assms(4) [OF msg(2) a(1)] refl])
  then have "same_message a out" using d by simp
  with msg(2) a(1) show thesis by (rule that)
qed

text \<open>The other way round: what the server makes of the message comes back.\<close>

lemma execute_returns:
  assumes "connected E order srv conn" "msg_Build (se_L E) U (se_C E) ds [] = Ret (Inr input)"
    and "car_sendable (se_L E) (se_K E) (se_C E) input" "car_sendable (se_L E) (se_K E) (se_C E) a"
    and "\<And>msg. same_message input msg \<Longrightarrow> srv_Execute E order srv msg s = Ret (Inr a, s')"
  shows "\<exists>out. Execute (se_L E) U (se_C E) ds conn s = Ret (Inr out, s')"
proof -
  obtain msg where msg: "carreq_Decode (se_L E) (se_K E) (se_C E) (carreq_Encode (se_K E) input) = Ret (Inr msg)"
      "same_message input msg"
    using car_request.carried [OF assms(3) refl] by blast
  obtain out where out: "carres_Decode (se_L E) (se_K E) (se_C E) (carres_Encode (se_K E) a) = Ret (Inr out)"
    using car_response.carried [OF assms(4) refl] by blast
  have "srv_Request E order srv (carreq_Encode (se_K E) input) s = Ret (Inr (carres_Encode (se_K E) a), s')"
    using assms(1) msg(1) assms(5) [OF msg(2)]
    by (simp add: srv_Request_def srv_Handle_def connected_def car_request_accepted car_accept_def act_case)
  then show ?thesis
    using assms(1,2) out
    by (intro exI [of _ out]) (simp add: Execute_def connected_def car_outbound_def act_case close_body_def
        carres_Encode_def http_NewResponse_def split_def)
qed

text \<open>The invocation a server decodes is the one the client sent.\<close>

lemma invocation_received:
  assumes "same_message input msg" "wf_store (ms_blks input)" "srv_invocations L U msg = Inr invs" "ivk \<in> set invs"
    and "br_Get (ms_blks input) (dlg_Link ivk) = Some (dl_rt d)" "checked L U d"
  shows "dl_rt ivk = dl_rt d \<and> dl_ucan ivk = dl_ucan d"
proof -
  obtain bs where bs: "br_Iterator (ms_blks input) = map Inr bs" "NewBlockReader [] (map Inr bs) = Inr (ms_blks input)"
    by (rule store_blocks [OF assms(2)])
  have "msg_Blocks msg = map Inr bs" using same_message_reads(2) [OF assms(1)] bs(1) by (simp add: msg_Blocks_def)
  then obtain l where "NewInvocationView L U l (ms_blks input) = Inr ivk"
    using assms(3,4) bs(2) by (auto simp: srv_invocations_def emapM_Inr in_set_conv_nth list_all2_conv_all_nth)
  moreover have "dlg_Link ivk = l" if "NewInvocationView L U l (ms_blks input) = Inr ivk" for l
    using that assms(2) by (auto simp: NewInvocationView_def NewDelegationView_Inr dlg_Link_def wf_store_def br_Get_def)
  ultimately show ?thesis using assms(5,6) by (auto simp: NewInvocationView_def NewDelegationView_Inr checked_def)
qed

text \<open>
  C10. Executing invocations over a connection to a server: what it returns holds one receipt per invocation
  and answers each of them with the root of a receipt for it, made by the server running the invocation that
  was sent. The libraries are those of both sides, the blocks of the request and of the reply can be sent,
  and the invocations decode from their root blocks; the order the server's goroutines finish in is any.
\<close>

theorem exchange_answers:
  assumes "\<And>invs. mset (order invs) = mset invs" and "connected E order srv conn"
    and "msg_Build (se_L E) U (se_C E) ds [] = Ret (Inr input)" "car_sendable (se_L E) (se_K E) (se_C E) input"
    and "\<And>msg a s1. same_message input msg \<Longrightarrow> srv_Execute E order srv msg s = Ret (Inr a, s1) \<Longrightarrow>
           car_sendable (se_L E) (se_K E) (se_C E) a"
    and "\<And>d. d \<in> set ds \<Longrightarrow> checked (se_L E) (se_U E) d \<and> br_Get (ms_blks input) (dlg_Link d) = Some (dl_rt d)"
    and "Execute (se_L E) U (se_C E) ds conn s = Ret (Inr out, s')"
  shows "msg_Invocations out = [] \<and> length (msg_Receipts out) = length ds \<and>
         (\<forall>d \<in> set ds. \<exists>ivk r s1 s2. dl_rt ivk = dl_rt d \<and> dl_ucan ivk = dl_ucan d \<and>
            srv_Run E srv ivk s1 = Ret (Inr r, s2) \<and> rcpt_key r = Some (dlg_Link d) \<and>
            msg_Get out (dlg_Link d) = Some (Some (blk_link (rcpt_Root r))) \<and>
            br_Get (ms_blks out) (blk_link (rcpt_Root r)) \<noteq> None)"
proof -
  obtain msg a where m: "same_message input msg" "srv_Execute E order srv msg s = Ret (Inr a, s')" "same_message a out"
    by (rule execute_over_connection [OF assms(2-4) _ assms(7)]) (erule (1) assms(5), rule that)
  obtain invs where i: "srv_invocations (se_L E) (se_U E) msg = Inr invs" "msg_Invocations a = []"
    "length (msg_Receipts a) = length (msg_Invocations msg)"
    "\<And>l. l \<in> set (msg_Invocations msg) \<Longrightarrow> \<exists>ivk r s1 s2. ivk \<in> set invs \<and> dlg_Link ivk = l \<and>
            srv_Run E srv ivk s1 = Ret (Inr r, s2) \<and> rcpt_key r = Some l \<and>
            msg_Get a l = Some (Some (blk_link (rcpt_Root r))) \<and> br_Get (ms_blks a) (blk_link (rcpt_Root r)) \<noteq> None"
    using execute_outcome [OF assms(1) m(2)] by metis
  have links: "msg_Invocations msg = map dlg_Link ds"
    using same_message_reads(3) [OF m(1)] build_contents [OF assms(3)] by simp
  have wf: "wf_store (ms_blks input)" using assms(4) by (simp add: car_sendable_def sendable_def)
  have read: "msg_Receipts out = msg_Receipts a" "msg_Invocations out = msg_Invocations a" "msg_Get out = msg_Get a"
    "ms_blks out = ms_blks a"
    using same_message_reads [OF m(3)] m(3) by (simp_all add: same_message_def)
  have "\<exists>ivk r s1 s2. dl_rt ivk = dl_rt d \<and> dl_ucan ivk = dl_ucan d \<and> srv_Run E srv ivk s1 = Ret (Inr r, s2) \<and>
      rcpt_key r = Some (dlg_Link d) \<and> msg_Get a (dlg_Link d) = Some (Some (blk_link (rcpt_Root r))) \<and>
      br_Get (ms_blks a) (blk_link (rcpt_Root r)) \<noteq> None" if d: "d \<in> set ds" for d
  proof -
    have "dlg_Link d \<in> set (msg_Invocations msg)" using d links by simp
    from i(4) [OF this] obtain ivk r s1 s2 where o: "ivk \<in> set invs" "dlg_Link ivk = dlg_Link d"
      "srv_Run E srv ivk s1 = Ret (Inr r, s2)" "rcpt_key r = Some (dlg_Link d)"
      "msg_Get a (dlg_Link d) = Some (Some (blk_link (rcpt_Root r)))" "br_Get (ms_blks a) (blk_link (rcpt_Root r)) \<noteq> None"
      by blast
    from assms(6) [OF d] have "dl_rt ivk = dl_rt d \<and> dl_ucan ivk = dl_ucan d"
      by (intro invocation_received [OF m(1) wf i(1) o(1)]) (simp_all add: o(2))
    with o show ?thesis by blast
  qed
  then show ?thesis using i(2,3) links by (simp add: read)
qed

section \<open>A client and a server, for the witness\<close>

text \<open>The owner's server of the counting handler, with the codec of messages of the negotiation above.\<close>

definition env4 :: "ucan_model \<Rightarrow> nat srvenv" where
  "env4 v = (env1 v)\<lparr> se_C := msgcodec3 \<rparr>"

definition srv4 :: "ucan_model \<Rightarrow> nat server" where
  "srv4 v = (case NewServer (env4 v) signer1 (provide_options (env4 v) [(''store/add'', ds0, handler1)]) of Inr srv \<Rightarrow> srv)"

definition conn4 :: "ucan_model \<Rightarrow> nat connection" where
  "conn4 v = (case NewConnection lib0 car0 msgcodec3 (did0 ''s'') (srv_Request (env4 v) rev (srv4 v)) [] of Inr conn \<Rightarrow> conn)"

lemma env4 [simp]:
  "ve_L (se_V (env4 v)) = lib0" "ve_U (se_V (env4 v)) = ucanlib0\<lparr> ul_cbor := table_codec 113 [(''u'', v)] \<rparr>"
  "se_V (env4 v) = venv1 v" "se_K (env4 v) = car0" "se_C (env4 v) = msgcodec3" "se_R (env4 v) = se_R (env1 v)" "se_fuel (env4 v) = 1"
  by (simp_all add: env4_def env1_def venv1_def)

lemma srv4:
  shows "NewServer (env4 v) signer1 (provide_options (env4 v) [(''store/add'', ds0, handler1)]) = Inr (srv4 v)"
    and "sv_id (srv4 v) = signer1" and "sv_codec (srv4 v) = car_inbound lib0 car0 msgcodec3"
    and "srv_LogReceipt (srv4 v) r i = sret None"
    and "sv_service (srv4 v) ''store/add'' = Some (service_method_of (Provide (env4 v) ds0 handler1))"
    and "owned_context (fst (provider_context (sv_context (srv4 v)) ds0))"
    and "cx_id (sv_context (srv4 v)) = signer1" "cx_altAudiences (sv_context (srv4 v)) = []"
  by (auto simp: srv4_def NewServer_def provide_options_def WithServiceMethod_def srvConfig0_def Let_def
      or_default_def env4_def env1_def venv1_def srv_LogReceipt_def provider_context_def
      NewValidationContext_def NewClaimContext_def owned_context_def signer1_def ps_DID_def verifier0_def)

lemma conn4:
  "NewConnection lib0 car0 msgcodec3 (did0 ''s'') (srv_Request (env4 v) rev (srv4 v)) [] = Inr (conn4 v)"
  "connected (env4 v) rev (srv4 v) (conn4 v)"
  by (simp_all add: conn4_def NewConnection_def connected_def or_default_def srv4(3) venv1_def)

definition reply4 :: "(link \<rightharpoonup> receipt) \<Rightarrow> message" where
  "reply4 rs = \<lparr> ms_root = blk2 ''n'', ms_data = data3, ms_blks = foldl bs_Put br_empty (map blk2 [''m'', ''u'', ''r'', ''n'']),
                 ms_store = True, ms_invs = Map.empty, ms_rcpts = rs \<rparr>"

lemma sendable4: "car_sendable lib0 car0 msgcodec3 (reply4 rs)" "car_sendable lib0 car0 msgcodec3 (msg1\<lparr> ms_invs := is \<rparr>)"
proof -
  have "hcar_sendable lib0 car0 (hcar3 book3) msgcodec3 (reply4 rs)"
    by (rule sendable3 [where xs = "[''m'', ''u'', ''r'', ''n'']" and x = "''n''"]) (use links3 table3 in \<open>auto simp: reply4_def\<close>)
  then show "car_sendable lib0 car0 msgcodec3 (reply4 rs)" by (simp add: hcar_sendable_def car_sendable_def)
  have "hcar_sendable lib0 car0 (hcar3 book3) msgcodec3 (msg1\<lparr> ms_invs := is \<rparr>)"
    by (rule sendable3 [where xs = "[''m'', ''u'']" and x = "''m''"]) (use links3 table3 in \<open>auto simp: msg1_def store1_def\<close>)
  then show "car_sendable lib0 car0 msgcodec3 (msg1\<lparr> ms_invs := is \<rparr>)" by (simp add: hcar_sendable_def car_sendable_def)
qed

lemma invocation_blocks: "dlg_Blocks (ivk1 v) = map Inr [blk2 ''m'', blk2 ''u'']"
  using store1_facts(2) by (simp add: dlg_Blocks_def ivk1_def iter_Concat2_def store.iter_empty)

lemma request4: "msg_Build lib0 U msgcodec3 [ivk1 v] [] = Ret (Inr (msg1\<lparr> ms_invs := [ulink \<mapsto> ivk1 v] \<rparr>))"
proof -
  have "bs_Put store1 (blk2 ''m'') = store1" using store1_facts(3) by (simp add: bs_Put_def br_Get_def)
  moreover have "dlg_Link (ivk1 v) = ulink" by (simp add: dlg_Link_def ivk1_def)
  ultimately show ?thesis
    using root3 by (simp add: msg_Build_def NewBlockStore_def invocation_blocks WriteInto_ok msg1_def data1_def store1_def)
qed

definition ran4 :: "ucan_model \<Rightarrow> receipt \<Rightarrow> bool" where
  "ran4 v r \<longleftrightarrow> (\<forall>n. srv_Run (env4 v) (srv4 v) (ivk1 v) n = Ret (Inr r, n + 1)) \<and> rp_rt r = blk2 ''r'' \<and>
     rp_blks r = bs_Put store1 (blk2 ''r'') \<and> om_Ran (rc_Ocm (rp_data r)) = Some ulink"

lemma run4:
  assumes "owner_ucan v"
  obtains r where "ran4 v r"
proof -
  obtain sig where sig: "sg_Sign (signer0 (did0 ''s'')) ''ocm'' = Ret sig" using signer0_signs by blast
  have w: "bs_WriteInto (dlg_Blocks (ivk1 v)) br_empty = Ret store1"
    unfolding invocation_blocks store1_def WriteInto_Ret by blast
  have l: "dlg_Link (ivk1 v) = ulink" by (simp add: dlg_Link_def ivk1_def)
  have "\<exists>r. rcpt_Issue lib0 (se_R (env1 v)) (signer0 (did0 ''s'')) (okResult (Inr (NString ''ok'')))
      (ran_FromInvocation (Some (ivk1 v))) [] = Ret (Inr r) \<and> rp_rt r = blk2 ''r'' \<and>
      rp_blks r = bs_Put store1 (blk2 ''r'') \<and> om_Ran (rc_Ocm (rp_data r)) = Some ulink"
    using w sig l
    by (simp add: const_block rcpt_Issue_def NewBlockStore_def ran_WriteInto_def ran_Invocation_def ran_FromInvocation_def
        ran_Link_def receiptConfig0_def join_WriteInto_def issue_meta_def MapResultR1_def MatchResultR2_def node_or_nil_def
        toResultModel_def MatchResultR1_def string_did0 signer0_def env1_def Let_def)
  then obtain r where r: "rcpt_Issue lib0 (se_R (env1 v)) (signer0 (did0 ''s'')) (okResult (Inr (NString ''ok'')))
      (ran_FromInvocation (Some (ivk1 v))) [] = Ret (Inr r)" "rp_rt r = blk2 ''r''"
      "rp_blks r = bs_Put store1 (blk2 ''r'')" "om_Ran (rc_Ocm (rp_data r)) = Some ulink" by blast
  have p: "Provide (env4 v) ds0 handler1 (ivk1 v) (sv_context (srv4 v)) n =
      Ret (Inr (Some \<lparr> tx_Out = okResult (Inr (NString ''ok'')), tx_Fx = None \<rparr>), n + 1)" for n
    by (rule provided_owner [OF assms]) (simp_all add: handler1_def srv4)
  have cap: "dlg_Capabilities (ivk1 v) = [Ucan.NewCapability ''store/add'' ''did:web:s'' (GNode (NMap []))]"
    using assms by (simp add: dlg_Capabilities_def ivk1_def owner_ucan_def)
  have "srv_Run (env4 v) (srv4 v) (ivk1 v) n = Ret (Inr r, n + 1)" for n
    using r(1) by (simp add: srv_Run_def Let_def cap Ucan.NewCapability_def srv4 service_method_of_def p NewTransaction_def
        srv_issue_def fx_options_def signer1_def venv1_def)
  with r(2-4) show thesis by (intro that [of r]) (simp add: ran4_def)
qed

lemma replied4:
  assumes "ran4 v r"
  shows "msg_Build lib0 (ve_U (venv1 v)) msgcodec3 [] [r] = Ret (Inr (reply4 [blk_link (blk2 ''r'') \<mapsto> r]))"
proof -
  note r = assms [unfolded ran4_def]
  have wf: "wf_store (rp_blks r)" using r by (simp add: store.inv_put store1_facts(1))
  obtain rn where rn: "rcpt_Ran lib0 (ve_U (venv1 v)) r = Ret rn" using r by (simp add: rcpt_Ran_def)
  have "ran_Link rn = Some ulink" using rcpt_Ran_link(1) [OF rn wf] r by (simp add: rcpt_key_def)
  moreover have "rcpt_Blocks r = map Inr [blk2 ''m'', blk2 ''u'', blk2 ''r'']"
    using r store.contents(2) [of "[blk2 ''m'', blk2 ''u'', blk2 ''r'']"] links3
    by (simp add: rcpt_Blocks_def store1_def blk2_distinct)
  ultimately show ?thesis
    using rn r table3(2) by (simp add: msg_Build_def NewBlockStore_def WriteInto_ok rcpt_Root_def data3_def reply4_def)
qed

lemma executed4:
  assumes "owner_ucan v" "ran4 v r" "same_message msg1 msg"
  shows "srv_Execute (env4 v) rev (srv4 v) msg n = Ret (Inr (reply4 [blk_link (blk2 ''r'') \<mapsto> r]), n + 1)"
proof -
  have "run_all [srv_Run (env4 v) (srv4 v) (ivk1 v)] n = Ret ((None, [r]), n + 1)"
    using assms(2) by (simp add: ran4_def)
  then show ?thesis
    using replied4 [OF assms(2)] by (simp add: srv_Execute_def invocations1 [OF assms(3)] venv1_def del: run_all.simps)
qed

theorem exchange_answers_witness:
  "\<exists>v out r. NewConnection lib0 car0 msgcodec3 (did0 ''s'') (srv_Request (env4 v) rev (srv4 v)) [] = Inr (conn4 v) \<and>
     Execute lib0 ucanlib0 msgcodec3 [ivk1 v] (conn4 v) 0 = Ret (Inr out, 1) \<and> length (msg_Receipts out) = 1 \<and>
     rcpt_key r = Some ulink \<and> msg_Get out ulink = Some (Some (blk_link (rcpt_Root r)))"
proof -
  obtain v where v: "owner_ucan v" by (rule owner_ucan0)
  obtain r where r: "ran4 v r" by (rule run4 [OF v])
  let ?input = "msg1\<lparr> ms_invs := [ulink \<mapsto> ivk1 v] \<rparr>"
  have c: "se_L (env4 v) = lib0" "se_K (env4 v) = car0" "se_C (env4 v) = msgcodec3" by (simp_all add: env4_def env1_def venv1_def)
  have same: "same_message msg1 msg" if "same_message ?input msg" for msg using that by (simp add: same_message_def)
  note ran = executed4 [OF v r same]
  obtain out where out: "Execute lib0 ucanlib0 msgcodec3 [ivk1 v] (conn4 v) 0 = Ret (Inr out, 0 + 1)"
    using execute_returns [OF conn4(2), of v ucanlib0 "[ivk1 v]" ?input, unfolded c, OF request4 sendable4(2) sendable4(1) ran] by blast
  have "checked lib0 (se_U (env4 v)) (ivk1 v) \<and> br_Get (ms_blks ?input) (dlg_Link (ivk1 v)) = Some (dl_rt (ivk1 v))"
    using store1_facts(4) block_u(2) [of v]
    by (simp add: checked_def dlg_decode_def ivk1_def NewUCAN_def msg1_def dlg_Link_def venv1_def)
  then have "length (msg_Receipts out) = 1 \<and> (\<exists>r. rcpt_key r = Some (dlg_Link (ivk1 v)) \<and>
      msg_Get out (dlg_Link (ivk1 v)) = Some (Some (blk_link (rcpt_Root r))))"
    using exchange_answers [OF _ conn4(2), of v ucanlib0 "[ivk1 v]" ?input 0 out, unfolded c, OF _ request4 sendable4(2) _ _ out] ran
      sendable4(1) by auto
  with conn4(1) [of v] out show ?thesis by (intro exI [of _ v] exI [of _ out]) (auto simp: dlg_Link_def ivk1_def)
qed

end
