(* ===== verification/Chain.thy ===== *)
theory Chain
  imports Server
begin

text \<open>
  Delegating works: an invocation whose proofs lead, each issued to the issuer of the one before it, to a
  delegation of the owner of the resource is authorized, with as much fuel as there are delegations, and
  its handler is called. The default checks of a server are in force: the owner of a resource is the DID
  it names, and delegations have a time window.
\<close>

section \<open>A chain of delegations\<close>

text \<open>A UCAN that grants an ability on a resource by its only capability.\<close>

definition grants :: "string \<Rightarrow> string \<Rightarrow> ucan_model \<Rightarrow> bool" where
  "grants can w u \<longleftrightarrow>
     (\<exists>c. ucan_Capabilities u = [c] \<and> ResolveAbility (cp_Can c) can = can \<and> (cp_With c = w \<or> cp_With c = ''ucan:*''))"

text \<open>A UCAN that verifies with the key its issuer's DID is, or with the key of the authority.\<close>

definition signed_by_issuer :: "venv \<Rightarrow> claim_context \<Rightarrow> ucan_model \<Rightarrow> bool" where
  "signed_by_issuer E C u \<longleftrightarrow>
     (let L = ve_L E; issuer = ucan_Issuer L u
      in \<exists>s. did_String L issuer = Ret s \<and>
           (if HasPrefix s ''did:key:''
            then \<exists>v. cc_parsePrincipal C s = Inr v \<and> ucan_VerifySignature L (ve_U E) u v = Ret (Inr True)
            else issuer = vf_DID (cc_authority C) \<and> ucan_VerifySignature L (ve_U E) u (cc_authority C) = Ret (Inr True)))"

text \<open>Each UCAN rests on the next one, which was issued to its issuer.\<close>

fun linked :: "extlib \<Rightarrow> (link \<times> ucan_model) list \<Rightarrow> bool" where
  "linked L ((l, u) # (l', u') # us) \<longleftrightarrow>
     um_Prf u = [l'] \<and> ucan_Issuer L u = ucan_Audience L u' \<and> linked L ((l', u') # us)"
| "linked L us \<longleftrightarrow> True"

definition honest_chain ::
    "venv \<Rightarrow> claim_context \<Rightarrow> int \<Rightarrow> blockreader \<Rightarrow> string \<Rightarrow> string \<Rightarrow> (link \<times> ucan_model) list \<Rightarrow> bool" where
  "honest_chain E C now bs can w us \<longleftrightarrow>
     us \<noteq> [] \<and> linked (ve_L E) us \<and> did_String (ve_L E) (ucan_Issuer (ve_L E) (snd (last us))) = Ret w \<and>
     (\<forall>(l, u) \<in> set us. (\<exists>b. br_Get bs l = Some b \<and> dlg_decode (ve_L E) (ve_U E) b = Inr u) \<and> grants can w u \<and>
        signed_by_issuer E C u \<and> \<not> IsExpired now u \<and> \<not> IsTooEarly now u)"

text \<open>The checks of a server by default, with nothing revoked.\<close>

definition default_checks :: "venv \<Rightarrow> int \<Rightarrow> claim_context \<Rightarrow> bool" where
  "default_checks E now C \<longleftrightarrow>
     cc_canIssue C = IsSelfIssued (ve_L E) \<and> cc_validateTimeBounds C = NotExpiredNotTooEarly now \<and>
     (\<forall>a. cc_validateAuthorization C a = Ret None)"

text \<open>
  A descriptor that reads an ability and a resource as they are, and caveats as sent to a value, which it
  reads again to itself: a claimed capability is read once more for every delegation it is resolved against.
\<close>

definition reads :: "descriptor \<Rightarrow> string \<Rightarrow> string \<Rightarrow> gany \<Rightarrow> gany \<Rightarrow> bool" where
  "reads desc can w sent nb \<longleftrightarrow>
     ds_can desc = can \<and> can \<noteq> [] \<and> w \<noteq> [] \<and> ds_with desc w = Ret (Inr w) \<and> ds_nb desc sent = Ret (Inr nb) \<and>
     ds_nb desc nb = Ret (Inr nb) \<and> ds_derives desc = DefaultDerives"

section \<open>The steps of the search along it\<close>

definition view_of :: "blockreader \<Rightarrow> block \<Rightarrow> ucan_model \<Rightarrow> delegation" where
  "view_of bs b u = \<lparr> dl_rt = b, dl_blks = bs, dl_atch = br_empty, dl_ucan = u \<rparr>"

lemma view_of_simps [simp]:
  "dlg_Issuer L (view_of bs b u) = ucan_Issuer L u" "dlg_Audience L (view_of bs b u) = ucan_Audience L u"
  "dlg_Capabilities (view_of bs b u) = ucan_Capabilities u" "dlg_Proofs (view_of bs b u) = um_Prf u"
  "dl_ucan (view_of bs b u) = u" "dlg_Link (view_of bs b u) = blk_link b"
  by (simp_all add: view_of_def dlg_Issuer_def dlg_Audience_def dlg_Capabilities_def dlg_Proofs_def ucan_Proofs_def dlg_Link_def)

lemma honest_valid:
  assumes "default_checks E now C" "signed_by_issuer E C u" "\<not> IsExpired now u" "\<not> IsTooEarly now u"
  shows "Validate claim E C (view_of bs b u) prfs = Ret (Inr (view_of bs b u, None))"
proof -
  have t: "cc_validateTimeBounds C (view_of bs b u) = None"
    using assms(1,3,4) by (simp add: default_checks_def NotExpiredNotTooEarly_def)
  then show ?thesis
    using assms(2) by (auto simp: signed_by_issuer_def Validate_def VerifyAuthorization_def v_VerifySignature_def Let_def
        view_of_def dlg_Issuer_def split: if_splits)
qed

lemma honest_view:
  assumes "wf_store bs" "br_Get bs l = Some b" "dlg_decode L U b = Inr u"
  shows "NewDelegationView L U l bs = Inr (view_of bs b u)" "blk_link b = l"
    "NewBlockReader [] (dlg_Blocks (view_of bs b u)) = Inr bs"
proof -
  show "NewDelegationView L U l bs = Inr (view_of bs b u)" using assms(2,3) by (auto simp: NewDelegationView_Inr view_of_def)
  show "blk_link b = l" using assms(1,2) by (auto simp: wf_store_def br_Get_def)
  obtain xs where "br_Iterator bs = map Inr xs" "NewBlockReader [] (map Inr xs) = Inr bs" by (rule store_blocks [OF assms(1)])
  then show "NewBlockReader [] (dlg_Blocks (view_of bs b u)) = Inr bs"
    by (simp add: dlg_Blocks_def iter_Concat2_def view_of_def store.iter_empty)
qed

lemma honest_match:
  assumes "reads desc can w sent nb" "ucan_Capabilities u = [c]" "ResolveAbility (cp_Can c) can = can"
    "cp_With c = w \<or> cp_With c = ''ucan:*''"
  shows "match_Select (NewMatch s (Ucan.NewCapability can w nb) desc) [NewSource c d] =
           Ret ([NewMatch (NewSource c d) (Ucan.NewCapability can w nb) desc], [], [])"
proof -
  have "DefaultDerives x x = None" for x :: "gany capability"
    unfolding DefaultDerives_iff HasSuffix_iff by auto
  then show ?thesis
    using assms by (auto simp: match_Select_def match_select_source_def ResolveCapability_def ResolveResource_def reads_def
        Let_def Ucan.NewCapability_def)
qed

lemma honest_sources:
  assumes "order_ok E" "default_checks E now C" "wf_store bs" "blk_link b = l"
    and "br_Get bs l' = Some b'" "dlg_decode (ve_L E) (ve_U E) b' = Inr u'" "NewBlockReader [] (dlg_Blocks (view_of bs b u)) = Inr bs"
    and "um_Prf u = [l']" "ucan_Issuer (ve_L E) u = ucan_Audience (ve_L E) u'" "ucan_Capabilities u' = [c']"
    and "signed_by_issuer E C u'" "\<not> IsExpired now u'" "\<not> IsTooEarly now u'"
  shows "ResolveMatch claim E C (NewMatch (NewSource c (view_of bs b u)) v desc) =
           Ret ([NewSource c' (view_of bs b' u')], [], [])"
proof -
  have "NewProofsView (ve_L E) (ve_U E) [l'] bs = [PDelegation (view_of bs b' u')]"
    using honest_view(1) [OF assms(3,5,6)] by (simp add: NewProofsView_def)
  then show ?thesis
    using assms(7-10) honest_valid [OF assms(2,11-13)]
    by (simp add: ResolveMatch_single [OF assms(1)] ResolveSources_def Let_def proof_Delegation_def attestations_of_def
        List.map_filter_def)
qed

abbreviation match_at :: "blockreader \<Rightarrow> descriptor \<Rightarrow> gany capability \<Rightarrow> block \<Rightarrow> ucan_model \<Rightarrow> gany capability \<Rightarrow> vmatch" where
  "match_at bs desc v b u c \<equiv> NewMatch (NewSource c (view_of bs b u)) v desc"

lemma honest_prune:
  assumes "default_checks E now C" "signed_by_issuer E C u"
  shows "match_Prune (ve_L E) (canissuer_CanIssue C) (match_at bs desc (Ucan.NewCapability can w nb) b u c) =
           Ret (if did_String (ve_L E) (ucan_Issuer (ve_L E) u) = Ret w then None
                else Some (match_at bs desc (Ucan.NewCapability can w nb) b u c))"
proof -
  obtain t where "did_String (ve_L E) (ucan_Issuer (ve_L E) u) = Ret t"
    using assms(2) by (auto simp: signed_by_issuer_def Let_def)
  then show ?thesis
    using assms(1) by (auto simp: match_Prune_def canissuer_CanIssue_def default_checks_def IsSelfIssued_def Ucan.NewCapability_def)
qed

lemma honest_step:
  "honest_chain E C now bs can w ((l, u) # x # us) \<Longrightarrow> honest_chain E C now bs can w (x # us)"
  by (cases x) (simp add: honest_chain_def)

lemma honest_authorized:
  assumes "order_ok E" "default_checks E now C" "wf_store bs" "reads desc can w sent nb"
    and "honest_chain E C now bs can w ((l, u) # us)" "br_Get bs l = Some b"
  shows "match_Prune (ve_L E) (canissuer_CanIssue C) (match_at bs desc (Ucan.NewCapability can w nb) b u c) = Ret None \<or>
         (\<exists>a. \<forall>n \<ge> length us. Authorize n E C (match_at bs desc (Ucan.NewCapability can w nb) b u c) = Ret (Inr a))"
  using assms(5,6)
proof (induction us arbitrary: l u b c)
  case Nil
  then show ?case using honest_prune [OF assms(2)] by (simp add: honest_chain_def)
next
  case (Cons x us)
  obtain l' u' where x: "x = (l', u')" by (cases x)
  let ?m = "match_at bs desc (Ucan.NewCapability can w nb)"
  note h = Cons.prems(1) [unfolded x honest_chain_def]
  obtain b' c' where b': "br_Get bs l' = Some b'" "dlg_decode (ve_L E) (ve_U E) b' = Inr u'"
    and c': "ucan_Capabilities u' = [c']" "ResolveAbility (cp_Can c') can = can" "cp_With c' = w \<or> cp_With c' = ''ucan:*''"
    using h by (auto simp: grants_def)
  have v: "blk_link b = l" "NewBlockReader [] (dlg_Blocks (view_of bs b u)) = Inr bs"
    using h Cons.prems(2) honest_view [OF assms(3) Cons.prems(2), of "ve_L E" "ve_U E" u] by auto
  have rm: "ResolveMatch f E C (?m b u c) = Ret ([NewSource c' (view_of bs b' u')], [], [])" for f
    using h by (auto intro!: honest_sources [OF assms(1-3) v(1) b' v(2) _ _ c'(1)])
  have sel: "match_Select (?m b u c) [NewSource c' (view_of bs b' u')] = Ret ([?m b' u' c'], [], [])"
    by (rule honest_match [OF assms(4) c'])
  have src: "mt_source (?m b' u' c') = Ret (NewSource c' (view_of bs b' u'))" by simp
  have "\<exists>a. \<forall>n \<ge> length us. authorize_loop (Authorize n E C) E C [] [?m b' u' c'] = Ret (Inr a)"
  proof (cases "match_Prune (ve_L E) (canissuer_CanIssue C) (?m b' u' c') = Ret None")
    case False
    then have p: "match_Prune (ve_L E) (canissuer_CanIssue C) (?m b' u' c') = Ret (Some (?m b' u' c'))"
      using honest_prune [OF assms(2), of u' c' bs b' can w nb desc] h by (auto split: if_splits)
    obtain a where "\<forall>n \<ge> length us. Authorize n E C (?m b' u' c') = Ret (Inr a)"
      using Cons.IH [OF honest_step [OF Cons.prems(1), unfolded x] b'(1), of c'] False by blast
    then show ?thesis using p src by (simp add: attestationsFor_def Let_def)
  qed (simp add: src attestationsFor_def Let_def)
  then obtain a where a: "\<And>n. n \<ge> length us \<Longrightarrow> authorize_loop (Authorize n E C) E C [] [?m b' u' c'] = Ret (Inr a)" by blast
  have "Authorize n E C (?m b u c) = Ret (Inr a)" if n: "n \<ge> length (x # us)" for n
  proof -
    obtain k where k: "n = Suc k" "k \<ge> length us" using n by (cases n) auto
    show ?thesis by (simp add: k(1) Authorize_body_def rm sel a [OF k(2)] del: authorize_loop.simps)
  qed
  then show ?case by blast
qed

text \<open>The invocation at the head of the chain is authorized.\<close>

lemma honest_access:
  assumes "order_ok E" "default_checks E now C" "wf_store bs" "reads desc can w sent nb"
    and "honest_chain E C now bs can w ((l, u) # us)" "ucan_Capabilities u = [Ucan.NewCapability can w sent]"
    and "NewInvocationView (ve_L E) (ve_U E) l bs = Inr ivk" "Suc (length us) \<le> n"
  obtains a where "Access n E C desc ivk = Ret (Inr a)" "auth_Capability a = Ucan.NewCapability can w nb"
proof -
  let ?c = "Ucan.NewCapability can w sent"
  note h = assms(5) [unfolded honest_chain_def]
  obtain b where b: "br_Get bs l = Some b" "dlg_decode (ve_L E) (ve_U E) b = Inr u" using h by auto
  have ivk: "ivk = view_of bs b u" using assms(7) honest_view(1) [OF assms(3) b] by (simp add: NewInvocationView_def)
  let ?m = "NewMatch (NewSource ?c ivk) (Ucan.NewCapability can w nb) desc"
  have val: "Validate f E C ivk prfs = Ret (Inr (ivk, None))" for f prfs
    unfolding ivk using h by (intro honest_valid [OF assms(2)]) auto
  have rp: "ResolveProofs (cc_resolveProof C) [PDelegation ivk] = ([ivk], [])" by (simp add: proof_Delegation_def)
  have sel: "cap_Select desc (map (\<lambda>c. NewSource c ivk) (dlg_Capabilities ivk)) = Ret ([?m], [], [])"
    using assms(4,6) by (simp add: ivk cap_Select_def select_source_def cap_Match_def ParseCapability_def Let_def
        Ucan.NewCapability_def reads_def)
  obtain k where k: "n = Suc k" "k \<ge> length us" using assms(8) by (cases n) auto
  have nr: "\<And>a. cc_validateAuthorization C a = Ret None" using assms(2) by (simp add: default_checks_def)
  have pr: "match_Prune (ve_L E) (canissuer_CanIssue C) ?m = Ret None \<or>
      match_Prune (ve_L E) (canissuer_CanIssue C) ?m = Ret (Some ?m)"
    using honest_prune [OF assms(2), of u ?c bs b can w nb desc] h by (auto simp: ivk)
  have "match_Prune (ve_L E) (canissuer_CanIssue C) ?m = Ret None \<or> (\<exists>a. Authorize k E C ?m = Ret (Inr a))"
    using honest_authorized [OF assms(1-5) b(1), of ?c] k(2) unfolding ivk by blast
  with pr obtain ps where "claim_loop (Authorize k E C) E C [] [?m] = Ret (Inr (Authorization ?m ps []))"
    using nr by (auto simp: NewAuthorization_def)
  then have "Access n E C desc ivk = Ret (Inr (Authorization ?m ps []))"
    by (simp add: k(1) Access_def Claim_body_def rp val sel attestations_of_def List.map_filter_def Let_def
        del: ResolveProofs.simps claim_loop.simps)
  then show thesis by (rule that) (simp add: auth_Capability_def)
qed

section \<open>The server's answer\<close>

lemma default_server:
  assumes "NewServer E ident (provide_options E ps) = Inr srv"
  shows "sv_service srv = provided E ps" "sv_id srv = ident" "srv_LogReceipt srv r i = sret None"
    "default_checks (se_V E) (se_now E) (fst (provider_context (sv_context srv) desc))"
    "cc_parsePrincipal (fst (provider_context (sv_context srv) desc)) = srv_ParsePrincipal (se_L E)"
    "cc_authority (fst (provider_context (sv_context srv) desc)) = ps_verifier ident"
    "cx_id (sv_context srv) = ident" "cx_altAudiences (sv_context srv) = []"
proof -
  obtain cfg where c: "apply_srv_options (provide_options E ps) srvConfig0 = Inr cfg"
    using assms by (auto simp: NewServer_def case_sum_eq)
  moreover have "\<exists>sv. cfg = cf\<lparr> sc_service := sv \<rparr>" if "apply_srv_options (provide_options E ps) cf = Inr cfg" for cf
    using that
  proof (induction ps arbitrary: cf)
    case (Cons p ps)
    then show ?case by (cases p) (fastforce simp: provide_options_def WithServiceMethod_def)
  next
    case Nil
    then show ?case by (intro exI [of _ "sc_service cf"]) (simp add: provide_options_def)
  qed
  ultimately obtain sv where cfg: "cfg = srvConfig0\<lparr> sc_service := sv \<rparr>" by blast
  show "sv_service srv = provided E ps"
    using NewServer_service [of E ident "[]" ps srv] assms by simp
  show "sv_id srv = ident" "srv_LogReceipt srv r i = sret None"
    "default_checks (se_V E) (se_now E) (fst (provider_context (sv_context srv) desc))"
    "cc_parsePrincipal (fst (provider_context (sv_context srv) desc)) = srv_ParsePrincipal (se_L E)"
    "cc_authority (fst (provider_context (sv_context srv) desc)) = ps_verifier ident"
    "cx_id (sv_context srv) = ident" "cx_altAudiences (sv_context srv) = []"
    using assms c by (auto simp: NewServer_def cfg Let_def srvConfig0_def or_default_def srv_LogReceipt_def
        default_checks_def provider_context_def NewValidationContext_def NewClaimContext_def)
qed

text \<open>
  A server made with its default checks, given an invocation to itself that rests on such a chain, calls the
  handler with the invoked capability and answers with the receipt of the handler's result. The fuel is the
  length of the chain. A provider of any server with these checks calls its handler alike.
\<close>

lemma honest_provided:
  assumes "order_ok (se_V E)" "default_checks (se_V E) (se_now E) (fst (provider_context ctx desc))" "cx_altAudiences ctx = []"
    and "reads desc can w sent nb" "wf_store bs"
    and "honest_chain (se_V E) (fst (provider_context ctx desc)) (se_now E) bs can w ((l, u) # us)" "length us < se_fuel E"
    and "ucan_Capabilities u = [Ucan.NewCapability can w sent]" "NewInvocationView (se_L E) (se_U E) l bs = Inr ivk"
    and "dlg_Audience (se_L E) ivk = ps_DID (cx_id ctx)" "did_String (se_L E) (ps_DID (cx_id ctx)) = Ret own"
    and "h (Ucan.NewCapability can w nb) ivk ctx s = Ret (Inr (res, fx), s')" "res \<noteq> nilResult"
  shows "Provide E desc h ivk ctx s = Ret (Inr (Some (NewTransaction res [TxEffects fx])), s')"
proof -
  obtain a where "Access (se_fuel E) (se_V E) (fst (provider_context ctx desc)) desc ivk = Ret (Inr a)"
    "auth_Capability a = Ucan.NewCapability can w nb"
    using honest_access [OF assms(1,2,5,4,6,8,9), of "se_fuel E"] assms(7) by (auto simp: Suc_le_eq)
  moreover obtain C where "provider_context ctx desc = (C, desc)"
    using provider_context_snd [of ctx desc] by (cases "provider_context ctx desc") auto
  moreover have "accepted_audiences (se_L E) ctx = Ret (Literal own)" by (simp add: accepted_audiences_def assms(3,11))
  ultimately show ?thesis using assms(10-13) by (simp add: Provide_def Let_def Literal_def same_result_Ret)
qed

lemma honest_served:
  assumes "order_ok (se_V E)" "NewServer E ident (provide_options E ps) = Inr srv" "map_of (rev ps) can = Some (desc, h)"
    and "reads desc can w sent nb" "wf_store bs"
    and "honest_chain (se_V E) (fst (provider_context (sv_context srv) desc)) (se_now E) bs can w ((l, u) # us)"
    and "length us < se_fuel E"
    and "ucan_Capabilities u = [Ucan.NewCapability can w sent]" "NewInvocationView (se_L E) (se_U E) l bs = Inr ivk"
    and "dlg_Audience (se_L E) ivk = ps_DID ident" "did_String (se_L E) (ps_DID ident) = Ret own"
    and "h (Ucan.NewCapability can w nb) ivk (sv_context srv) s = Ret (Inr (res, fx), s')" "res \<noteq> nilResult"
    and "rcpt_Issue (se_L E) (se_R E) (ps_signer ident) res (ran_FromInvocation (Some ivk)) (fx_options fx) = Ret (Inr r)"
  shows "srv_Run E srv ivk s = Ret (Inr r, s')"
proof -
  note d = default_server [OF assms(2)]
  obtain b where "br_Get bs l = Some b" "dlg_decode (se_L E) (se_U E) b = Inr u" using assms(6) by (auto simp: honest_chain_def)
  from honest_view(1) [OF assms(5) this] have "ivk = view_of bs b u" using assms(9) by (simp add: NewInvocationView_def)
  then have caps: "dlg_Capabilities ivk = [Ucan.NewCapability can w sent]" using assms(8) by simp
  have "Provide E desc h ivk (sv_context srv) s = Ret (Inr (Some (NewTransaction res [TxEffects fx])), s')"
    using assms(10,11) by (intro honest_provided [OF assms(1) d(4) d(8) assms(4-9)]) (simp_all add: d(7) assms(12,13))
  moreover have "sv_service srv can = Some (service_method_of (Provide E desc h))" by (simp add: d(1) provided_def assms(3))
  ultimately show ?thesis
    using assms(13,14) by (simp add: srv_Run_def Let_def caps Ucan.NewCapability_def service_method_of_def same_result_Ret
        NewTransaction_def srv_issue_def d(2,3))
qed

end
