(* ===== verification/Delegating.thy ===== *)
theory Delegating
  imports Chain
begin

text \<open>
  From issuing to serving: what a chain of calls of \<open>Delegate\<close>, each passing on the delegation made before it
  to the next key, comes to. It is an honest chain in any store that has its blocks, so a server runs the
  invocation at its end.
\<close>

section \<open>Keys and what they issue\<close>

definition key_of :: "extlib \<Rightarrow> bytes \<Rightarrow> bytes \<Rightarrow> signer \<Rightarrow> bool" where
  "key_of L seed pub sg \<longleftrightarrow> length seed = 32 \<and> length pub = 32 \<and> eds_signer L (eds_bytes L seed pub) = Ret sg"

definition crypto_ok :: "extlib \<Rightarrow> bool" where
  "crypto_ok L \<longleftrightarrow> varint_ok L \<and> ed25519_ok L \<and> multibase_ok L"

lemma key_of_DID:
  assumes "varint_ok L" "key_of L seed pub sg"
  shows "sg_DID sg = DID True (uv_put L edv_Code @ pub)" "wf_did L (sg_DID sg)"
    "sg_SignatureAlgorithm sg = ed_SignatureAlgorithm" "sg_Sign sg = eds_Sign L (eds_bytes L seed pub)"
proof -
  have "length seed = 32" "eds_signer L (eds_bytes L seed pub) = Ret sg" using assms(2) by (auto simp: key_of_def)
  then show d: "sg_DID sg = DID True (uv_put L edv_Code @ pub)"
    and "sg_SignatureAlgorithm sg = ed_SignatureAlgorithm" "sg_Sign sg = eds_Sign L (eds_bytes L seed pub)"
    using eds_did_bytes(1) [OF assms(1), of seed pub] by (auto simp: eds_signer_def)
  show "wf_did L (sg_DID sg)" unfolding d by (auto simp: wf_did_def edv_Code_def Ed25519_def)
qed

text \<open>A UCAN that verifies with the key its issuer's did:key names, which is how a server finds it.\<close>

definition self_signed :: "extlib \<Rightarrow> ucanlib \<Rightarrow> ucan_model \<Rightarrow> bool" where
  "self_signed L U u \<longleftrightarrow>
     (\<exists>s v. did_String L (ucan_Issuer L u) = Ret s \<and> HasPrefix s ''did:key:'' \<and> srv_ParsePrincipal L s = Inr v \<and>
        ucan_VerifySignature L U u v = Ret (Inr True))"

lemma parse_key_of:
  assumes "crypto_ok L" "key_of L seed pub sg" "did_String L (sg_DID sg) = Ret s"
  shows "srv_ParsePrincipal L s = Inr (edv_verifier L (uv_put L edv_Code @ pub))" "HasPrefix s ''did:key:''"
proof -
  let ?k = "uv_put L edv_Code @ pub"
  have L: "varint_ok L" "multibase_ok L" and l: "length pub = 32" using assms(1,2) by (auto simp: crypto_ok_def key_of_def)
  note d = key_of_DID [OF L(1) assms(2)]
  have "did_Parse L s = Inr (DID True ?k)" using parse_of_string [OF L d(2)] assms(3) d(1) by auto
  moreover have "edv_Decode L ?k = Inr ?k" using L l by (simp add: edv_Decode_def edv_size_def ed_keySize_def go_copy_def)
  ultimately show "srv_ParsePrincipal L s = Inr (edv_verifier L ?k)"
    using wf_did_defined [OF L(1) d(2)] d(1) by (simp add: srv_ParsePrincipal_def edv_Parse_def did_Bytes_def)
  show "HasPrefix s ''did:key:''"
    using assms(3) wf_did_defined [OF L(1) d(2)] by (auto simp: d(1) did_String_def HasPrefix_def)
qed

lemma key_issues:
  assumes "crypto_ok L" "key_of L seed pub sg" "wf_did L aud" "ucan_Issue L U t sg aud caps opts = Ret (Inr u)"
  shows "ucan_Issuer L u = sg_DID sg" "ucan_Audience L u = aud" "self_signed L U u"
proof -
  have L: "varint_ok L" using assms(1) by (simp add: crypto_ok_def)
  note d = key_of_DID [OF L assms(2)]
  have k: "ed_usable (L, seed, pub)" using assms(1,2) by (simp add: ed_usable_def crypto_ok_def key_of_def)
  show i: "ucan_Issuer L u = sg_DID sg" and "ucan_Audience L u = aud"
    using assms(4) did_decode_wf [OF L] d(2) assms(3)
    by (auto elim!: issue_inversion simp: ucan_Issuer_def ucan_Audience_def)
  let ?v = "edv_verifier L (uv_put L edv_Code @ pub)"
  have "vf_DID ?v = sg_DID sg" "vf_Verify ?v = edv_Verify L (uv_put L edv_Code @ pub)"
    using eds_did_bytes(3) [OF L, of seed pub] assms(2) by (simp_all add: d(1) edv_verifier_def key_of_def)
  then have "ucan_VerifySignature L U u ?v = Ret (Inr True)"
    using ed_ucan.issue_then_verify [OF k, of sg ?v aud U t caps opts u] d assms(3,4)
    by (simp add: ed_key_sign_def ed_key_verify_def fun_eq_iff)
  then show "self_signed L U u"
    using parse_key_of [OF assms(1,2)] did_string_wf [OF L d(2)] by (auto simp: self_signed_def i)
qed

section \<open>What a delegation of one capability holds\<close>

text \<open>The store of a delegation that rests on nothing, or on one delegation whose store it takes over.\<close>

definition takes_over :: "blockreader \<Rightarrow> delegation \<Rightarrow> bool" where
  "takes_over old d \<longleftrightarrow>
     wf_store (dl_blks d) \<and> dl_atch d = br_empty \<and> br_Get (dl_blks d) = (br_Get old)(dlg_Link d \<mapsto> dl_rt d)"

lemma option_config: "foldl apply_delegate_option cfg (map DOption opts) = foldl apply_dlg_option cfg opts"
  by (induction opts arbitrary: cfg) auto

lemma option_keeps_pruner: "dc_pruner (foldl apply_dlg_option cfg opts) = dc_pruner cfg"
proof (induction opts arbitrary: cfg)
  case (Cons opt opts)
  then show ?case by (cases opt) auto
qed simp

lemma delegated_parts:
  assumes "codec_ok (ul_cbor U)" "Delegate L U t sg aud caps (map DOption opts) = Ret (Inr d)"
    and "dc_prf (foldl apply_dlg_option delegationConfig0 opts) = prf"
  obtains bs where "proofs_WriteInto prf br_empty = Ret (map proof_Link prf, bs)"
    "ucan_Issue L U t sg aud caps (issue_options (foldl apply_dlg_option delegationConfig0 opts) (map proof_Link prf)) = Ret (Inr (dl_ucan d))" "um_Prf (dl_ucan d) = map proof_Link prf"
    "dlg_decode L U (dl_rt d) = Inr (dl_ucan d)" "dl_blks d = bs_Put bs (dl_rt d)" "dl_atch d = br_empty"
proof -
  let ?cfg = "foldl apply_dlg_option delegationConfig0 opts"
  have "prune_config (foldl apply_delegate_option delegationConfig0 (map DOption opts)) sg aud caps = Ret (Inr ?cfg)"
    by (simp add: option_config prune_config_def option_keeps_pruner delegationConfig0_def)
  then obtain links bs data rt where a: "proofs_WriteInto prf br_empty = Ret (links, bs)"
    "ucan_Issue L U t sg aud caps (issue_options ?cfg links) = Ret (Inr data)"
    "block_Encode L (ul_cbor U) data = Inr rt" "NewDelegation L U rt (bs_Put bs rt) = Inr d"
    using assms(2,3) unfolding Delegate_Inr by auto
  have "block_Decode L (ul_cbor U) rt = Inr data" by (rule block_codec_roundtrip [OF assms(1) a(3)])
  with a(4) have d: "d = \<lparr> dl_rt = rt, dl_blks = bs_Put bs rt, dl_atch = br_empty, dl_ucan = data \<rparr>"
    and "dlg_decode L U rt = Inr data" by (auto simp: NewDelegation_Inr dlg_decode_Inr)
  moreover have "links = map proof_Link prf" using proofs_WriteInto_Ret [OF a(1)] by blast
  ultimately show thesis using a(1,2) issued_proofs [OF a(2)] by (intro that [of bs]) simp_all
qed

lemma store_takes_over:
  assumes "wf_store old" "br_Iterator old = map Inr xs" "br_Get old (dlg_Link d) = None"
    and "dl_blks d = bs_Put (foldl bs_Put br_empty xs) (dl_rt d)" "dl_atch d = br_empty"
  shows "takes_over old d"
proof -
  have "NewBlockReader [] (map Inr xs) = Inr old" using store_blocks [OF assms(1)] assms(2) by (metis map_injective sum.inject(2) injI)
  then have "br_Get old = br_Get (foldl bs_Put br_empty xs)"
    using NewBlockReader_contents(1) [of "[]" xs old] store.contents(1) [of xs] by auto
  moreover have "wf_store (foldl bs_Put br_empty xs)" by (rule store.contents(3))
  ultimately show ?thesis
    using assms(3-5) by (auto simp: takes_over_def store.get_put wf_store_Put dlg_Link_def)
qed

section \<open>A chain of calls of Delegate\<close>

definition covers :: "string \<Rightarrow> string \<Rightarrow> 'c capability \<Rightarrow> bool" where
  "covers can w c \<longleftrightarrow> ResolveAbility (cp_Can c) can = can \<and> (cp_With c = w \<or> cp_With c = ''ucan:*'')"

definition in_time :: "int \<Rightarrow> delegation \<Rightarrow> bool" where
  "in_time now d \<longleftrightarrow> \<not> IsExpired now (dl_ucan d) \<and> \<not> IsTooEarly now (dl_ucan d)"

text \<open>
  The newest delegation first: the oldest is made by the key that owns the resource, without proofs; each
  other one by the key the one before it was made for, with that one as its only proof. The link of a new
  delegation is new. Every key chooses the audience, the lifetime, the nonce and the facts.
\<close>

inductive delegated :: "extlib \<Rightarrow> ucanlib \<Rightarrow> int \<Rightarrow> string \<Rightarrow> string \<Rightarrow> delegation list \<Rightarrow> bool" for L U now can w where
  by_owner: "key_of L seed pub sg \<Longrightarrow> did_String L (sg_DID sg) = Ret w \<Longrightarrow> wf_did L aud \<Longrightarrow> covers can w c \<Longrightarrow>
     dc_prf (foldl apply_dlg_option delegationConfig0 opts) = [] \<Longrightarrow>
     Delegate L U t sg aud [c] (map DOption opts) = Ret (Inr d) \<Longrightarrow> in_time now d \<Longrightarrow> delegated L U now can w [d]"
| passed_on: "delegated L U now can w (d # ds) \<Longrightarrow>
     key_of L seed pub sg \<Longrightarrow> sg_DID sg = dlg_Audience L d \<Longrightarrow> wf_did L aud \<Longrightarrow> covers can w c \<Longrightarrow>
     dc_prf (foldl apply_dlg_option delegationConfig0 opts) = [PDelegation d] \<Longrightarrow>
     Delegate L U t sg aud [c] (map DOption opts) = Ret (Inr e) \<Longrightarrow> br_Get (dl_blks d) (dlg_Link e) = None \<Longrightarrow>
     in_time now e \<Longrightarrow> delegated L U now can w (e # d # ds)"

text \<open>A delegation is valid for 30 seconds when nothing else is asked for.\<close>

lemma default_window:
  assumes "codec_ok (ul_cbor U)" "Delegate L U t sg aud caps (map DOption opts) = Ret (Inr d)" "now < t + 30"
    and "dc_exp (foldl apply_dlg_option delegationConfig0 opts) = None" "\<not> dc_noexp (foldl apply_dlg_option delegationConfig0 opts)"
    and "dc_nbf (foldl apply_dlg_option delegationConfig0 opts) = 0"
  shows "in_time now d"
proof -
  obtain links where "ucan_Issue L U t sg aud caps (issue_options (foldl apply_dlg_option delegationConfig0 opts) links) = Ret (Inr (dl_ucan d))"
    using delegated_parts [OF assms(1,2) refl] by metis
  then show ?thesis
    using assms(3-6) by (auto simp: in_time_def issued_time_window issue_options_def ucanConfig0_def)
qed

text \<open>What holds of a chain, and is kept by passing it on.\<close>

definition sound_link :: "extlib \<Rightarrow> ucanlib \<Rightarrow> int \<Rightarrow> string \<Rightarrow> string \<Rightarrow> blockreader \<Rightarrow> delegation \<Rightarrow> bool" where
  "sound_link L U now can w bs d \<longleftrightarrow>
     br_Get bs (dlg_Link d) = Some (dl_rt d) \<and> dlg_decode L U (dl_rt d) = Inr (dl_ucan d) \<and>
     grants can w (dl_ucan d) \<and> self_signed L U (dl_ucan d) \<and> in_time now d"

definition held :: "delegation list \<Rightarrow> (link \<times> ucan_model) list" where
  "held ds = map (\<lambda>d. (dlg_Link d, dl_ucan d)) ds"

lemma issued_grants:
  assumes "ucan_Issue L U t sg aud [c] opts = Ret (Inr u)" "covers can w c"
  shows "grants can w u"
proof -
  obtain ms where "emapM build_capability [c] = Inr ms" "um_Att u = ms" using assms(1) by (elim issue_inversion) auto
  from issued_capabilities [OF this] show ?thesis using assms(2) by (auto simp: grants_def covers_def list_all2_Cons1)
qed

lemma fresh_link:
  assumes "crypto_ok L" "key_of L seed pub sg" "wf_did L aud" "covers can w c"
    and "ucan_Issue L U t sg aud [c] opts = Ret (Inr (dl_ucan d))" "dlg_decode L U (dl_rt d) = Inr (dl_ucan d)"
    and "takes_over old d" "in_time now d"
  shows "sound_link L U now can w (dl_blks d) d"
  using assms issued_grants [OF assms(5,4)] key_issues(3) [OF assms(1-3,5)] by (simp add: sound_link_def takes_over_def)

lemma delegated_chain:
  assumes "crypto_ok L" "codec_ok (ul_cbor U)" "delegated L U now can w ds"
  obtains d ds' where "ds = d # ds'" "wf_store (dl_blks d)" "dl_atch d = br_empty"
    "linked L (held ds)" "did_String L (dlg_Issuer L (last ds)) = Ret w" "\<forall>x \<in> set ds. sound_link L U now can w (dl_blks d) x"
proof -
  have "\<exists>d ds'. ds = d # ds' \<and> wf_store (dl_blks d) \<and> dl_atch d = br_empty \<and> linked L (held ds) \<and>
      did_String L (dlg_Issuer L (last ds)) = Ret w \<and> (\<forall>x \<in> set ds. sound_link L U now can w (dl_blks d) x)"
    using assms(3)
  proof (induction rule: delegated.induct)
    case (by_owner seed pub sg aud c opts t d)
    obtain bs io where p: "proofs_WriteInto [] br_empty = Ret (map proof_Link [], bs)"
      "ucan_Issue L U t sg aud [c] io = Ret (Inr (dl_ucan d))" "dlg_decode L U (dl_rt d) = Inr (dl_ucan d)"
      "dl_blks d = bs_Put bs (dl_rt d)" "dl_atch d = br_empty"
      using delegated_parts [OF assms(2) by_owner(6,5)] by metis
    have t: "takes_over br_empty d"
      using p(1,4,5) by (intro store_takes_over [of _ "[]"]) (simp_all add: store.inv_empty store.iter_empty store.get_empty)
    have "sound_link L U now can w (dl_blks d) d" by (rule fresh_link [OF assms(1) by_owner(1,3,4) p(2,3) t by_owner(7)])
    then show ?case
      using t by_owner(2) key_issues(1) [OF assms(1) by_owner(1,3) p(2)] by (simp add: takes_over_def held_def dlg_Issuer_def)
  next
    case (passed_on d ds seed pub sg aud c opts t e)
    then have ih: "wf_store (dl_blks d)" "dl_atch d = br_empty" "linked L (held (d # ds))"
      "did_String L (dlg_Issuer L (last (d # ds))) = Ret w" "\<forall>x \<in> set (d # ds). sound_link L U now can w (dl_blks d) x" by auto
    obtain bs io where p: "proofs_WriteInto [PDelegation d] br_empty = Ret (map proof_Link [PDelegation d], bs)"
      "ucan_Issue L U t sg aud [c] io = Ret (Inr (dl_ucan e))" "um_Prf (dl_ucan e) = map proof_Link [PDelegation d]"
      "dlg_decode L U (dl_rt e) = Inr (dl_ucan e)" "dl_blks e = bs_Put bs (dl_rt e)" "dl_atch e = br_empty"
      using delegated_parts [OF assms(2) passed_on(7,6)] by metis
    obtain xs where xs: "br_Iterator (dl_blks d) = map Inr xs" using store_blocks [OF ih(1)] by metis
    then have "bs = foldl bs_Put br_empty xs"
      using p(1) ih(2) by (auto simp: proof_Delegation_def dlg_Blocks_def iter_Concat2_def store.iter_empty WriteInto_ok)
    then have t: "takes_over (dl_blks d) e" using p(5,6) by (intro store_takes_over [OF ih(1) xs passed_on(8)]) simp_all
    have "sound_link L U now can w (dl_blks e) e"
      by (rule fresh_link [OF assms(1) passed_on(2,4,5) p(2,4) t passed_on(9)])
    moreover have "sound_link L U now can w (dl_blks e) x" if "x \<in> set (d # ds)" for x
      using that ih(5) t passed_on(8) by (fastforce simp: sound_link_def takes_over_def)
    moreover have "linked L (held (e # d # ds))"
      using ih(3) p(3) passed_on(3) key_issues(1) [OF assms(1) passed_on(2,4) p(2)]
      by (simp add: held_def proof_Link_def dlg_Audience_def)
    ultimately show ?case using t ih(4) by (auto simp: takes_over_def)
  qed
  then show thesis using that by blast
qed

section \<open>Serving it\<close>

text \<open>A store that has the blocks of a delegation, as the one of a message it was sent in does.\<close>

definition has_blocks :: "blockreader \<Rightarrow> delegation \<Rightarrow> bool" where
  "has_blocks bs d \<longleftrightarrow> wf_store bs \<and> (\<forall>l b. br_Get (dl_blks d) l = Some b \<longrightarrow> br_Get bs l = Some b)"

lemma self_signed_by_issuer:
  assumes "self_signed (ve_L E) (ve_U E) u" "cc_parsePrincipal C = srv_ParsePrincipal (ve_L E)"
  shows "signed_by_issuer E C u"
  using assms unfolding self_signed_def signed_by_issuer_def Let_def by fastforce

lemma delegated_honest:
  assumes "crypto_ok (ve_L E)" "codec_ok (ul_cbor (ve_U E))" "delegated (ve_L E) (ve_U E) now can w (d # ds)"
    and "has_blocks bs d" "cc_parsePrincipal C = srv_ParsePrincipal (ve_L E)"
  shows "honest_chain E C now bs can w (held (d # ds))"
proof -
  note c = delegated_chain [OF assms(1-3)]
  have l: "linked (ve_L E) (held (d # ds))" and w: "did_String (ve_L E) (dlg_Issuer (ve_L E) (last (d # ds))) = Ret w"
    and s: "\<forall>x \<in> set (d # ds). sound_link (ve_L E) (ve_U E) now can w (dl_blks d) x"
    by (rule c; simp)+
  have "sound_link (ve_L E) (ve_U E) now can w bs x" if "x \<in> set (d # ds)" for x
    using that s assms(4) unfolding sound_link_def has_blocks_def by blast
  then have "\<exists>b. br_Get bs (dlg_Link x) = Some b \<and> dlg_decode (ve_L E) (ve_U E) b = Inr (dl_ucan x)"
    "grants can w (dl_ucan x)" "signed_by_issuer E C (dl_ucan x)" "\<not> IsExpired now (dl_ucan x)" "\<not> IsTooEarly now (dl_ucan x)"
    if "x \<in> set (d # ds)" for x
    using that self_signed_by_issuer [OF _ assms(5)] by (auto simp: sound_link_def in_time_def)
  moreover have "ucan_Issuer (ve_L E) (snd (last (held (d # ds)))) = dlg_Issuer (ve_L E) (last (d # ds))"
    by (simp add: held_def last_map dlg_Issuer_def del: list.map)
  ultimately show ?thesis
    using l w by (auto simp: honest_chain_def held_def simp del: last.simps)
qed


section \<open>Two keys and a server, for the witness\<close>

text \<open>One key owns the resource its did:key names and delegates store/* on it to another, which invokes store/add.\<close>

definition env5 :: "ucan_model \<Rightarrow> ucan_model \<Rightarrow> nat srvenv" where
  "env5 u v = (env1 v)\<lparr> se_V := \<lparr> ve_L = lib0, ve_U = U2 u v, ve_order = rev \<rparr>, se_fuel := 2 \<rparr>"

definition opts5 :: "dproof list \<Rightarrow> dlg_option list" where
  "opts5 prf = [DWithNoExpiration, DWithProof prf]"

lemma crypto0: "crypto_ok lib0"
  by (simp add: crypto_ok_def lib0_varint_ok lib0_ed25519_ok lib0_multibase_ok)

lemma delegates:
  assumes "ucan_Issue L U t sg aud caps (issue_options (foldl apply_dlg_option delegationConfig0 opts) links) = Ret (Inr u)"
    and "proofs_WriteInto (dc_prf (foldl apply_dlg_option delegationConfig0 opts)) br_empty = Ret (links, bs)"
    and "block_Encode L (ul_cbor U) u = Inr rt" "dlg_decode L U rt = Inr u"
  shows "Delegate L U t sg aud caps (map DOption opts) =
           Ret (Inr \<lparr> dl_rt = rt, dl_blks = bs_Put bs rt, dl_atch = br_empty, dl_ucan = u \<rparr>)"
  using assms unfolding Delegate_Inr option_config
  by (auto simp: prune_config_def option_keeps_pruner delegationConfig0_def NewDelegation_Inr)

lemma key_can_issue:
  assumes "key_of lib0 seed pub sg" "wf_did lib0 aud" "bd_ToIPLD (cp_Nb c) = Inr n"
    and "uc_fct (foldl apply_ucan_option ucanConfig0 opts) = []"
  obtains u where "ucan_Issue lib0 ucanlib0 t sg aud [c] opts = Ret (Inr u)"
    "ucan_Capabilities u = [Ucan.NewCapability (cp_Can c) (cp_With c) (GNode n)]"
    "um_Exp u = issue_exp t (foldl apply_ucan_option ucanConfig0 opts)"
    "um_Nbf u = (if uc_nbf (foldl apply_ucan_option ucanConfig0 opts) \<noteq> 0 then Some (uc_nbf (foldl apply_ucan_option ucanConfig0 opts)) else None)"
proof -
  note d = key_of_DID [OF lib0_varint_ok assms(1)]
  have "length seed = 32" "length pub = 32" using assms(1) by (auto simp: key_of_def)
  then have "\<exists>x. sg_Sign sg m = Ret x" for m using eds_sign_bytes [OF lib0_varint_ok lib0_ed25519_ok] by (simp add: d(4))
  then obtain sig where "\<And>m. sg_Sign sg m = Ret (sig m)" by metis
  moreover obtain a b where "did_String lib0 (sg_DID sg) = Ret a" "did_String lib0 aud = Ret b"
    using did_string_wf [OF lib0_varint_ok] d(2) assms(2) by metis
  ultimately obtain u where u: "ucan_Issue lib0 ucanlib0 t sg aud [c] opts = Ret (Inr u)"
    using assms(3,4) by (auto simp: ucan_Issue_def Let_def encodeSignaturePayload_def FormatSignPayload_def
        FormatHeader_def FormatPayload_def ucanlib0_def NewUCAN_def build_capability_def)
  moreover obtain ms where "emapM build_capability [c] = Inr ms" "um_Att u = ms" using u by (elim issue_inversion) auto
  from issued_capabilities [OF this] have "ucan_Capabilities u = [Ucan.NewCapability (cp_Can c) (cp_With c) (GNode n)]"
    using assms(3) by (auto simp: list_all2_Cons1 Ucan.NewCapability_def)
  ultimately show thesis by (intro that [of u]) (auto elim!: issue_inversion)
qed

text \<open>The two calls, of the key whose did:key is \<open>keydid\<close> and of another.\<close>

definition seed9 :: bytes where "seed9 = replicate 32 (CHR ''t'')"
definition pub9 :: bytes where "pub9 = replicate 32 (CHR ''q'')"

definition dlg5 :: "ucan_model \<Rightarrow> delegation" where
  "dlg5 u = dlg2 ''u'' [blk2 ''u''] u"

definition ivk5 :: "ucan_model \<Rightarrow> delegation" where
  "ivk5 v = dlg2 ''v'' [blk2 ''u'', blk2 ''v''] v"

lemma keys5:
  obtains owner holder k where "key_of lib0 (replicate 32 (CHR ''s'')) (replicate 32 (CHR ''p'')) owner"
    "sg_DID owner = keydid" "key_of lib0 seed9 pub9 holder" "wf_did lib0 (sg_DID holder)"
    "did_String lib0 (sg_DID owner) = Ret k" "k \<noteq> []"
proof -
  have "\<exists>sg. key_of lib0 seed pub sg" if "length seed = 32" "length pub = 32" for seed pub
    using that eds_did_bytes(1) [OF lib0_varint_ok that(1), of pub] by (auto simp: key_of_def eds_signer_def)
  then obtain owner holder where k: "key_of lib0 (replicate 32 (CHR ''s'')) (replicate 32 (CHR ''p'')) owner"
    "key_of lib0 seed9 pub9 holder" by (metis length_replicate seed9_def pub9_def)
  note d = key_of_DID [OF lib0_varint_ok k(1)]
  have "sg_DID owner = keydid" by (simp add: d(1) pub0_def)
  moreover obtain t where "did_String lib0 (sg_DID owner) = Ret t" using did_string_wf [OF lib0_varint_ok d(2)] by blast
  moreover from this have "t \<noteq> []" using parse_key_of(2) [OF crypto0 k(1)] by (auto simp: HasPrefix_def)
  ultimately show thesis using that k key_of_DID(2) [OF lib0_varint_ok k(2)] by blast
qed

lemma chain5:
  assumes "key_of lib0 (replicate 32 (CHR ''s'')) (replicate 32 (CHR ''p'')) owner" "sg_DID owner = keydid"
    "key_of lib0 seed9 pub9 holder" "wf_did lib0 (sg_DID holder)" "did_String lib0 (sg_DID owner) = Ret k"
  obtains u v where "u \<noteq> v"
    "Delegate lib0 (U2 u v) 990 owner (sg_DID holder) [Ucan.NewCapability ''store/*'' k NoCaveats] (map DOption (opts5 [])) =
       Ret (Inr (dlg5 u))"
    "Delegate lib0 (U2 u v) 995 holder (did0 ''s'') [Ucan.NewCapability ''store/add'' k NoCaveats]
       (map DOption (opts5 [PDelegation (dlg5 u)])) = Ret (Inr (ivk5 v))"
    "delegated lib0 (U2 u v) 1000 ''store/add'' k [ivk5 v, dlg5 u]"
    "dlg_Capabilities (ivk5 v) = [Ucan.NewCapability ''store/add'' k (GNode (NMap []))]"
    "dlg_Audience lib0 (ivk5 v) = did0 ''s''" "dlg_decode lib0 (U2 u v) (blk2 ''v'') = Inr v"
proof -
  let ?cfg = "\<lambda>prf. foldl apply_dlg_option delegationConfig0 (opts5 prf)"
  have o: "uc_fct (foldl apply_ucan_option ucanConfig0 (issue_options (?cfg ps) l)) = []"
    "issue_exp t (foldl apply_ucan_option ucanConfig0 (issue_options (?cfg ps) l)) = None"
    "uc_nbf (foldl apply_ucan_option ucanConfig0 (issue_options (?cfg ps) l)) = 0" "dc_prf (?cfg ps) = ps" for ps l t
    by (simp_all add: opts5_def issue_options_def delegationConfig0_def ucanConfig0_def issue_exp_def)
  have nb: "bd_ToIPLD (cp_Nb (Ucan.NewCapability can w NoCaveats)) = Inr (NMap [])" for can w
    by (simp add: Ucan.NewCapability_def NoCaveats_def NoCaveats_ToIPLD_def)
  let ?c = "Ucan.NewCapability ''store/*'' k NoCaveats" and ?c' = "Ucan.NewCapability ''store/add'' k NoCaveats"
  obtain u where u: "ucan_Issue lib0 ucanlib0 990 owner (sg_DID holder) [?c] (issue_options (?cfg []) []) = Ret (Inr u)"
    "um_Exp u = None" "um_Nbf u = None" "ucan_Capabilities u = [Ucan.NewCapability ''store/*'' k (GNode (NMap []))]"
    using key_can_issue [OF assms(1,4) nb o(1)] by (simp add: Ucan.NewCapability_def) (metis o(2,3))
  let ?pf = "PDelegation (dlg5 u)"
  obtain v where v: "ucan_Issue lib0 ucanlib0 995 holder (did0 ''s'') [?c']
      (issue_options (?cfg [?pf]) [blk_link (blk2 ''u'')]) = Ret (Inr v)" "um_Exp v = None" "um_Nbf v = None"
    "ucan_Capabilities v = [Ucan.NewCapability ''store/add'' k (GNode (NMap []))]"
    using key_can_issue [OF assms(3) wf_did0 nb o(1)] by (simp add: Ucan.NewCapability_def) (metis o(2,3))
  have uv: "u \<noteq> v" using u(4) v(4) by (auto simp: Ucan.NewCapability_def)
  note c = codec2 [OF uv]
  have d: "Delegate lib0 (U2 u v) 990 owner (sg_DID holder) [?c] (map DOption (opts5 [])) = Ret (Inr (dlg5 u))"
    using u(1) c(1,3) by (simp add: delegates [where links = "[]" and bs = br_empty] o(4) U2_def dlg5_def dlg2_def)
  have w: "proofs_WriteInto [?pf] br_empty = Ret ([blk_link (blk2 ''u'')], bs_Put br_empty (blk2 ''u''))"
    by (simp add: proof_Delegation_def proof_Link_def dlg5_def blocks2)
  have i: "Delegate lib0 (U2 u v) 995 holder (did0 ''s'') [?c'] (map DOption (opts5 [?pf])) = Ret (Inr (ivk5 v))"
    using v(1) c(2,4) w by (simp add: delegates [where links = "[blk_link (blk2 ''u'')]"] o(4) U2_def ivk5_def dlg2_def del: proofs_WriteInto.simps)
  have aud: "ucan_Audience lib0 u = sg_DID holder" "ucan_Audience lib0 v = did0 ''s''"
    using key_issues(2) [OF crypto0 assms(1,4) u(1)] key_issues(2) [OF crypto0 assms(3) wf_did0 v(1)] by auto
  have t: "in_time 1000 (dlg5 u)" "in_time 1000 (ivk5 v)" using u(2,3) v(2,3)
    by (simp_all add: in_time_def dlg5_def ivk5_def dlg2_def IsExpired_def IsTooEarly_def ucan_Expiration_def ucan_NotBefore_def)
  have f: "br_Get (dl_blks (dlg5 u)) (dlg_Link (ivk5 v)) = None" using link2
    by (simp add: dlg5_def ivk5_def dlg2_def dlg_Link_def store.get_put store.inv_empty store.get_empty)
  have cov: "covers ''store/add'' k ?c" "covers ''store/add'' k ?c'"
    by (simp_all add: covers_def Ucan.NewCapability_def ResolveAbility_def HasSuffix_def HasPrefix_def)
  have "delegated lib0 (U2 u v) 1000 ''store/add'' k [dlg5 u]"
    by (rule delegated.by_owner [OF assms(1,5,4) cov(1) o(4) d t(1)])
  then have "delegated lib0 (U2 u v) 1000 ''store/add'' k [ivk5 v, dlg5 u]"
    using aud(1) by (intro delegated.passed_on [OF _ assms(3) _ wf_did0 cov(2) o(4) i f t(2)]) (simp_all add: dlg_Audience_def dlg5_def dlg2_def)
  then show thesis
    using uv d i aud(2) v(4) c(4) by (intro that) (simp_all add: dlg_Capabilities_def dlg_Audience_def ivk5_def dlg2_def)
qed

lemma issue5:
  obtains r where "rcpt_Issue lib0 (se_R (env1 w)) (signer0 (did0 ''s'')) (okResult (Inr n))
    (ran_FromInvocation (Some (ivk5 v))) [] = Ret (Inr r)"
proof -
  have "bs_WriteInto (dlg_Blocks (ivk5 v)) br_empty = Ret (foldl bs_Put br_empty [blk2 ''u'', blk2 ''v''])"
    using link2 by (simp add: ivk5_def blocks2)
  moreover obtain sig where "sg_Sign (signer0 (did0 ''s'')) ''ocm'' = Ret sig" using signer0_signs by blast
  ultimately have "\<exists>r. rcpt_Issue lib0 (se_R (env1 w)) (signer0 (did0 ''s'')) (okResult (Inr n))
      (ran_FromInvocation (Some (ivk5 v))) [] = Ret (Inr r)"
    by (simp add: const_block rcpt_Issue_def NewBlockStore_def ran_WriteInto_def ran_Invocation_def ran_FromInvocation_def
        receiptConfig0_def join_WriteInto_def issue_meta_def MapResultR1_def MatchResultR2_def node_or_nil_def
        toResultModel_def MatchResultR1_def string_did0 signer0_def env1_def Let_def)
  then show thesis using that by blast
qed


end
