(* ===== verification/Serving.thy ===== *)
theory Serving
  imports Client Delegating
begin

text \<open>
  examples/retrieval: a service that serves files under content/serve, whole or a range of them, and a client
  of it. The file system, the terminal and the listener are outside; a file is its bytes, and an open one a
  position in them. Go's int is 64 bits wide: an integer is kept as its value, and arithmetic wraps.
\<close>

section \<open>Go: integers and paths\<close>

definition MaxInt64 :: int where "MaxInt64 = 2 ^ 63 - 1"

definition wrap64 :: "int \<Rightarrow> int" where
  "wrap64 i = (i + 2 ^ 63) mod 2 ^ 64 - 2 ^ 63"

definition int64 :: "int \<Rightarrow> bool" where
  "int64 i \<longleftrightarrow> - (2 ^ 63) \<le> i \<and> i \<le> MaxInt64"

lemma wrap64_id [simp]: "int64 i \<Longrightarrow> wrap64 i = i"
  by (simp add: wrap64_def int64_def MaxInt64_def)

text \<open>\<open>strconv.Atoi\<close>: an optional sign and decimal digits, in the range of an int.\<close>

definition digit_of :: "char \<Rightarrow> nat option" where
  "digit_of c = (let n = of_char c in if 48 \<le> n \<and> n \<le> 57 then Some (n - 48) else None)"

fun decimal :: "string \<Rightarrow> nat \<Rightarrow> nat option" where
  "decimal [] n = Some n"
| "decimal (c # s) n = (case digit_of c of None \<Rightarrow> None | Some d \<Rightarrow> decimal s (10 * n + d))"

definition Atoi :: "string \<Rightarrow> err + int" where
  "Atoi s =
     (let neg = HasPrefix s ''-''; ds = (if neg \<or> HasPrefix s ''+'' then drop 1 s else s)
      in if ds = [] then Inl ''invalid syntax''
         else (case decimal ds 0 of
                 None \<Rightarrow> Inl ''invalid syntax''
               | Some n \<Rightarrow> let i = (if neg then - int n else int n)
                           in if int64 i then Inr i else Inl ''value out of range''))"

text \<open>\<open>path.Clean\<close> works off the elements of a path, the last one kept first; \<open>path.Join\<close> cleans the joined elements.\<close>

definition clean_step :: "bool \<Rightarrow> string list \<Rightarrow> string \<Rightarrow> string list" where
  "clean_step slashed kept c =
     (if c = [] \<or> c = ''.'' then kept
      else if c = ''..'' then
        (case kept of
           [] \<Rightarrow> if slashed then [] else [''..'']
         | k # ks \<Rightarrow> if k = ''..'' then ''..'' # kept else ks)
      else c # kept)"

definition path_Clean :: "string \<Rightarrow> string" where
  "path_Clean p =
     (let slashed = HasPrefix p ''/''; s = Join (rev (foldl (clean_step slashed) [] (Split p (CHR ''/'')))) ''/''
      in if slashed then ''/'' @ s else if s = [] then ''.'' else s)"

definition path_Join :: "string list \<Rightarrow> string" where
  "path_Join elems =
     (let es = List.filter (\<lambda>e. e \<noteq> []) elems in if es = [] then [] else path_Clean (Join es ''/''))"

section \<open>The capability\<close>

record serve_caveats =
  sv_Digest :: bytes
  sv_Range :: "int list"

text \<open>
  \<open>ServeOk\<close> has the fields of the caveats, and a conversion between the two. The bindings of the two types at
  the schema in the sources: to a node, which may fail, and back.
\<close>

record servelib =
  vl_wrap_caveats :: "serve_caveats \<Rightarrow> err + node"
  vl_wrap_ok :: "serve_caveats \<Rightarrow> err + node"
  vl_rebind_caveats :: "node \<Rightarrow> err + serve_caveats"
  vl_rebind_ok :: "node \<Rightarrow> err + serve_caveats"

definition servelib_ok :: "servelib \<Rightarrow> bool" where
  "servelib_ok V \<longleftrightarrow>
     (\<forall>c n. vl_wrap_caveats V c = Inr n \<longrightarrow> vl_rebind_caveats V n = Inr c) \<and>
     (\<forall>c n. vl_wrap_ok V c = Inr n \<longrightarrow> vl_rebind_ok V n = Inr c)"

definition ServeCaveats_ToIPLD :: "servelib \<Rightarrow> serve_caveats \<Rightarrow> err + node" where
  "ServeCaveats_ToIPLD V sc = vl_wrap_caveats V sc"

definition ServeOk_ToIPLD :: "servelib \<Rightarrow> serve_caveats \<Rightarrow> err + node" where
  "ServeOk_ToIPLD V so = vl_wrap_ok V so"

text \<open>The caveats as a value of any type, and a value of any type as the caveats it was made of.\<close>

definition caveats_value :: "servelib \<Rightarrow> serve_caveats \<Rightarrow> gany" where
  "caveats_value V c = GBuilder ''content.ServeCaveats'' (ServeCaveats_ToIPLD V c)"

definition caveats_of :: "servelib \<Rightarrow> gany \<Rightarrow> serve_caveats comp" where
  "caveats_of V nb =
     (case nb of
        GBuilder T (Inr n) \<Rightarrow> (case vl_rebind_caveats V n of Inr c \<Rightarrow> Ret c | Inl e \<Rightarrow> Panic ''interface conversion'')
      | _ \<Rightarrow> Panic ''interface conversion'')"

definition ServeCaveatsReader :: "extlib \<Rightarrow> servelib \<Rightarrow> (gany, gany) reader" where
  "ServeCaveatsReader L V = schema_Struct L (\<lambda>n. map_sum id (caveats_value V) (vl_rebind_caveats V n)) None"

definition Serve :: "extlib \<Rightarrow> servelib \<Rightarrow> descriptor" where
  "Serve L V = NewCapabilityParser ''content/serve'' (DIDString L []) (ServeCaveatsReader L V) (Some DefaultDerives)"

section \<open>Sections of a file\<close>

text \<open>The errors \<open>io.EOF\<close> and \<open>os.ErrClosed\<close>.\<close>

definition EOF :: err where "EOF = ''EOF''"
definition ErrClosed :: err where "ErrClosed = ''file already closed''"

text \<open>
  \<open>io.SectionReader\<close>: the position and the limit, which is the largest integer when it overflows. Reading is
  cut at the limit, and is \<open>ReadAt\<close> of the file.
\<close>

record section_reader =
  sr_off :: int
  sr_limit :: int

definition NewSectionReader :: "int \<Rightarrow> int \<Rightarrow> section_reader" where
  "NewSectionReader off n =
     \<lparr> sr_off = off, sr_limit = (if off \<le> wrap64 (MaxInt64 - n) then wrap64 (n + off) else MaxInt64) \<rparr>"

definition file_ReadAt :: "bytes \<Rightarrow> bool \<Rightarrow> nat \<Rightarrow> int \<Rightarrow> bytes \<times> err option" where
  "file_ReadAt data closed k off =
     (if off < 0 then ([], Some ''negative offset'')
      else if k = 0 then ([], None)
      else if closed then ([], Some ErrClosed)
      else let b = take k (drop (nat off) data) in (b, if length b < k then Some EOF else None))"

definition section_Read :: "bytes \<Rightarrow> bool \<Rightarrow> section_reader \<Rightarrow> nat \<Rightarrow> ((bytes \<times> err option) \<times> section_reader) comp" where
  "section_Read data closed s k =
     (if sr_limit s \<le> sr_off s then Ret (([], Some EOF), s)
      else let max = wrap64 (sr_limit s - sr_off s)
           in cbind (if max < int k then (if max < 0 then Panic ''slice bounds out of range'' else Ret (nat max)) else Ret k) (\<lambda>k.
              let (b, e) = file_ReadAt data closed k (sr_off s)
              in Ret ((b, e), s\<lparr> sr_off := sr_off s + int (length b) \<rparr>)))"

text \<open>The reader that closes its file at the end: it answers with what closing returns, not with the end.\<close>

record file_section =
  fs_file :: bytes
  fs_closed :: bool
  fs_reader :: section_reader

definition newFileSectionReader :: "bytes \<Rightarrow> int \<Rightarrow> int \<Rightarrow> file_section" where
  "newFileSectionReader file off n = \<lparr> fs_file = file, fs_closed = False, fs_reader = NewSectionReader off n \<rparr>"

definition fs_Close :: "file_section \<Rightarrow> err option \<times> file_section" where
  "fs_Close f = (if fs_closed f then Some ErrClosed else None, f\<lparr> fs_closed := True \<rparr>)"

definition fs_Read :: "file_section \<Rightarrow> nat \<Rightarrow> ((bytes \<times> err option) \<times> file_section) comp" where
  "fs_Read f k =
     cmap (\<lambda>((b, e), s).
            let f = f\<lparr> fs_reader := s \<rparr>
            in if e = Some EOF then (case fs_Close f of (e, f) \<Rightarrow> ((b, e), f)) else ((b, e), f))
       (section_Read (fs_file f) (fs_closed f) (fs_reader f) k)"

text \<open>Reading all of it, as \<open>io.Copy\<close> does with a buffer of a size: the bytes, and the error that is not the end.\<close>

fun drain :: "nat \<Rightarrow> nat \<Rightarrow> file_section \<Rightarrow> stream comp" where
  "drain 0 k f = Fuel"
| "drain (Suc n) k f =
     cbind (fs_Read f k) (\<lambda>((b, e), f). case e of
       None \<Rightarrow> cmap (\<lambda>(bs, e). (b @ bs, e)) (drain n k f)
     | Some x \<Rightarrow> Ret (b, if x = EOF then None else Some x))"

text \<open>
  What a section of a file gives: the bytes of it that the file has, and then the error of closing the file
  twice, never an end. A read per byte and two more are enough.
\<close>

definition at :: "file_section \<Rightarrow> bytes \<Rightarrow> int \<Rightarrow> int \<Rightarrow> bool" where
  "at f data off limit \<longleftrightarrow>
     fs_file f = data \<and> fs_reader f = \<lparr> sr_off = off, sr_limit = limit \<rparr> \<and> 0 \<le> off \<and> off \<le> limit \<and> limit \<le> MaxInt64"

lemma errors_differ [simp]: "ErrClosed \<noteq> EOF" "EOF \<noteq> ErrClosed"
  by (simp_all add: ErrClosed_def EOF_def)

lemma drain_closed:
  assumes "at f data off limit" "fs_closed f" "0 < k"
  shows "drain (Suc n) k f = Ret ([], Some ErrClosed)"
proof -
  have "wrap64 (limit - off) = limit - off" using assms(1) by (intro wrap64_id) (auto simp: at_def int64_def)
  then show ?thesis
    using assms by (auto simp: at_def fs_Read_def section_Read_def fs_Close_def file_ReadAt_def Let_def)
qed

text \<open>One read before the limit: some bytes, and the file is closed when they are fewer than asked for.\<close>

lemma section_read_step:
  assumes "at f data off limit" "\<not> fs_closed f" "0 < k" "off \<noteq> limit"
  obtains j b where "0 < j" "int j \<le> limit - off" "b = take j (drop (nat off) data)"
    "at (f\<lparr> fs_reader := \<lparr> sr_off = off + int (length b), sr_limit = limit \<rparr> \<rparr>) data (off + int (length b)) limit"
    "fs_Read f k = Ret ((b, None), f\<lparr> fs_closed := length b < j, fs_reader := \<lparr> sr_off = off + int (length b), sr_limit = limit \<rparr> \<rparr>)"
proof -
  have m: "wrap64 (limit - off) = limit - off" using assms(1) by (intro wrap64_id) (auto simp: at_def int64_def)
  define j where "j = (if limit - off < int k then nat (limit - off) else k)"
  define b where "b = take j (drop (nat off) data)"
  have j: "0 < j" "int j \<le> limit - off" using assms(1,3,4) by (auto simp: j_def at_def)
  have "at (f\<lparr> fs_reader := \<lparr> sr_off = off + int (length b), sr_limit = limit \<rparr> \<rparr>) data (off + int (length b)) limit"
    using assms(1) j(2) by (auto simp: at_def b_def)
  moreover have "fs_Read f k = Ret ((b, None), f\<lparr> fs_closed := length b < j, fs_reader := \<lparr> sr_off = off + int (length b), sr_limit = limit \<rparr> \<rparr>)"
    using assms m by (cases f) (auto simp: at_def fs_Read_def section_Read_def fs_Close_def file_ReadAt_def Let_def b_def j_def)
  ultimately show thesis using j b_def that by blast
qed

lemma drain_section:
  assumes "at f data off limit" "\<not> fs_closed f" "0 < k" "length data \<le> nat off + n"
  shows "drain (Suc (Suc n)) k f = Ret (take (nat (limit - off)) (drop (nat off) data), Some ErrClosed)"
  using assms
proof (induction n arbitrary: f off)
  have past: "drain (Suc (Suc n)) k f = Ret (take (nat (limit - off)) (drop (nat off) data), Some ErrClosed)"
    if "at f data off limit" "\<not> fs_closed f" "off = limit" for f off n
    using that assms(3) drain_closed [of "f\<lparr> fs_closed := True \<rparr>" data off limit k n]
    by (simp add: at_def fs_Read_def section_Read_def fs_Close_def Let_def)
  have short: "drain (Suc (Suc n)) k f = Ret (take (nat (limit - off)) (drop (nat off) data), Some ErrClosed)"
    if "fs_Read f k = Ret ((b, None), g\<lparr> fs_closed := length b < j, fs_reader := r \<rparr>)" "at (g\<lparr> fs_reader := r \<rparr>) data off' limit"
      "b = take j (drop (nat off) data)" "int j \<le> limit - off" "length b < j" for f g off off' n j b r
  proof -
    have "b = take (nat (limit - off)) (drop (nat off) data)" using that(3-5) by (auto simp: min_def split: if_splits)
    moreover have "at (g\<lparr> fs_closed := length b < j, fs_reader := r \<rparr>) data off' limit" using that(2) by (simp add: at_def)
    ultimately show ?thesis using that(1,5) drain_closed [OF _ _ assms(3)] by simp
  qed
  {
    case 0
    show ?case
    proof (cases "off = limit")
      case False
      from section_read_step [OF 0(1-3) this] obtain j b where
        b: "0 < j" "int j \<le> limit - off" "b = take j (drop (nat off) data)" and
        r: "at (f\<lparr> fs_reader := \<lparr> sr_off = off + int (length b), sr_limit = limit \<rparr> \<rparr>) data (off + int (length b)) limit"
        "fs_Read f k = Ret ((b, None), f\<lparr> fs_closed := length b < j, fs_reader := \<lparr> sr_off = off + int (length b), sr_limit = limit \<rparr> \<rparr>)"
        by blast
      have "length b < j" using b(1,3) 0(4) by simp
      with short [OF r(2,1) b(3,2)] show ?thesis by simp
    qed (use past 0 in blast)
  next
    case (Suc n)
    show ?case
    proof (cases "off = limit")
      case False
      from section_read_step [OF Suc.prems(1-3) this] obtain j b where
        b: "0 < j" "int j \<le> limit - off" "b = take j (drop (nat off) data)" and
        r: "at (f\<lparr> fs_reader := \<lparr> sr_off = off + int (length b), sr_limit = limit \<rparr> \<rparr>) data (off + int (length b)) limit"
        "fs_Read f k = Ret ((b, None), f\<lparr> fs_closed := length b < j, fs_reader := \<lparr> sr_off = off + int (length b), sr_limit = limit \<rparr> \<rparr>)"
        by blast
      show ?thesis
      proof (cases "length b < j")
        case True
        with short [OF r(2,1) b(3,2), of "Suc n"] show ?thesis by simp
      next
        case full: False
        then have l: "length b = j" by (simp add: b(3))
        let ?f = "f\<lparr> fs_closed := False, fs_reader := \<lparr> sr_off = off + int j, sr_limit = limit \<rparr> \<rparr>"
        have j: "length data \<le> nat (off + int j) + n" using Suc.prems(1,4) b(1) unfolding at_def by linarith
        have "drain (Suc (Suc n)) k ?f =
            Ret (take (nat (limit - (off + int j))) (drop (nat (off + int j)) data), Some ErrClosed)"
          using Suc.prems(1,3) r(1) l j by (intro Suc.IH) (auto simp: at_def)
        moreover have "nat (limit - off) = j + nat (limit - (off + int j))" "nat (off + int j) = j + nat off"
          using b(2) Suc.prems(1) by (auto simp: at_def)
        ultimately show ?thesis using r(2) full l by (simp add: b(3) take_add)
      qed
    qed (use past Suc.prems in blast)
  }
qed

section \<open>The server\<close>

text \<open>
  What the example runs on: opening a file by its path, the size of it, \<open>multihash.Cast\<close>, \<open>url.Parse\<close>, and
  the size of the buffer a body is copied with.
\<close>

record exlib =
  xl_open :: "string \<Rightarrow> err + bytes"
  xl_stat :: "string \<Rightarrow> err + int"
  xl_cast :: "bytes \<Rightarrow> err + bytes"
  xl_url :: "string \<Rightarrow> err + string"
  xl_buffer :: nat

definition blob_path :: "string \<Rightarrow> string" where
  "blob_path url = path_Join [''.'', ''data'', url @ ''.blob'']"

text \<open>The response to a request for a range: its two elements are read without a look at their number.\<close>

definition range_response :: "exlib \<Rightarrow> bytes \<Rightarrow> int \<Rightarrow> int list \<Rightarrow> ret_response comp" where
  "range_response X file sz rng =
     (case rng of
        start # end # _ \<Rightarrow>
          let len = wrap64 (wrap64 (end - start) + 1);
              headers = hdr_Set [] ''Content-Length'' (show_int sz);
              headers = hdr_Set headers ''Content-Length'' (show_int len);
              headers = hdr_Set headers ''Content-Range''
                          (''bytes '' @ show_int start @ ''-'' @ show_int end @ ''/'' @ show_int sz)
          in cmap (\<lambda>body. \<lparr> rr_Status = 206, rr_Headers = Some headers, rr_Body = Some body \<rparr>)
               (drain (length file + 2) (xl_buffer X) (newFileSectionReader file start len))
      | _ \<Rightarrow> Panic ''index out of range'')"

definition file_response :: "exlib \<Rightarrow> bytes \<Rightarrow> int \<Rightarrow> int list \<Rightarrow> ret_response comp" where
  "file_response X file sz rng =
     (if length rng > 0 then range_response X file sz rng
      else Ret \<lparr> rr_Status = 200, rr_Headers = Some (hdr_Set [] ''Content-Length'' (show_int sz)),
                 rr_Body = Some (file, None) \<rparr>)"

text \<open>The handler: the digest of the caveats is not looked at, the file is the one the URL names.\<close>

definition serve_handler :: "servelib \<Rightarrow> exlib \<Rightarrow> 's ret_handler" where
  "serve_handler V X cap ivk ictx req =
     (case rq_URL req of
        None \<Rightarrow> slift (Panic ''nil pointer dereference'')
      | Some url \<Rightarrow>
          (case xl_open X (blob_path url) of
             Inl e \<Rightarrow> sret (Inl (plain_error e, False), no_response)
           | Inr file \<Rightarrow>
               (case xl_stat X (blob_path url) of
                  Inl e \<Rightarrow> sret (Inl (plain_error e, False), no_response)
                | Inr sz \<Rightarrow>
                    sbind (slift (caveats_of V (cp_Nb cap))) (\<lambda>nb.
                    sbind (slift (file_response X file sz (sv_Range nb))) (\<lambda>response.
                      sret (Inr (okResult (ServeOk_ToIPLD V nb), None), response))))))"

definition example_options :: "'z srvbase_scheme \<Rightarrow> servelib \<Rightarrow> exlib \<Rightarrow> 's ret_option list" where
  "example_options E V X =
     [ret_WithServiceMethod ''content/serve'' (ret_Provide E (Serve (se_L E) V) (serve_handler V X))]"

text \<open>The HTTP handler of the example: what is written for the server's answer to a request, or for its error.\<close>

record written =
  wr_status :: nat
  wr_headers :: header
  wr_body :: bytes

definition serve_HTTP :: "('s, 'c) retenv \<Rightarrow> 's ret_server \<Rightarrow> http_request \<Rightarrow> ('s, written) act" where
  "serve_HTTP R srv r =
     sbind (ret_Handle R srv r) (\<lambda>x. case x of
       Inl err \<Rightarrow>
         sret \<lparr> wr_status = 500,
                wr_headers = hdr_Set (hdr_Set [] ''Content-Type'' ''text/plain; charset=utf-8'') ''X-Content-Type-Options'' ''nosniff'',
                wr_body = ge_Error err @ [newline] \<rparr>
     | Inr resp \<Rightarrow>
         let headers = (case rs_headers resp of None \<Rightarrow> [] | Some h \<Rightarrow> addAllHeaders [] [h])
         in if rs_status resp < 100 \<or> 999 < rs_status resp then slift (Panic ''invalid WriteHeader code'')
            else (case rs_body resp of
                    None \<Rightarrow> slift (Panic ''nil pointer dereference'')
                  | Some body \<Rightarrow> sret \<lparr> wr_status = rs_status resp, wr_headers = headers, wr_body = fst body \<rparr>))"

section \<open>The client\<close>

text \<open>
  The program: its exit code and what it prints, or a panic with an error. The delegation it obtains first is
  made by the service's own key, which the fixtures hold.
\<close>

record fixtures =
  fx_Service :: signer
  fx_Alice :: signer

text \<open>\<open>panic\<close> with a wrapped error, for a step of it.\<close>

definition must :: "string \<Rightarrow> (err + 'a) comp \<Rightarrow> 'a comp" where
  "must what r = cbind r (\<lambda>x. case x of Inl e \<Rightarrow> Panic (what @ '': '' @ e) | Inr v \<Rightarrow> Ret v)"

definition client_Delegate :: "extlib \<Rightarrow> ucanlib \<Rightarrow> servelib \<Rightarrow> fixtures \<Rightarrow> int \<Rightarrow> string \<Rightarrow> (err + delegation) comp" where
  "client_Delegate L U V F now space =
     cap_Delegate L U now (Serve L V) (fx_Service F) (sg_DID (fx_Alice F)) space
       (caveats_value V \<lparr> sv_Digest = [], sv_Range = [] \<rparr>) []"

definition client_Invoke ::
    "extlib \<Rightarrow> ucanlib \<Rightarrow> servelib \<Rightarrow> fixtures \<Rightarrow> int \<Rightarrow> string \<Rightarrow> serve_caveats \<Rightarrow> delegation \<Rightarrow> (err + delegation) comp" where
  "client_Invoke L U V F now space nb dlg =
     cap_Invoke L U now (Serve L V) (fx_Alice F) (sg_DID (fx_Service F)) space (caveats_value V nb)
       [DOption (DWithProof [PDelegation dlg])]"

text \<open>The digest and the URL of the first argument, and the range of two more, when there are exactly two more.\<close>

definition client_target :: "extlib \<Rightarrow> exlib \<Rightarrow> string \<Rightarrow> (bytes \<times> string) comp" where
  "client_target L X digestStr =
     cbind (must ''decoding multibase string'' (Ret (mb_decode L digestStr))) (\<lambda>(code, digestBytes).
     cbind (must ''decoding digest'' (Ret (xl_cast X digestBytes))) (\<lambda>digest.
     cbind (must ''parsing retrieval URL'' (Ret (xl_url X (''http://localhost:3000/'' @ digestStr)))) (\<lambda>url.
       Ret (digest, url))))"

definition client_range :: "string list \<Rightarrow> int list comp" where
  "client_range args =
     (if length args = 4 then
        cbind (must ''parsing byte range start value'' (Ret (Atoi (args ! 2)))) (\<lambda>start.
        cbind (must ''parsing byte range end value'' (Ret (Atoi (args ! 3)))) (\<lambda>end.
          Ret [start, end]))
      else Ret [])"

text \<open>What is made of the answer: the result of the receipt has to bind to \<open>ServeOk\<close>, and the body is printed.\<close>

definition client_output ::
    "extlib \<Rightarrow> rcptlib \<Rightarrow> servelib \<Rightarrow> link \<Rightarrow> message \<Rightarrow> http_response \<Rightarrow> string comp" where
  "client_output L R V l xres hres =
     (case msg_Get xres l of
        None \<Rightarrow> Panic ''receipt for invocation not found''
      | Some None \<Rightarrow> Panic ''nil pointer dereference''
      | Some (Some rcptLink) \<Rightarrow>
          cbind (must ''creating block reader'' (Ret (NewBlockReader [] (msg_Blocks xres)))) (\<lambda>bs.
          cbind (must ''creating receipt'' (Ret (NewAnyReceipt L R rcptLink bs False))) (\<lambda>rcpt.
          cbind (rcpt_Out rcpt) (\<lambda>out.
          cbind (res_Unwrap GNil GNil out) (\<lambda>(ok, x).
            if x \<noteq> GNil then Panic ''invocation failed: ''
            else cbind (must ''decoding response''
                          (Ret (case ok of GNode n \<Rightarrow> vl_rebind_ok V n | _ \<Rightarrow> Inl ''unknown panic rebinding node''))) (\<lambda>_.
                 case rs_body hres of
                   None \<Rightarrow> Panic ''nil pointer dereference''
                 | Some body \<Rightarrow>
                     cmap (\<lambda>b. b @ [newline]) (must ''printing body to stdout'' (Ret (read_all body)))))))))"

definition client_main ::
    "nat \<Rightarrow> nat \<Rightarrow> 's clienv \<Rightarrow> carlib \<Rightarrow> hcarlib \<Rightarrow> 's http_env \<Rightarrow> rcptlib \<Rightarrow> servelib \<Rightarrow> exlib \<Rightarrow> fixtures \<Rightarrow>
     int \<Rightarrow> string list \<Rightarrow> ('s, nat \<times> string) act" where
  "client_main n k Y K H N R V X F now args =
     (let L = ce_L Y; U = ce_U Y
      in sbind (slift (did_String L (sg_DID (fx_Service F)))) (\<lambda>space.
         sbind (slift (must ''delegating'' (client_Delegate L U V F now space))) (\<lambda>dlg.
           if length args < 2 then sret (1, ''missing hash argument'' @ [newline])
           else
             sbind (slift (client_target L X (args ! 1))) (\<lambda>(digest, url).
             let conn = ret_NewConnection L K H (ce_C Y) N (sg_DID (fx_Service F)) url []
             in sbind (slift (client_range args)) (\<lambda>byteRange.
                sbind (slift (must ''creating invocation''
                         (client_Invoke L U V F now space \<lparr> sv_Digest = digest, sv_Range = byteRange \<rparr> dlg))) (\<lambda>inv.
                sbind (ret_client_Execute n k Y inv conn) (\<lambda>r. case r of
                  Inl e \<Rightarrow> slift (Panic (''executing invocation: '' @ e))
                | Inr (xres, hres) \<Rightarrow>
                    sbind (slift (client_output L R V (dlg_Link inv) xres hres)) (\<lambda>printed. sret (0, printed)))))))))"

section \<open>The service the example makes\<close>

lemma serve_reads:
  assumes "crypto_ok L" "servelib_ok V" "wf_did L d" "did_String L d = Ret w" "vl_wrap_caveats V c = Inr n"
  shows "reads (Serve L V) ''content/serve'' w (GNode n) (caveats_value V c)"
proof -
  have "did_Parse L w = Inr d" using parse_of_string [of L d] assms(1,3,4) by (auto simp: crypto_ok_def)
  moreover from this have "HasPrefix w ''did:''" by (auto simp: did_Parse_def Prefix_def split: if_splits)
  moreover from this have "w \<noteq> []" by (auto simp: HasPrefix_def)
  moreover have "vl_rebind_caveats V n = Inr c" using assms(2,5) by (simp add: servelib_ok_def)
  ultimately show ?thesis
    using assms(4,5) by (simp add: reads_def Serve_def NewCapabilityParser_def DIDString_def schema_DID_def did_reader_prefix_def
        ServeCaveatsReader_def schema_Struct_def any_node_def caveats_value_def ServeCaveats_ToIPLD_def)
qed

lemma example_server:
  assumes "ret_NewServer R ident (example_options (re_E R) V X) = Inr (srv, dc)"
  defines "ctx \<equiv> sv_context (rv_server srv)"
  shows "rv_service srv ''content/serve'' = Some (ret_method_of (ret_Provide (re_E R) (Serve (re_L R) V) (serve_handler V X)))"
    "default_checks (se_V (re_E R)) (se_now (re_E R)) (fst (provider_context ctx desc))"
    "cc_parsePrincipal (fst (provider_context ctx desc)) = srv_ParsePrincipal (re_L R)"
    "cx_id ctx = ident" "cx_altAudiences ctx = []" "sv_id (rv_server srv) = ident"
    "srv_LogReceipt (rv_server srv) r i = sret None"
  using assms(1)
  by (auto simp: ctx_def ret_NewServer_def example_options_def ret_WithServiceMethod_def ret_config0_def wrapped_options_def
      option_to_list_def NewServer_def WithInboundCodec_def srvConfig0_def or_default_def Let_def srv_LogReceipt_def
      default_checks_def provider_context_def NewValidationContext_def NewClaimContext_def case_sum_eq)

text \<open>Two calls of the client are a chain of delegations, valid for 30 seconds.\<close>

lemma client_chain:
  assumes "crypto_ok L" "codec_ok (ul_cbor U)" "key_of L seed pub (fx_Service F)" "key_of L seed' pub' (fx_Alice F)"
    and "did_String L (sg_DID (fx_Service F)) = Ret space" "client_Delegate L U V F t space = Ret (Inr dlg)"
    and "client_Invoke L U V F t space nb dlg = Ret (Inr made)" "br_Get (dl_blks dlg) (dlg_Link made) = None" "now < t + 30"
  shows "delegated L U now ''content/serve'' space [made, dlg]" "dlg_Audience L made = sg_DID (fx_Service F)"
    "\<exists>n. vl_wrap_caveats V nb = Inr n \<and> dlg_Capabilities made = [Ucan.NewCapability ''content/serve'' space (GNode n)]"
proof -
  have L: "varint_ok L" using assms(1) by (simp add: crypto_ok_def)
  define cap where "cap = (\<lambda>c. Ucan.NewCapability ''content/serve'' space (Builder ''content.ServeCaveats'' (vl_wrap_caveats V c)))"
  note wf = key_of_DID(2) [OF L]
  have d: "Delegate L U t (fx_Service F) (sg_DID (fx_Alice F)) [cap \<lparr> sv_Digest = [], sv_Range = [] \<rparr>] (map DOption []) = Ret (Inr dlg)"
    using assms(6) by (simp add: client_Delegate_def cap_Delegate_def caveats_value_def caveat_builder_def Serve_def
        NewCapabilityParser_def ServeCaveats_ToIPLD_def cap_def)
  have i: "Delegate L U t (fx_Alice F) (sg_DID (fx_Service F)) [cap nb] (map DOption [DWithProof [PDelegation dlg]]) = Ret (Inr made)"
    using assms(7) by (simp add: client_Invoke_def cap_Invoke_def Invoke_def caveats_value_def caveat_builder_def Serve_def
        NewCapabilityParser_def ServeCaveats_ToIPLD_def cap_def)
  have cov: "covers ''content/serve'' space (cap c)" for c by (simp add: covers_def cap_def Ucan.NewCapability_def ResolveAbility_def)
  have t: "in_time now dlg" "in_time now made"
    using default_window [OF assms(2) d assms(9)] default_window [OF assms(2) i assms(9)] by (simp_all add: delegationConfig0_def)
  have one: "delegated L U now ''content/serve'' space [dlg]"
    by (rule delegated.by_owner [OF assms(3,5) wf [OF assms(4)] cov _ d t(1)]) (simp add: delegationConfig0_def)
  obtain o1 o2 where u: "ucan_Issue L U t (fx_Service F) (sg_DID (fx_Alice F)) [cap \<lparr> sv_Digest = [], sv_Range = [] \<rparr>] o1 = Ret (Inr (dl_ucan dlg))"
    "ucan_Issue L U t (fx_Alice F) (sg_DID (fx_Service F)) [cap nb] o2 = Ret (Inr (dl_ucan made))"
    using delegated_parts [OF assms(2) d refl] delegated_parts [OF assms(2) i refl] by metis
  have "dlg_Audience L dlg = sg_DID (fx_Alice F)"
    using key_issues(2) [OF assms(1,3) wf [OF assms(4)] u(1)] by (simp add: dlg_Audience_def)
  then show "delegated L U now ''content/serve'' space [made, dlg]"
    by (intro delegated.passed_on [OF one assms(4) _ wf [OF assms(3)] cov _ i assms(8) t(2)]) (simp_all add: delegationConfig0_def)
  show "dlg_Audience L made = sg_DID (fx_Service F)"
    using key_issues(2) [OF assms(1,4) wf [OF assms(3)] u(2)] by (simp add: dlg_Audience_def)
  obtain ms where "emapM build_capability [cap nb] = Inr ms" "um_Att (dl_ucan made) = ms" using u(2) by (elim issue_inversion) auto
  from issued_capabilities [OF this]
  show "\<exists>n. vl_wrap_caveats V nb = Inr n \<and> dlg_Capabilities made = [Ucan.NewCapability ''content/serve'' space (GNode n)]"
    by (auto simp: list_all2_Cons1 cap_def Ucan.NewCapability_def dlg_Capabilities_def)
qed

text \<open>The response to a range that is in the file.\<close>

definition partial_response :: "bytes \<Rightarrow> int \<Rightarrow> int \<Rightarrow> ret_response" where
  "partial_response file lo hi =
     \<lparr> rr_Status = 206,
       rr_Headers = Some [(''Content-Length'', [show_int (hi - lo + 1)]),
         (''Content-Range'', [''bytes '' @ show_int lo @ ''-'' @ show_int hi @ ''/'' @ show_int (int (length file))])],
       rr_Body = Some (take (nat (hi - lo + 1)) (drop (nat lo) file), Some ErrClosed) \<rparr>"

lemma content_headers [simp]:
  "CanonicalHeaderKey ''Content-Length'' = ''Content-Length''" "CanonicalHeaderKey ''Content-Range'' = ''Content-Range''"
  by (simp_all add: CanonicalHeaderKey_def token_char_def to_upper_def to_lower_def Let_def)

lemma file_range:
  assumes "0 < xl_buffer X" "0 \<le> lo" "lo \<le> hi" "hi < int (length file)" "int64 (int (length file))"
  shows "file_response X file (int (length file)) [lo, hi] = Ret (partial_response file lo hi)"
proof -
  have w: "int64 (hi - lo)" "int64 (hi - lo + 1)" "int64 (MaxInt64 - (hi - lo + 1))" "int64 (hi + 1)"
    using assms(2-5) by (auto simp: int64_def MaxInt64_def)
  have "NewSectionReader lo (hi - lo + 1) = \<lparr> sr_off = lo, sr_limit = hi + 1 \<rparr>"
    using w assms(2-5) by (simp add: NewSectionReader_def int64_def)
  then have "at (newFileSectionReader file lo (hi - lo + 1)) file lo (hi + 1)"
    using assms(2-5) by (simp add: at_def newFileSectionReader_def int64_def)
  then have "drain (length file + 2) (xl_buffer X) (newFileSectionReader file lo (hi - lo + 1)) =
      Ret (take (nat (hi + 1 - lo)) (drop (nat lo) file), Some ErrClosed)"
    using drain_section [where data = "file" and limit = "hi + 1"] assms(1) by (simp add: newFileSectionReader_def)
  then show ?thesis
    using w by (simp add: file_response_def range_response_def Let_def partial_response_def hdr_Set_def algebra_simps)
qed

text \<open>What a handler is called with, and what its provider answers, for the client's invocation.\<close>

lemma example_provides:
  assumes "crypto_ok (re_L R)" "codec_ok (ul_cbor (re_U R))" "order_ok (se_V (re_E R))" "servelib_ok V"
    and "key_of (re_L R) seed pub (fx_Service F)" "key_of (re_L R) seed' pub' (fx_Alice F)" "ps_signer ident = fx_Service F"
    and "did_String (re_L R) (sg_DID (fx_Service F)) = Ret space"
    and "client_Delegate (re_L R) (re_U R) V F t space = Ret (Inr dlg)"
    and "client_Invoke (re_L R) (re_U R) V F t space nb dlg = Ret (Inr made)"
    and "br_Get (dl_blks dlg) (dlg_Link made) = None" "se_now (re_E R) < t + 30" "2 \<le> se_fuel (re_E R)"
    and "ret_NewServer R ident (example_options (re_E R) V X) = Inr (srv, dc)"
    and "has_blocks bs made" "NewInvocationView (re_L R) (re_U R) (dlg_Link made) bs = Inr ivk"
    and "h (Ucan.NewCapability ''content/serve'' space (caveats_value V nb)) ivk (sv_context (rv_server srv)) req s =
           Ret ((Inr (res, fx), resp), s')" "res \<noteq> nilResult"
  shows "ret_Provide (re_E R) (Serve (re_L R) V) h ivk (sv_context (rv_server srv)) req s =
           Ret ((Inr (Some (NewTransaction res [TxEffects fx])), resp), s')"
    "\<exists>n. dlg_Capabilities ivk = [Ucan.NewCapability ''content/serve'' space (GNode n)]"
proof -
  let ?L = "re_L R" and ?U = "re_U R" and ?desc = "Serve (re_L R) V" and ?ctx = "sv_context (rv_server srv)"
  note c = client_chain [OF assms(1,2,5,6,8,9,10,11,12)]
  note D = example_server [OF assms(14)]
  obtain n where n: "vl_wrap_caveats V nb = Inr n" "dlg_Capabilities made = [Ucan.NewCapability ''content/serve'' space (GNode n)]"
    using c(3) by blast
  have chain: "honest_chain (se_V (re_E R)) (fst (provider_context ?ctx ?desc)) (se_now (re_E R)) bs ''content/serve'' space (held [made, dlg])"
    by (rule delegated_honest [OF assms(1,2) c(1) assms(15) D(3)])
  then obtain b where "br_Get bs (dlg_Link made) = Some b" "dlg_decode ?L ?U b = Inr (dl_ucan made)"
    by (auto simp: honest_chain_def held_def)
  then have u: "dl_ucan ivk = dl_ucan made" using assms(16) by (simp add: NewInvocationView_def NewDelegationView_Inr)
  then show "\<exists>n. dlg_Capabilities ivk = [Ucan.NewCapability ''content/serve'' space (GNode n)]" using n(2) by (auto simp: dlg_Capabilities_def)
  let ?h = "\<lambda>cap ivk ictx (s, _). cmap (\<lambda>((r, res), s'). (r, (s', res))) (h cap ivk ictx req s)"
  have wf: "wf_did ?L (sg_DID (fx_Service F))" using key_of_DID(2) [OF _ assms(5)] assms(1) by (simp add: crypto_ok_def)
  have "Provide (re_E R) ?desc ?h ivk ?ctx (s, no_response) = Ret (Inr (Some (NewTransaction res [TxEffects fx])), (s', resp))"
    using chain assms(13,15,17) n(2) u c(2)
    by (intro honest_provided [OF assms(3) D(2,5) serve_reads [OF assms(1,4) wf assms(8) n(1)] _ _ _ _ assms(16) _ _ _ assms(18),
          where u = "dl_ucan made" and us = "held [dlg]" and own = space])
       (auto simp: has_blocks_def held_def dlg_Capabilities_def dlg_Audience_def D(4) ps_DID_def assms(7,8))
  then show "ret_Provide (re_E R) ?desc h ivk ?ctx req s = Ret ((Inr (Some (NewTransaction res [TxEffects fx])), resp), s')"
    by (simp add: ret_Provide_def)
qed


section \<open>What a client can ask for beyond it\<close>

text \<open>
  A range of one element makes the handler panic. One that ends before it starts, by two or more, is served
  from its start to the end of the file: the negative length overflows the limit of the section.
\<close>

lemma odd_ranges:
  "file_response X file n [lo] = Panic ''index out of range''"
  "0 < xl_buffer X \<Longrightarrow> 0 \<le> hi \<Longrightarrow> hi + 1 < lo \<Longrightarrow> lo \<le> int (length file) \<Longrightarrow> int64 (int (length file)) \<Longrightarrow>
     \<exists>h. file_response X file n [lo, hi] =
           Ret \<lparr> rr_Status = 206, rr_Headers = Some h, rr_Body = Some (drop (nat lo) file, Some ErrClosed) \<rparr>"
proof -
  show "file_response X file n [lo] = Panic ''index out of range''" by (simp add: file_response_def range_response_def)
  assume a: "0 < xl_buffer X" "0 \<le> hi" "hi + 1 < lo" "lo \<le> int (length file)" "int64 (int (length file))"
  then have w: "int64 (hi - lo)" "int64 (hi - lo + 1)" by (auto simp: int64_def MaxInt64_def)
  have "wrap64 (MaxInt64 - (hi - lo + 1)) = - (2 ^ 63) + (lo - hi - 2)"
  proof -
    have "MaxInt64 - (hi - lo + 1) + 2 ^ 63 = (lo - hi - 2) + 2 ^ 64" by (simp add: MaxInt64_def)
    then have "(MaxInt64 - (hi - lo + 1) + 2 ^ 63) mod 2 ^ 64 = (lo - hi - 2) mod 2 ^ 64" by (simp only: mod_add_self2)
    moreover have "(lo - hi - 2) mod 2 ^ 64 = lo - hi - 2"
      using a(2-5) by (intro mod_pos_pos_trivial) (auto simp: int64_def MaxInt64_def)
    ultimately show ?thesis unfolding wrap64_def by simp
  qed
  then have "NewSectionReader lo (hi - lo + 1) = \<lparr> sr_off = lo, sr_limit = MaxInt64 \<rparr>"
    using a by (simp add: NewSectionReader_def MaxInt64_def int64_def)
  then have "at (newFileSectionReader file lo (hi - lo + 1)) file lo MaxInt64"
    using a by (simp add: at_def newFileSectionReader_def int64_def)
  then have "drain (length file + 2) (xl_buffer X) (newFileSectionReader file lo (hi - lo + 1)) =
      Ret (take (nat (MaxInt64 - lo)) (drop (nat lo) file), Some ErrClosed)"
    using drain_section [where data = "file" and limit = MaxInt64] a(1) by (simp add: newFileSectionReader_def)
  moreover have "take (nat (MaxInt64 - lo)) (drop (nat lo) file) = drop (nat lo) file" using a(2,3,5) by (simp add: int64_def)
  ultimately show "\<exists>h. file_response X file n [lo, hi] =
           Ret \<lparr> rr_Status = 206, rr_Headers = Some h, rr_Body = Some (drop (nat lo) file, Some ErrClosed) \<rparr>"
    using w by (simp add: file_response_def range_response_def Let_def)
qed

text \<open>
  The path is made of the whole text of the URL, its query too, so a query leads out of the directory of the data.
\<close>

lemma query_escapes: "blob_path ''/zQm?x=/../../../secret'' = ''../secret.blob''"
  by (simp add: blob_path_def path_Join_def path_Clean_def clean_step_def HasPrefix_def Let_def)

section \<open>A file and its request, for the witness\<close>

definition servelib0 :: servelib where
  "servelib0 =
     (let wrap = \<lambda>c. Inr (NMap [(''digest'', NBytes (sv_Digest c)), (''range'', NList (map NInt (sv_Range c)))]);
          rebind = \<lambda>n. (case n of
            NMap [(_, NBytes d), (_, NList r)] \<Rightarrow> Inr \<lparr> sv_Digest = d, sv_Range = map (\<lambda>x. case x of NInt i \<Rightarrow> i | _ \<Rightarrow> 0) r \<rparr>
          | _ \<Rightarrow> Inl ''unsupported'')
      in \<lparr> vl_wrap_caveats = wrap, vl_wrap_ok = wrap, vl_rebind_caveats = rebind, vl_rebind_ok = rebind \<rparr>)"

definition exlib0 :: exlib where
  "exlib0 = \<lparr> xl_open = (\<lambda>p. if p = ''data/zQm.blob'' then Inr ''hello world'' else Inl ''no such file''),
              xl_stat = (\<lambda>p. Inr 11), xl_cast = (\<lambda>b. Inr b), xl_url = (\<lambda>u. Inr u), xl_buffer = 4 \<rparr>"

definition retenv9 :: "ucan_model \<Rightarrow> ucan_model \<Rightarrow> (lru0 \<times> nat, lru0) retenv" where
  "retenv9 u v = (let R = retenv0 v in R\<lparr> re_E := (re_E R)\<lparr> se_V := \<lparr> ve_L = lib0, ve_U = U2 u v, ve_order = rev \<rparr>, se_fuel := 2 \<rparr> \<rparr>)"

definition signer9 :: principal_signer where
  "signer9 = \<lparr> ps_signer = signer0 keydid, ps_verifier = verifier0 keydid \<rparr>"

lemma servelib0_ok: "servelib_ok servelib0"
  by (simp add: servelib_ok_def servelib0_def Let_def comp_def)

lemma path0: "blob_path ''/zQm'' = ''data/zQm.blob''"
  by (simp add: blob_path_def path_Join_def path_Clean_def clean_step_def HasPrefix_def Let_def)

abbreviation nb9 :: serve_caveats where "nb9 \<equiv> \<lparr> sv_Digest = ''zQm'', sv_Range = [0, 4] \<rparr>"

lemma owner_key: "key_of lib0 (replicate 32 (CHR ''s'')) (replicate 32 (CHR ''p'')) (signer0 keydid)"
  using signer0_eds by (simp add: key_of_def key0_def)

lemma client9:
  obtains F k u v where "fx_Service F = signer0 keydid" "key_of lib0 seed9 pub9 (fx_Alice F)"
    "did_String lib0 keydid = Ret k" "u \<noteq> v"
    "client_Delegate lib0 (U2 u v) servelib0 F 990 k = Ret (Inr (dlg5 u))"
    "client_Invoke lib0 (U2 u v) servelib0 F 990 k nb9 (dlg5 u) = Ret (Inr (ivk5 v))"
proof -
  obtain owner alice k where key: "key_of lib0 (replicate 32 (CHR ''s'')) (replicate 32 (CHR ''p'')) owner"
    "sg_DID owner = keydid" "key_of lib0 seed9 pub9 alice" "wf_did lib0 (sg_DID alice)" "did_String lib0 (sg_DID owner) = Ret k"
    "k \<noteq> []" by (rule keys5)
  have o: "owner = signer0 keydid" using key(1) owner_key by (simp add: key_of_def)
  define F where "F = \<lparr> fx_Service = signer0 keydid, fx_Alice = alice \<rparr>"
  let ?cap = "\<lambda>c. Ucan.NewCapability ''content/serve'' k (Builder ''content.ServeCaveats'' (ServeCaveats_ToIPLD servelib0 c))"
  let ?cfg = "\<lambda>os. foldl apply_dlg_option delegationConfig0 os"
  let ?e = "\<lparr> sv_Digest = [], sv_Range = [] \<rparr>"
  obtain n where nb: "\<And>c. bd_ToIPLD (cp_Nb (?cap c)) = Inr (n c)"
    by (auto simp: Ucan.NewCapability_def ServeCaveats_ToIPLD_def servelib0_def Let_def)
  have fct: "uc_fct (foldl apply_ucan_option ucanConfig0 (issue_options (?cfg os) l)) = []" if "os = [] \<or> os = [DWithProof ps]" for os ps l
    using that by (auto simp: issue_options_def delegationConfig0_def ucanConfig0_def)
  obtain u where u: "ucan_Issue lib0 ucanlib0 990 owner (sg_DID alice) [?cap ?e] (issue_options (?cfg []) []) = Ret (Inr u)"
    using key_can_issue [OF key(1,4) nb fct] by blast
  let ?os = "[DWithProof [PDelegation (dlg5 u)]]"
  obtain v where v: "ucan_Issue lib0 ucanlib0 990 alice keydid [?cap nb9] (issue_options (?cfg ?os) [blk_link (blk2 ''u'')]) = Ret (Inr v)"
    using key_can_issue [OF key(3) wf_keydid nb fct] by blast
  have "um_Prf u = []" "um_Prf v = [blk_link (blk2 ''u'')]" using issued_proofs [OF u] issued_proofs [OF v] by simp_all
  then have uv: "u \<noteq> v" by auto
  note c = codec2 [OF uv]
  have "Delegate lib0 (U2 u v) 990 owner (sg_DID alice) [?cap ?e] (map DOption []) = Ret (Inr (dlg5 u))"
    using u c(1,3) by (subst delegates [where links = "[]" and bs = br_empty])
      (simp_all add: U2_def dlg5_def dlg2_def delegationConfig0_def)
  moreover have w: "proofs_WriteInto [PDelegation (dlg5 u)] br_empty = Ret ([blk_link (blk2 ''u'')], bs_Put br_empty (blk2 ''u''))"
    by (simp add: proof_Delegation_def proof_Link_def dlg5_def blocks2)
  have "Delegate lib0 (U2 u v) 990 alice keydid [?cap nb9] (map DOption ?os) = Ret (Inr (ivk5 v))"
    using v c(2,4) w by (subst delegates [where links = "[blk_link (blk2 ''u'')]"])
      (simp_all add: U2_def ivk5_def dlg2_def delegationConfig0_def del: proofs_WriteInto.simps)
  ultimately show thesis
    using key(2,3,5) uv by (intro that [of F k u v])
      (simp_all add: F_def o client_Delegate_def client_Invoke_def cap_Delegate_def cap_Invoke_def Invoke_def caveats_value_def
        caveat_builder_def Serve_def NewCapabilityParser_def)
qed

lemma issue9:
  obtains r where "rcpt_Issue lib0 (se_R (env1 w)) (signer0 keydid) (okResult (Inr n)) (ran_FromLink (Some l)) [] = Ret (Inr r)"
proof -
  obtain sig where "sg_Sign (signer0 keydid) ''ocm'' = Ret sig" using signer0_signs by blast
  moreover obtain k where "did_String lib0 keydid = Ret k" using did_string_wf [OF lib0_varint_ok wf_keydid] by blast
  ultimately have "\<exists>r. rcpt_Issue lib0 (se_R (env1 w)) (signer0 keydid) (okResult (Inr n)) (ran_FromLink (Some l)) [] = Ret (Inr r)"
    by (simp add: const_block rcpt_Issue_def NewBlockStore_def ran_WriteInto_def ran_Invocation_def ran_FromLink_def ran_Link_def
        receiptConfig0_def join_WriteInto_def issue_meta_def MapResultR1_def MatchResultR2_def node_or_nil_def
        toResultModel_def MatchResultR1_def signer0_def env1_def Let_def)
  then show thesis using that by blast
qed


end
