(* ===== verification/Codec.thy ===== *)
theory Codec
  imports Blockstore
begin

text \<open>
  core/ipld/codec, core/ipld and core/schema/options: the functions that call go-ipld-prime and turn its panics
  into errors, the two codecs made of them, and the converters between the Go value of a type and its
  representation. The library's functions are parameters; where one may panic its result is a \<open>call\<close>.
  The codecs here are the ones the theories after Blockstore have as a parameter of type \<open>codec\<close>.
\<close>

section \<open>Recovering from a panic\<close>

text \<open>What a panic carries: a string, an error, or another value, with the text it prints to.\<close>

datatype panic_value = PanicString string | PanicError err | PanicOther string

datatype 'a call = Returns "err + 'a" | Panics panic_value

definition recovered :: "(string \<Rightarrow> err) \<Rightarrow> 'a call \<Rightarrow> err + 'a" where
  "recovered unknown c =
     (case c of
        Returns r \<Rightarrow> r
      | Panics p \<Rightarrow> Inl (case p of PanicString s \<Rightarrow> s | PanicError e \<Rightarrow> e | PanicOther t \<Rightarrow> unknown t))"

definition cbor_Encode :: "('v \<Rightarrow> bytes call) \<Rightarrow> 'v \<Rightarrow> err + bytes" where
  "cbor_Encode marshal v = recovered (\<lambda>t. ''unknown panic encoding CBOR: '' @ t) (marshal v)"

definition json_Encode :: "('v \<Rightarrow> bytes call) \<Rightarrow> 'v \<Rightarrow> err + bytes" where
  "json_Encode marshal v = recovered (\<lambda>t. ''unknown panic encoding JSON: '' @ t) (marshal v)"

text \<open>Decoding does not recover: its result is the library's, be it an error, a value or a panic.\<close>

definition cbor_Decode :: "(bytes \<Rightarrow> 'r) \<Rightarrow> bytes \<Rightarrow> 'r" where
  "cbor_Decode unmarshal b = unmarshal b"

definition json_Decode :: "(bytes \<Rightarrow> 'r) \<Rightarrow> bytes \<Rightarrow> 'r" where
  "json_Decode unmarshal b = unmarshal b"

definition WrapWithRecovery :: "('v \<Rightarrow> 'n call) \<Rightarrow> 'v \<Rightarrow> err + 'n" where
  "WrapWithRecovery wrap v = recovered (\<lambda>_. ''unknown panic building node'') (wrap v)"

text \<open>
  \<open>Rebind\<close>: a typed node is replaced by its representation; the node is assigned to a builder of the type's
  representation, and what is built is unwrapped to the Go value, which panics when it has another type.
\<close>

definition Rebind :: "('n \<Rightarrow> 'n option) \<Rightarrow> ('n \<Rightarrow> 'b call) \<Rightarrow> ('b \<Rightarrow> 'v call) \<Rightarrow> 'n \<Rightarrow> err + 'v" where
  "Rebind representation assign unwrap nd =
     recovered (\<lambda>_. ''unknown panic rebinding node'')
       (let nd = (case representation nd of Some rep \<Rightarrow> rep | None \<Rightarrow> nd)
        in case assign nd of
             Returns (Inl e) \<Rightarrow> Returns (Inl e)
           | Returns (Inr rnd) \<Rightarrow> unwrap rnd
           | Panics p \<Rightarrow> Panics p)"

lemma recovered_Inr [simp]: "recovered unknown c = Inr v \<longleftrightarrow> c = Returns (Inr v)"
  by (auto simp: recovered_def split: call.splits panic_value.splits)

lemma Rebind_Inr:
  "Rebind representation assign unwrap nd = Inr v \<longleftrightarrow>
     (\<exists>rnd. assign (case representation nd of Some rep \<Rightarrow> rep | None \<Rightarrow> nd) = Returns (Inr rnd) \<and> unwrap rnd = Returns (Inr v))"
  by (auto simp: Rebind_def Let_def split: call.splits sum.splits)

section \<open>The codecs\<close>

definition cbor_Code :: nat where "cbor_Code = 0x71"
definition json_Code :: nat where "json_Code = 0x0129"

text \<open>The codec at a type, of a library that returns from decoding.\<close>

definition cbor_codec :: "('v \<Rightarrow> bytes call) \<Rightarrow> (bytes \<Rightarrow> err + 'v) \<Rightarrow> 'v codec" where
  "cbor_codec marshal unmarshal =
     \<lparr> cd_Code = cbor_Code, cd_Encode = cbor_Encode marshal, cd_Decode = cbor_Decode unmarshal \<rparr>"

definition json_codec :: "('v \<Rightarrow> bytes call) \<Rightarrow> (bytes \<Rightarrow> err + 'v) \<Rightarrow> 'v codec" where
  "json_codec marshal unmarshal =
     \<lparr> cd_Code = json_Code, cd_Encode = json_Encode marshal, cd_Decode = json_Decode unmarshal \<rparr>"

text \<open>
  Where the library reads back what it writes, both codecs keep the law the other theories rely on, and a
  block encoded with one decodes with it: panics in encoding have become errors.
\<close>

lemma codecs_ok:
  assumes "\<And>v b. marshal v = Returns (Inr b) \<Longrightarrow> unmarshal b = Inr v"
  shows "codec_ok (cbor_codec marshal unmarshal)" "codec_ok (json_codec marshal unmarshal)"
  using assms by (simp_all add: codec_ok_def cbor_codec_def json_codec_def cbor_Encode_def json_Encode_def
      cbor_Decode_def json_Decode_def)

lemma cbor_block_roundtrip:
  assumes "\<And>v b. marshal v = Returns (Inr b) \<Longrightarrow> unmarshal b = Inr v"
    and "block_Encode L (cbor_codec marshal unmarshal) v = Inr blk"
  shows "block_Decode L (cbor_codec marshal unmarshal) blk = Inr v \<and> unmarshal (blk_bytes blk) = Inr v"
  using block_codec_roundtrip [OF codecs_ok(1) [OF assms(1)] assms(2)] assms
  by (auto simp: block_Encode_Inr cbor_codec_def cbor_Encode_def)

section \<open>Converters\<close>

text \<open>
  The value a converter is given is an interface: a pointer to a value of the type, the nil pointer, or a
  value of another type, on which the type assertion panics.
\<close>

datatype 'a pointer = Ptr 'a | NilPtr | OtherType

record ('r, 't) converter =
  cv_type :: string
  cv_from :: "'r \<Rightarrow> err + 't pointer"
  cv_to :: "'t pointer \<Rightarrow> (err + 'r) comp"

definition named_converter :: "'r \<Rightarrow> string \<Rightarrow> ('r \<Rightarrow> err + 't) \<Rightarrow> ('t \<Rightarrow> err + 'r) \<Rightarrow> ('r, 't) converter" where
  "named_converter zero typeName from to =
     \<lparr> cv_type = typeName,
       cv_from = (\<lambda>r. case from r of Inl e \<Rightarrow> Inl e | Inr t \<Rightarrow> Inr (Ptr t)),
       cv_to = (\<lambda>p. case p of Ptr t \<Rightarrow> Ret (to t) | NilPtr \<Rightarrow> Ret (Inr zero) | OtherType \<Rightarrow> Panic ''interface conversion'') \<rparr>"

definition NamedBoolConverter :: "string \<Rightarrow> (bool \<Rightarrow> err + 't) \<Rightarrow> ('t \<Rightarrow> err + bool) \<Rightarrow> (bool, 't) converter" where
  "NamedBoolConverter = named_converter False"

definition NamedIntConverter :: "string \<Rightarrow> (int \<Rightarrow> err + 't) \<Rightarrow> ('t \<Rightarrow> err + int) \<Rightarrow> (int, 't) converter" where
  "NamedIntConverter = named_converter 0"

text \<open>A float64 is of any type with a zero; nothing is computed with it, nor with an int64.\<close>

definition NamedFloatConverter :: "string \<Rightarrow> ('f::zero \<Rightarrow> err + 't) \<Rightarrow> ('t \<Rightarrow> err + 'f) \<Rightarrow> ('f, 't) converter" where
  "NamedFloatConverter = named_converter 0"

definition NamedStringConverter :: "string \<Rightarrow> (string \<Rightarrow> err + 't) \<Rightarrow> ('t \<Rightarrow> err + string) \<Rightarrow> (string, 't) converter" where
  "NamedStringConverter = named_converter []"

definition NamedBytesConverter :: "string \<Rightarrow> (bytes \<Rightarrow> err + 't) \<Rightarrow> ('t \<Rightarrow> err + bytes) \<Rightarrow> (bytes, 't) converter" where
  "NamedBytesConverter = named_converter []"

text \<open>The undefined CID is the empty string.\<close>

definition NamedLinkConverter :: "string \<Rightarrow> (link \<Rightarrow> err + 't) \<Rightarrow> ('t \<Rightarrow> err + link) \<Rightarrow> (link, 't) converter" where
  "NamedLinkConverter = named_converter []"

definition NamedAnyConverter :: "string \<Rightarrow> (node \<Rightarrow> err + 't) \<Rightarrow> ('t \<Rightarrow> err + node) \<Rightarrow> (node, 't) converter" where
  "NamedAnyConverter = named_converter NNull"

lemmas converter_defs = NamedBoolConverter_def NamedIntConverter_def NamedFloatConverter_def NamedStringConverter_def
  NamedBytesConverter_def NamedLinkConverter_def NamedAnyConverter_def named_converter_def

text \<open>
  A converter of functions that invert each other gives back the representation it converted, and panics
  only on a value of another type.
\<close>

lemma converter_roundtrip:
  assumes "\<And>r t. from r = Inr t \<Longrightarrow> to t = Inr r" and "cv_from (named_converter zero n from to) r = Inr p"
  shows "cv_to (named_converter zero n from to) p = Ret (Inr r)"
  using assms by (auto simp: named_converter_def split: sum.splits)

lemma converter_panics: "returns (cv_to (named_converter zero n from to) p) \<longleftrightarrow> p \<noteq> OtherType"
  by (cases p) (simp_all add: named_converter_def returns_def)

section \<open>Iterators\<close>

definition iter_Map2 :: "('k \<Rightarrow> 'v \<Rightarrow> 'l \<times> 'w) \<Rightarrow> ('k \<times> 'v) list \<Rightarrow> ('l \<times> 'w) list" where
  "iter_Map2 f seq = map (\<lambda>(k, v). f k v) seq"

definition iter_Concat :: "'a list list \<Rightarrow> 'a list" where
  "iter_Concat seqs = concat seqs"

lemma iter_laws:
  "iter_Map2 f (iter_Concat2 seqs) = iter_Concat2 (map (iter_Map2 f) seqs)"
  "iter_Map f (iter_Concat seqs') = iter_Concat (map (iter_Map f) seqs')"
  by (induction seqs, induction seqs') (simp_all add: iter_Map2_def [abs_def] iter_Concat2_def iter_Map_def [abs_def] iter_Concat_def map_concat comp_def)

end
