(* ===== verification/Keys.thy ===== *)
theory Keys
  imports Principal
begin

text \<open>
  principal/ed25519/signer and principal/rsa/signer: the text form of signers, and generating RSA keys. The
  base64pad encoder of multibase, the random key and the encoding of a private key are parameters.
\<close>

section \<open>Text forms\<close>

definition eds_Format :: "(bytes \<Rightarrow> err + string) \<Rightarrow> bytes \<Rightarrow> err + string" where
  "eds_Format encode64 signer = encode64 signer"

definition eds_Parse :: "extlib \<Rightarrow> string \<Rightarrow> (err + bytes) comp" where
  "eds_Parse L str =
     (case mb_decode L str of
        Inl e \<Rightarrow> Ret (Inl (''decoding multibase string: '' @ e))
      | Inr (_, b) \<Rightarrow> eds_Decode L b)"

definition rsas_Format :: "(bytes \<Rightarrow> err + string) \<Rightarrow> rsa_signer \<Rightarrow> err + string" where
  "rsas_Format encode64 signer = encode64 (rs_bytes signer)"

definition rsas_Parse :: "extlib \<Rightarrow> string \<Rightarrow> (err + rsa_signer) comp" where
  "rsas_Parse L str =
     (case mb_decode L str of
        Inl e \<Rightarrow> Ret (Inl (''decoding multibase string: '' @ e))
      | Inr (_, b) \<Rightarrow> rsas_Decode L b)"

section \<open>Generating an RSA key\<close>

text \<open>\<open>key\<close> is what \<open>rsa.GenerateKey\<close> returned and \<open>marshal_priv\<close> is \<open>x509.MarshalPKCS1PrivateKey\<close>.\<close>

definition rsas_Generate :: "extlib \<Rightarrow> (bytes \<Rightarrow> bytes) \<Rightarrow> err + bytes \<Rightarrow> (err + rsa_signer) comp" where
  "rsas_Generate L marshal_priv key =
     (case key of
        Inl e \<Rightarrow> Ret (Inl (''generating RSA key: '' @ e))
      | Inr priv \<Rightarrow>
          (let pubbytes = TagWith L rsav_Code (pkcs1_marshal_pub L priv)
           in cmap (\<lambda>r. case r of
                Inl e \<Rightarrow> Inl (''decoding public bytes: '' @ e)
              | Inr verif \<Rightarrow>
                  (let prvbytes = TagWith L rsas_Code (marshal_priv priv)
                   in Inr \<lparr> rs_bytes = prvbytes, rs_privKey = priv, rs_verifier = verif \<rparr>))
              (rsav_Decode L pubbytes)))"

section \<open>Properties\<close>

text \<open>\<open>multibase.Encode\<close> in base64pad: an encoding decodes to the bytes, whatever code it reports.\<close>

definition encodes64 :: "extlib \<Rightarrow> (bytes \<Rightarrow> err + string) \<Rightarrow> bool" where
  "encodes64 L encode64 \<longleftrightarrow> (\<forall>b. \<exists>t c. encode64 b = Inr t \<and> mb_decode L t = Inr (c, b))"

definition reads_keys :: "extlib \<Rightarrow> (bytes \<Rightarrow> bytes) \<Rightarrow> bool" where
  "reads_keys L marshal_priv \<longleftrightarrow> (\<forall>k. pkcs1_parse_priv L (marshal_priv k) = Inr k)"

lemma rsav_decode_tagged:
  assumes "varint_ok L"
  shows "rsav_Decode L (TagWith L rsav_Code b) = Ret (rsav_FromRaw L b)"
  using assms by (auto simp: rsav_Decode_def rsav_FromRaw_def tag_with_bytes untag_tagged Let_def split: sum.splits)

text \<open>An RSA signer is its own bytes decoded.\<close>

lemma rsas_decode_tagged:
  assumes "varint_ok L"
  shows "rsas_Decode L (TagWith L rsas_Code b) = Ret (rsas_FromRaw L b)"
  using assms by (auto simp: rsas_Decode_def rsas_FromRaw_def rsav_decode_tagged tag_with_bytes [of L rsas_Code] untag_tagged Let_def
      split: sum.splits)

lemma rsas_from_raw_decodes:
  assumes "varint_ok L" "rsas_FromRaw L b = Inr s"
  shows "rsas_Decode L (rs_bytes s) = Ret (Inr s)"
proof -
  have "rs_bytes s = TagWith L rsas_Code b" using assms(2) by (auto simp: rsas_FromRaw_def Let_def split: sum.splits)
  then show ?thesis using rsas_decode_tagged [OF assms(1), of b] assms(2) by simp
qed

text \<open>
  A key that is generated is one that decodes: what \<open>Generate\<close> returns is what \<open>FromRaw\<close> makes of the encoded
  private key, so that what it signs its verifier accepts.
\<close>

lemma rsas_generated:
  assumes "varint_ok L" "rsa_ok L" "reads_keys L marshal_priv"
  obtains s where "rsas_Generate L marshal_priv (Inr priv) = Ret (Inr s)" "rsas_FromRaw L (marshal_priv priv) = Inr s"
proof -
  have k: "pkcs1_parse_priv L (marshal_priv priv) = Inr priv" using assms(3) by (simp add: reads_keys_def)
  with assms(2) obtain p where "pkcs1_parse_pub L (pkcs1_marshal_pub L priv) = Inr p" unfolding rsa_ok_def by blast
  then obtain v where "rsav_FromRaw L (pkcs1_marshal_pub L priv) = Inr v" by (simp add: rsav_FromRaw_def)
  with k show thesis
    by (intro that) (simp_all add: rsas_Generate_def rsas_FromRaw_def rsav_decode_tagged [OF assms(1)] Let_def)
qed

text \<open>
  Parsing the text form of a signer gives the signer back, for Ed25519 signers and for RSA signers, also
  generated ones; and a generated RSA signer's signatures verify under its verifier.
\<close>

theorem signer_text_roundtrip:
  assumes "varint_ok L" "encodes64 L enc" "length seed = 32" "length pub = 32"
    and "rsa_ok L" "reads_keys L marshal_priv"
  shows "(\<exists>t. eds_Format enc (eds_bytes L seed pub) = Inr t \<and> eds_Parse L t = Ret (Inr (eds_bytes L seed pub))) \<and>
         (\<exists>s t. rsas_Generate L marshal_priv (Inr priv) = Ret (Inr s) \<and> rsas_Format enc s = Inr t \<and>
            rsas_Parse L t = Ret (Inr s) \<and> (\<forall>m. rsav_Verify L (rs_verifier s) m (rsas_Sign L s m) = Ret True))"
proof -
  have enc: "\<exists>t c. enc b = Inr t \<and> mb_decode L t = Inr (c, b)" for b using assms(2) by (simp add: encodes64_def)
  obtain s where s: "rsas_Generate L marshal_priv (Inr priv) = Ret (Inr s)" "rsas_FromRaw L (marshal_priv priv) = Inr s"
    by (rule rsas_generated [OF assms(1,5,6)])
  have u: "rsa_usable (L, s)" using assms(1,5) s(2) by (auto simp: rsa_usable_def)
  have v: "rsav_Verify L (rs_verifier s) m (rsas_Sign L s m) = Ret True" for m
    using rsa.sign_then_verify [OF u, of m] by (simp add: rsa_key_sign_def rsa_key_verify_def)
  obtain t c where "enc (rs_bytes s) = Inr t" "mb_decode L t = Inr (c, rs_bytes s)" using enc by blast
  then have "rsas_Format enc s = Inr t" "rsas_Parse L t = Ret (Inr s)"
    using rsas_from_raw_decodes [OF assms(1) s(2)] by (simp_all add: rsas_Format_def rsas_Parse_def)
  moreover obtain t' c' where "enc (eds_bytes L seed pub) = Inr t'" "mb_decode L t' = Inr (c', eds_bytes L seed pub)"
    using enc by blast
  then have "eds_Format enc (eds_bytes L seed pub) = Inr t' \<and> eds_Parse L t' = Ret (Inr (eds_bytes L seed pub))"
    using eds_decode_bytes [OF assms(1,3,4)] by (simp add: eds_Format_def eds_Parse_def)
  ultimately show ?thesis using s(1) v by blast
qed

theorem signer_text_roundtrip_witness:
  "\<exists>t s t'. eds_Format (\<lambda>b. Inr (mb_encode58 lib0 b)) (eds_bytes lib0 (replicate 32 (CHR ''s'')) (replicate 32 (CHR ''p''))) = Inr t \<and>
     eds_Parse lib0 t = Ret (Inr (eds_bytes lib0 (replicate 32 (CHR ''s'')) (replicate 32 (CHR ''p'')))) \<and>
     rsas_Generate lib0 (\<lambda>k. k) (Inr ''k'') = Ret (Inr s) \<and>
     rsas_Format (\<lambda>b. Inr (mb_encode58 lib0 b)) s = Inr t' \<and> rsas_Parse lib0 t' = Ret (Inr s)"
proof -
  have "encodes64 lib0 (\<lambda>b. Inr (mb_encode58 lib0 b))" using lib0_multibase_ok by (simp add: encodes64_def multibase_ok_def)
  moreover have "reads_keys lib0 (\<lambda>k. k)" by (simp add: reads_keys_def lib0_def)
  ultimately show ?thesis
    using signer_text_roundtrip [OF lib0_varint_ok _ _ _ lib0_rsa_ok, of "\<lambda>b. Inr (mb_encode58 lib0 b)"
        "replicate 32 (CHR ''s'')" "replicate 32 (CHR ''p'')" "\<lambda>k. k" "''k''"] by auto
qed

end
