(* ===== verification/Spec2Isabelle.thy ===== *)
theory Spec2Isabelle
  imports Exchange Serving Codec Keys
begin

text \<open>
  go-ucanto: UCAN authorization and RPC. A principal (did, principal, ucan/crypto) signs UCANs (ucan): an
  issuer delegates capabilities to an audience. A delegation (core/delegation) is a UCAN with the blocks of
  the delegations it rests on (core/ipld, core/dag/blockstore); an invocation (core/invocation) is a
  delegation that asks a service to act. A client (client) puts invocations in a message (core/message) and
  sends it through a codec and a channel (transport, core/car); a server (server) decodes it, finds the
  handler of each invocation, validates the invocation (validator), runs the handler and answers with
  receipts (core/receipt). The retrieval variant (server/retrieval, client/retrieval) carries the message in
  an HTTP header and, when it is too big, delegation by delegation over several requests, with a cache of
  delegations at the server.

  Theories, each over the ones before it. Definitions have the names of the Go functions, with a prefix for
  the type when several types have the function (\<open>dlg_\<close> delegation, \<open>ucan_\<close>, \<open>rcpt_\<close> receipt, \<open>msg_\<close>
  message, \<open>bs_\<close>/\<open>br_\<close> block store and reader, \<open>srv_\<close> server, \<open>ret_\<close> retrieval, \<open>match_\<close>, \<open>cap_\<close>).
    Prelude      outcomes of computations, byte strings, Go's strings and slices, IPLD nodes
    External     the libraries the program calls, as a record of functions, and what it relies on
    Did          did/did.go
    Signature    ucan/crypto/signature
    Principal    principal: ed25519 and RSA signers and verifiers, wrapped principals, the absentee
    Keys         the text forms of signers and the generation of RSA keys
    Result       core/result: results, failures and their data models
    Schema       core/schema: readers
    Blockstore   core/ipld/block, core/ipld/hash, core/dag/blockstore, core/iterable
    Codec        core/ipld/codec, core/ipld: recovering from panics; core/schema/options: converters
    Ucan         ucan: model, view, capabilities, sign payload, Issue, VerifySignature, the time window
    Car          core/car
    Delegation   core/delegation, core/invocation: views, Export, Archive, Extract, Format, Parse, Delegate
    Capability   validator/capability.go: matches, descriptors, Select, ResolveCapability, DefaultDerives
    Verror       validator/error.go
    Validator    validator/lib.go, validator/authorization.go: Access, Claim, Authorize, Validate, ...
    Soundness    the specification of authority, and that an answer of the search meets it
    Search       fuel, termination, completeness and the order of goroutines of the search
    Pruning      validator/proof_pruning.go, validator/util.go
    Receipt      core/receipt, ran, fx
    Message      core/message
    Transport    transport, transport/http, transport/car, transport/headercar
    Server       server, server/transaction
    Retrieval    server/retrieval
    Client       client, client/retrieval
    Negotiation  the retrieval client against the retrieval server
    Session      sequences of requests to a retrieval server
    Exchange     the client against the server
    Chain        the server against an invocation that rests on a chain of delegations
    Delegating   issuing such a chain with Delegate, and serving the invocation at its end
    Serving      examples/retrieval: the content/serve capability, its server and its client

  How the code is modelled. A block, delegation, receipt, message, server or connection is a record of the
  code's fields; a block store is its map and its list of keys. An operation that may panic has the type
  \<open>comp\<close> (\<open>Ret\<close>, \<open>Panic\<close> with the run-time error, or \<open>Fuel\<close>); one that returns an error gives a sum,
  \<open>Inl\<close> the error. Operations of servers, clients and handlers act on a state \<open>'s\<close> that they pass on
  (\<open>act\<close>, \<open>sbind\<close>). Go's \<open>any\<close> is \<open>gany\<close>: an IPLD node, a builder, or a Go value. An iterator is the
  list of what it yields, blocks and errors. Goroutines are run one after the other in an order that is a
  parameter (\<open>ve_order\<close> of the search, \<open>order\<close> of \<open>srv_Execute\<close>); theorems hold for every order that is a
  permutation. Interface values that may be nil are options or have a nil constructor.

  Libraries are records of functions: \<open>extlib\<close> (multibase, varint, CID, hash and signature primitives),
  \<open>ucanlib\<close>, \<open>rcptlib\<close>, \<open>srvlib\<close>, \<open>retlib\<close> and the codecs of messages (bindnode, DAG-CBOR and DAG-JSON at a
  schema type), \<open>carlib\<close> (go-car's reader and writer of one section), \<open>hcarlib\<close> (gzip and multibase),
  \<open>lrulib\<close> (the LRU), \<open>http_env\<close> (the HTTP client), \<open>fmtlib\<close> (JSON and time formatting). What a theorem
  relies on is a named predicate on them (\<open>varint_ok\<close>, \<open>ed25519_ok\<close>, \<open>rsa_ok\<close>, \<open>multibase_ok\<close>, \<open>codec_ok\<close>,
  \<open>carlib_ok\<close>, \<open>hcarlib_ok\<close>, \<open>lru_ok\<close>), and the witnesses instantiate each with concrete functions
  (\<open>lib0\<close>, \<open>ucanlib0\<close>, \<open>car0\<close>, \<open>hcar0\<close>, \<open>lrulib0\<close>, \<open>R0\<close>, \<open>table_codec\<close>).

  What the lemmas show.
    Authorization (Soundness, Search): \<open>Access\<close> answers with an authorization exactly if a chain of derived
      capabilities, each delegation in force and made out to the issuer of the one above it, ends in one
      whose issuer may issue it; the answer does not depend on the order of goroutines; the search ends; a
      session is recognised only by an attestation of this very delegation, of the authority or an attestor.
    Attenuation (Capability), pruning of proofs (Pruning), rendering of errors without a panic (Verror).
    Integrity and contents of blocks, stores, CARs, delegations, receipts and messages; round trips of
      archives, texts and transports; signing and verifying (Did to Delegation, Receipt to Transport).
    Serving (Server, Retrieval): a request changes what the handlers can change only when authorized; each
      invocation is answered by one receipt that verifies; a missing proof is asked for by name.
    Composition (Negotiation, Session, Exchange, Chain, Delegating, Serving): what a chain of keys delegates to
      the last of them a server serves to it; the example's client gets the bytes it asks for; the
      negotiation in parts ends and brings the whole invocation to the server and its answer back; the
      cache cannot be poisoned by any sequence of requests; executing over a connection answers every
      invocation sent.
  Interfaces are locales, each interpreted on the model: \<open>signature_scheme\<close> and \<open>ucan_scheme\<close> (ed25519,
  RSA), \<open>string_matcher\<close> (literals and their unions), \<open>block_container\<close> (store, reader), \<open>read_through\<close> (the
  caches of a message), \<open>message_codec\<close> (the four encodings), \<open>guarded_service\<close> and \<open>guarded_retrieval\<close>
  (providers), \<open>delegation_store\<close>, \<open>keeping_store\<close> and \<open>checked_store\<close> (the in-memory cache) and
  \<open>partial_channel\<close> (a channel to a retrieval server).

  Bounds and fuel. The search takes fuel, one unit per level of \<open>Claim\<close> and \<open>Authorize\<close>: more fuel never
  changes an answer (\<open>fuel_mono\<close>), and \<open>access_settles\<close> gives enough whenever proofs are well founded.
  Exporting takes the depth of the proofs (\<open>export_enough_fuel\<close>). \<open>ExtractInvocation\<close> and \<open>collect_parts\<close>
  take one unit per proof link looked up, without a visited set in the code, bounded by any weight that
  exceeds the sum over the proofs (\<open>weighs\<close>); the rounds of the negotiation are bounded by the number of
  parts (\<open>negotiation_ends\<close>). The header limit of 4096 bytes and the cache size of 100 are the code's.

  Not modelled. Getters and marker methods of the interfaces: they are the fields of the records and the
  constructors of the types. The loading of the schemas, the encoding of JSON text, the trace context and the
  stack traces, which are the work of libraries and of the run-time. The random source of key generation.
  The locks of the block store and data races: goroutines run one after the other. Errors of closing a body.
  The helpers of the tests; of the example, the files, the terminal and the listener.
\<close>

end
